(* ===== verification/Prelude.thy ===== *)
theory Prelude
  imports Complex_Main "HOL-Library.Word" "HOL-Library.Monad_Syntax"
begin

text \<open>
  Shared vocabulary of the development: the C integer types, bounds-checked access to C arrays,
  \<open>for\<close> loops over an index range, and the byte and half-word splits that the register table and
  the Modbus frames use.

  A C expression whose evaluation the program does not survive (an access outside an array, a
  failing \<open>RT_ASSERT\<close>, a conversion with undefined result) is the value \<^term>\<open>None\<close>; a function that
  can run into one returns an \<open>option\<close> and its body is written in the \<open>option\<close> monad.
\<close>

unbundle bit_operations_syntax

named_theorems c_mem "evaluation of checked array accesses"
named_theorems word_split "splitting and joining of bytes and half words"

type_synonym u8 = "8 word"
type_synonym u16 = "16 word"
type_synonym u32 = "32 word"

section \<open>Definitions\<close>

text \<open>The error codes of the kernel; a call returns the negative of one.\<close>

datatype rt_err = RT_EOK | RT_ERROR | RT_ETIMEOUT | RT_EFULL | RT_EEMPTY | RT_ENOMEM | RT_ENOSYS | RT_EBUSY | RT_EIO | RT_EINTR | RT_EINVAL

text \<open>The order in which threads wait for an object.\<close>

datatype ipc_flag = RT_IPC_FLAG_FIFO | RT_IPC_FLAG_PRIO

definition rd :: "'a list \<Rightarrow> nat \<Rightarrow> 'a option" where
  "rd xs i = (if i < length xs then Some (xs ! i) else None)"

definition wr :: "'a list \<Rightarrow> nat \<Rightarrow> 'a \<Rightarrow> 'a list option" where
  "wr xs i v = (if i < length xs then Some (xs[i := v]) else None)"

definition c_assert :: "bool \<Rightarrow> unit option" where
  "c_assert b = (if b then Some () else None)"

text \<open>\<open>for (i = a; i < b; i++) body\<close> is \<open>foldM body [a..<b]\<close>.\<close>

primrec foldM :: "('a \<Rightarrow> 's \<Rightarrow> 's option) \<Rightarrow> 'a list \<Rightarrow> 's \<Rightarrow> 's option" where
  "foldM f [] s = Some s"
| "foldM f (x # xs) s = Option.bind (f x s) (foldM f xs)"

text \<open>\<open>(h << 8) | l\<close> and its two halves.\<close>

definition mk16 :: "u8 \<Rightarrow> u8 \<Rightarrow> u16" where
  "mk16 h l = push_bit 8 (ucast h) OR ucast l"

definition hi8 :: "u16 \<Rightarrow> u8" where
  "hi8 w = ucast (drop_bit 8 w)"

definition lo8 :: "u16 \<Rightarrow> u8" where
  "lo8 w = ucast (w AND 0xFF)"

text \<open>\<open>lo + (hi << 16)\<close>, how the table keeps a 32-bit value in two registers.\<close>

definition mk32 :: "u16 \<Rightarrow> u16 \<Rightarrow> u32" where
  "mk32 lo hi = ucast lo + push_bit 16 (ucast hi)"

definition lo16 :: "u32 \<Rightarrow> u16" where
  "lo16 w = ucast (w AND 0x0000FFFF)"

definition hi16 :: "u32 \<Rightarrow> u16" where
  "hi16 w = ucast (drop_bit 16 (w AND 0xFFFF0000))"

section \<open>Checked memory\<close>

lemma rd_in [simp, c_mem]: "i < length xs \<Longrightarrow> rd xs i = Some (xs ! i)"
  by (simp add: rd_def)

lemma rd_out [c_mem]: "length xs \<le> i \<Longrightarrow> rd xs i = None"
  by (simp add: rd_def)

lemma rd_eq_Some: "rd xs i = Some v \<longleftrightarrow> i < length xs \<and> v = xs ! i"
  by (auto simp: rd_def)

lemma wr_in [simp, c_mem]: "i < length xs \<Longrightarrow> wr xs i v = Some (xs[i := v])"
  by (simp add: wr_def)

lemma wr_out [c_mem]: "length xs \<le> i \<Longrightarrow> wr xs i v = None"
  by (simp add: wr_def)

lemma wr_eq_Some: "wr xs i v = Some ys \<longleftrightarrow> i < length xs \<and> ys = xs[i := v]"
  by (auto simp: wr_def)

lemma wr_length: "wr xs i v = Some ys \<Longrightarrow> length ys = length xs"
  by (auto simp: wr_eq_Some)

lemma c_assert_simps [simp]: "c_assert True = Some ()" "c_assert False = None"
  by (simp_all add: c_assert_def)

lemma c_assert_Some [simp]: "c_assert b = Some u \<longleftrightarrow> b"
  by (simp add: c_assert_def)

section \<open>Loops\<close>

lemma foldM_append: "foldM f (xs @ ys) s = Option.bind (foldM f xs s) (foldM f ys)"
  by (induction xs arbitrary: s) (simp_all split: bind_split)

text \<open>The invariant rule of a counted loop: it also gives that the loop runs to its end.\<close>

lemma foldM_upt_inv:
  assumes "a \<le> b" and "I a s"
    and step: "\<And>i t. a \<le> i \<Longrightarrow> i < b \<Longrightarrow> I i t \<Longrightarrow> \<exists>t'. f i t = Some t' \<and> I (Suc i) t'"
  shows "\<exists>s'. foldM f [a..<b] s = Some s' \<and> I b s'"
  using assms
proof (induction "b - a" arbitrary: a s)
  case 0
  then show ?case by simp
next
  case (Suc n)
  then have ab: "a < b" by simp
  from Suc.prems(3)[OF order_refl ab Suc.prems(2)]
  obtain t where t: "f a s = Some t" "I (Suc a) t" by blast
  have "\<exists>s'. foldM f [Suc a..<b] t = Some s' \<and> I b s'"
    by (rule Suc.hyps(1)) (use Suc.hyps(2) ab t(2) Suc.prems(3) in auto)
  with t(1) ab show ?case by (simp add: upt_conv_Cons)
qed

text \<open>A loop whose body cannot fail is the corresponding \<^const>\<open>fold\<close>.\<close>

lemma foldM_fold:
  assumes "\<And>x s. x \<in> set xs \<Longrightarrow> P s \<Longrightarrow> f x s = Some (g x s) \<and> P (g x s)" and "P s"
  shows "foldM f xs s = Some (fold g xs s) \<and> P (fold g xs s)"
  using assms by (induction xs arbitrary: s) auto

section \<open>Bytes and half words\<close>

lemma unat_u8_less: "unat (x :: u8) < 256"
  using unsigned_less [of x] by simp

lemma unat_u16_less: "unat (x :: u16) < 65536"
  using unsigned_less [of x] by simp

lemma unat_u32_less: "unat (x :: u32) < 4294967296"
  using unsigned_less [of x] by simp

lemma lo8_ucast: "lo8 w = ucast w"
  unfolding lo8_def by (rule bit_eqI) (auto simp: bit_simps bit_numeral_rec
      numeral_eq_Suc less_Suc_eq)

lemma hi8_mk16 [simp, word_split]: "hi8 (mk16 h l) = h"
  unfolding hi8_def mk16_def
  by (rule bit_eqI) (auto simp: bit_simps dest: bit_imp_le_length)

lemma lo8_mk16 [simp, word_split]: "lo8 (mk16 h l) = l"
  unfolding lo8_ucast mk16_def by (rule bit_eqI) (auto simp: bit_simps)

lemma mk16_hi8_lo8 [simp, word_split]: "mk16 (hi8 w) (lo8 w) = w"
  unfolding lo8_ucast hi8_def mk16_def
  by (rule bit_eqI) (auto simp: bit_simps)

lemma mk16_eq_iff [word_split]: "mk16 h l = mk16 h' l' \<longleftrightarrow> h = h' \<and> l = l'"
  by (metis hi8_mk16 lo8_mk16)

lemma uint_mk16: "uint (mk16 h l) = 256 * uint h + uint l"
proof -
  have disj: "push_bit 8 (ucast h :: u16) AND ucast l = 0"
    by (rule bit_eqI) (auto simp: bit_simps dest: bit_imp_le_length)
  have "uint (mk16 h l) = uint (push_bit 8 (ucast h :: u16) + ucast l)"
    unfolding mk16_def using disj by (simp add: disjunctive_add_eq_or)
  also have "\<dots> = 256 * uint h + uint l"
  proof -
    have "uint h < 256" "uint l < 256"
      using uint_lt2p [of h] uint_lt2p [of l] by simp_all
    then show ?thesis
      by (simp add: push_bit_eq_mult uint_word_ariths unsigned_ucast_eq take_bit_eq_mod)
  qed
  finally show ?thesis .
qed

lemma unat_mk16: "unat (mk16 h l) = 256 * unat h + unat l"
proof -
  have "int (unat (mk16 h l)) = int (256 * unat h + unat l)"
    using uint_mk16 [of h l] by simp
  then show ?thesis by (simp only: of_nat_eq_iff)
qed

lemma lo16_ucast: "lo16 w = ucast w"
proof -
  have mask: "(0x0000FFFF :: u32) = mask 16"
    by (simp add: mask_eq_exp_minus_1)
  show ?thesis
    unfolding lo16_def mask by (rule bit_eqI) (auto simp: bit_simps)
qed

lemma hi16_ucast: "hi16 w = ucast (drop_bit 16 w)"
proof -
  have mask: "(0xFFFF0000 :: u32) = push_bit 16 (mask 16)"
    by (simp add: mask_eq_exp_minus_1)
  show ?thesis
    unfolding hi16_def mask by (rule bit_eqI) (auto simp: bit_simps)
qed

lemma mk32_or: "mk32 lo hi = ucast lo OR push_bit 16 (ucast hi)"
proof -
  have "(ucast lo :: u32) AND push_bit 16 (ucast hi) = 0"
    by (rule bit_eqI) (auto simp: bit_simps dest: bit_imp_le_length)
  then show ?thesis by (simp add: mk32_def disjunctive_add_eq_or)
qed

lemma lo16_mk32 [simp, word_split]: "lo16 (mk32 lo hi) = lo"
  unfolding lo16_ucast mk32_or by (rule bit_eqI) (auto simp: bit_simps)

lemma hi16_mk32 [simp, word_split]: "hi16 (mk32 lo hi) = hi"
  unfolding hi16_ucast mk32_or
  by (rule bit_eqI) (auto simp: bit_simps dest: bit_imp_le_length)

lemma mk32_lo16_hi16 [simp, word_split]: "mk32 (lo16 w) (hi16 w) = w"
  unfolding lo16_ucast hi16_ucast mk32_or
  by (rule bit_eqI) (auto simp: bit_simps)

lemma mk32_eq_iff [word_split]: "mk32 a b = mk32 c d \<longleftrightarrow> a = c \<and> b = d"
  by (metis hi16_mk32 lo16_mk32)

end
