(* ===== verification/CFloat.thy ===== *)
theory CFloat
  imports Prelude
begin

text \<open>
  The C floating-point arithmetic the frame decoder uses, executable and exact: a finite value is
  \<open>m * 2 ^ e\<close> with integers \<open>m\<close> and \<open>e\<close>, and every operation rounds its exact result to the
  nearest value of the format's precision, ties to even (53 bits for \<open>double\<close>, 24 for \<open>float\<close>).
  The exponent range is not bounded: the decoder's values lie between \<open>2 ^ -60\<close> and \<open>2 ^ 20\<close> in
  magnitude, far from overflow and from the subnormal numbers. \<open>NaN\<close> is the result of the square
  root of a negative number and propagates. A conversion to an integer type whose range the
  truncated value exceeds is undefined in C, and \<^term>\<open>None\<close> here.
\<close>

section \<open>Definitions\<close>

datatype cfp = Fin int int | NaN

text \<open>Number of bits of a positive integer.\<close>

fun blen :: "int \<Rightarrow> nat" where
  "blen a = (if a \<le> 0 then 0 else Suc (blen (a div 2)))"

declare blen.simps [simp del]

definition round_to :: "nat \<Rightarrow> int \<Rightarrow> int \<Rightarrow> cfp" where
  "round_to p m e =
     (let a = \<bar>m\<bar>; n = blen a
      in if n \<le> p then Fin m e
         else let s = n - p; q = a div 2 ^ s; r = a mod 2 ^ s; h = 2 ^ (s - 1);
                  q' = (if r > h \<or> (r = h \<and> odd q) then q + 1 else q)
              in Fin (sgn m * q') (e + int s))"

definition f_of_int :: "int \<Rightarrow> cfp" where
  "f_of_int n = Fin n 0"

fun f_round :: "nat \<Rightarrow> cfp \<Rightarrow> cfp" where
  "f_round p (Fin m e) = round_to p m e"
| "f_round p NaN = NaN"

fun f_neg :: "cfp \<Rightarrow> cfp" where
  "f_neg (Fin m e) = Fin (- m) e"
| "f_neg NaN = NaN"

fun f_mul :: "nat \<Rightarrow> cfp \<Rightarrow> cfp \<Rightarrow> cfp" where
  "f_mul p (Fin m e) (Fin m' e') = round_to p (m * m') (e + e')"
| "f_mul p _ _ = NaN"

fun f_add :: "nat \<Rightarrow> cfp \<Rightarrow> cfp \<Rightarrow> cfp" where
  "f_add p (Fin m e) (Fin m' e') =
     (let f = min e e'
      in round_to p (m * 2 ^ nat (e - f) + m' * 2 ^ nat (e' - f)) f)"
| "f_add p _ _ = NaN"

definition f_sub :: "nat \<Rightarrow> cfp \<Rightarrow> cfp \<Rightarrow> cfp" where
  "f_sub p x y = f_add p x (f_neg y)"

text \<open>
  Quotient and square root are computed with more than \<open>p + 2\<close> bits and a sticky bit below them,
  which is what rounding to nearest needs.
\<close>

fun f_div :: "nat \<Rightarrow> cfp \<Rightarrow> cfp \<Rightarrow> cfp" where
  "f_div p (Fin m e) (Fin m' e') =
     (if m' = 0 then NaN
      else let k = p + 2 + blen \<bar>m'\<bar>; a = \<bar>m\<bar> * 2 ^ k; q = a div \<bar>m'\<bar>;
               st = (if a mod \<bar>m'\<bar> = 0 then 0 else 1)
           in round_to p (sgn m * sgn m' * (2 * q + st)) (e - e' - int k - 1))"
| "f_div p _ _ = NaN"

function isqrt :: "int \<Rightarrow> int" where
  "isqrt n = (if n \<le> 0 then 0
              else let r = 2 * isqrt (n div 4) in if (r + 1) * (r + 1) \<le> n then r + 1 else r)"
  by pat_completeness auto
termination
  by (relation "measure nat") auto

declare isqrt.simps [simp del]

fun f_sqrt :: "nat \<Rightarrow> cfp \<Rightarrow> cfp" where
  "f_sqrt p (Fin m e) =
     (if m < 0 then NaN
      else let k = 2 * p + 6 + (if even e then 0 else 1); a = m * 2 ^ k; r = isqrt a;
               st = (if r * r = a then 0 else 1)
           in round_to p (2 * r + st) ((e - int k) div 2 - 1))"
| "f_sqrt p NaN = NaN"

fun f_pos :: "cfp \<Rightarrow> bool" where
  "f_pos (Fin m e) = (m > 0)"
| "f_pos NaN = False"

text \<open>Truncation towards zero, and the two conversions the program makes.\<close>

definition trunc_int :: "int \<Rightarrow> int \<Rightarrow> int" where
  "trunc_int m e = (if 0 \<le> e then m * 2 ^ nat e else sgn m * (\<bar>m\<bar> div 2 ^ nat (- e)))"

fun f_to_u16 :: "cfp \<Rightarrow> u16 option" where
  "f_to_u16 (Fin m e) =
     (let t = trunc_int m e in if 0 \<le> t \<and> t < 65536 then Some (of_int t) else None)"
| "f_to_u16 NaN = None"

fun f_to_s16 :: "cfp \<Rightarrow> u16 option" where
  "f_to_s16 (Fin m e) =
     (let t = trunc_int m e in if -32768 \<le> t \<and> t < 32768 then Some (of_int t) else None)"
| "f_to_s16 NaN = None"

text \<open>A decimal literal of type \<open>double\<close>: \<open>5.506\<close> is \<open>dlit 5506 1000\<close>.\<close>

definition dlit :: "int \<Rightarrow> int \<Rightarrow> cfp" where
  "dlit n d = f_div 53 (f_of_int n) (f_of_int d)"

text \<open>The real number a finite value stands for.\<close>

fun fval :: "cfp \<Rightarrow> real" where
  "fval (Fin m e) = real_of_int m * 2 powi e"
| "fval NaN = 0"

lemma fval_sign: "0 \<le> fval (Fin m e) \<longleftrightarrow> 0 \<le> m" "0 < fval (Fin m e) \<longleftrightarrow> 0 < m"
proof -
  have p: "(0::real) < 2 powi e" by simp
  show "0 \<le> fval (Fin m e) \<longleftrightarrow> 0 \<le> m"
    using mult_le_cancel_right_pos [OF p, of 0 "of_int m"] by simp
  show "0 < fval (Fin m e) \<longleftrightarrow> 0 < m"
    using mult_less_cancel_right_pos [OF p, of 0 "of_int m"] by simp
qed

text \<open>\<open>near x v e\<close>: the value is a number within \<open>e\<close> of \<open>v\<close>.\<close>

definition near :: "cfp \<Rightarrow> real \<Rightarrow> real \<Rightarrow> bool" where
  "near x v e \<longleftrightarrow> x \<noteq> NaN \<and> \<bar>fval x - v\<bar> \<le> e"

section \<open>Bit length and integer square root\<close>

lemma blen_pos: "0 < a \<Longrightarrow> blen a = Suc (blen (a div 2))"
  by (subst blen.simps) simp

lemma blen_upper: "0 \<le> a \<Longrightarrow> a < 2 ^ blen a"
proof (induction a rule: blen.induct)
  case (1 a)
  show ?case
  proof (cases "a = 0")
    case True
    then show ?thesis by (simp add: blen.simps)
  next
    case False
    with "1.prems" have "0 < a" by simp
    with "1.IH" have "a div 2 < 2 ^ blen (a div 2)" by simp
    then have "a < 2 * 2 ^ blen (a div 2)" by linarith
    with \<open>0 < a\<close> show ?thesis by (simp add: blen_pos)
  qed
qed

lemma blen_lower: "0 < a \<Longrightarrow> 2 ^ (blen a - 1) \<le> a"
proof (induction a rule: blen.induct)
  case (1 a)
  show ?case
  proof (cases "a = 1")
    case True
    then show ?thesis by (simp add: blen.simps)
  next
    case False
    with "1.prems" have a: "0 < a div 2" by linarith
    with "1" have IH: "2 ^ (blen (a div 2) - 1) \<le> a div 2" by simp
    have "blen (a div 2) = Suc (blen (a div 2) - 1)"
      using a by (simp add: blen_pos)
    then have "(2::int) ^ blen (a div 2) = 2 * 2 ^ (blen (a div 2) - 1)"
      by (metis power_Suc)
    with IH have "2 ^ blen (a div 2) \<le> a" by linarith
    with "1.prems" show ?thesis by (simp add: blen_pos)
  qed
qed

text \<open>\<^const>\<open>isqrt\<close> is the integer square root.\<close>

lemma isqrt_spec: "0 \<le> n \<Longrightarrow> 0 \<le> isqrt n \<and> isqrt n * isqrt n \<le> n \<and> n < (isqrt n + 1) * (isqrt n + 1)"
proof (induction n rule: isqrt.induct)
  case (1 n)
  show ?case
  proof (cases "n = 0")
    case True
    then show ?thesis by (simp add: isqrt.simps)
  next
    case False
    with "1.prems" have n: "\<not> n \<le> 0" by simp
    define r where "r = isqrt (n div 4)"
    have IH: "0 \<le> r" "r * r \<le> n div 4" "n div 4 < (r + 1) * (r + 1)"
      using "1.IH" [OF n] n by (simp_all add: r_def)
    have lo: "2 * r * (2 * r) \<le> n" using IH(2) by (simp add: algebra_simps)
    have "4 * (n div 4) + 4 \<le> 4 * ((r + 1) * (r + 1))" using IH(3) by linarith
    then have hi: "n < (2 * r + 2) * (2 * r + 2)" by (simp add: algebra_simps)
    show ?thesis
      by (subst (1 2 3 4 5) isqrt.simps)
        (use n IH(1) lo hi in \<open>auto simp: Let_def r_def [symmetric] algebra_simps\<close>)
  qed
qed

section \<open>Rounding\<close>

lemma round_half:
  fixes a :: int
  assumes "0 < s"
  defines "q \<equiv> a div 2 ^ s" and "r \<equiv> a mod 2 ^ s"
  defines "q' \<equiv> (if r > 2 ^ (s - 1) \<or> (r = 2 ^ (s - 1) \<and> odd q) then q + 1 else q)"
  shows "\<bar>q' * 2 ^ s - a\<bar> \<le> 2 ^ (s - 1)"
proof -
  have two: "(2::int) ^ s = 2 * 2 ^ (s - 1)"
    using assms(1) by (metis Suc_diff_1 power_Suc)
  have a: "a = q * 2 ^ s + r"
    unfolding q_def r_def by (rule div_mult_mod_eq [symmetric])
  have r: "0 \<le> r" "r < 2 ^ s" by (simp_all add: r_def)
  show ?thesis
    using r two unfolding q'_def a by (auto simp: algebra_simps)
qed

text \<open>Rounding is within half a unit in the last place: relative error at most \<open>2 ^ -p\<close>.\<close>

lemma round_to_error:
  "\<bar>fval (round_to p m e) - real_of_int m * 2 powi e\<bar> \<le> \<bar>real_of_int m * 2 powi e\<bar> / 2 ^ p"
proof (cases "blen \<bar>m\<bar> \<le> p")
  case True
  then show ?thesis by (simp add: round_to_def Let_def)
next
  case False
  define s where "s = blen \<bar>m\<bar> - p"
  define a where "a = \<bar>m\<bar>"
  define q' where "q' = (if a mod 2 ^ s > 2 ^ (s - 1) \<or> (a mod 2 ^ s = 2 ^ (s - 1) \<and> odd (a div 2 ^ s))
    then a div 2 ^ s + 1 else a div 2 ^ s)"
  have s: "0 < s" using False by (simp add: s_def)
  have m: "m \<noteq> 0" using False by (auto simp: blen.simps)
  have rt: "round_to p m e = Fin (sgn m * q') (e + int s)"
    using False by (simp add: round_to_def Let_def s_def a_def q'_def)
  have err: "\<bar>q' * 2 ^ s - a\<bar> \<le> 2 ^ (s - 1)"
    unfolding q'_def by (rule round_half [OF s])
  have "(2::int) ^ (s - 1) * 2 ^ p = 2 ^ (blen a - 1)"
    using s by (simp add: s_def a_def flip: power_add)
  also have "\<dots> \<le> a" by (rule blen_lower) (simp add: a_def m)
  finally have "2 ^ (s - 1) * 2 ^ p \<le> a" .
  with err have "\<bar>q' * 2 ^ s - a\<bar> * 2 ^ p \<le> a"
    by (smt (verit) mult_right_mono zero_le_power)
  then have bnd: "\<bar>real_of_int (q' * 2 ^ s - a)\<bar> * 2 ^ p \<le> real_of_int a"
    by (metis (mono_tags) of_int_abs of_int_le_iff of_int_mult of_int_numeral of_int_power)
  have sgn: "real_of_int m = of_int (sgn m) * of_int a"
    by (simp add: a_def sgn_if)
  have "fval (round_to p m e) - real_of_int m * 2 powi e
      = of_int (sgn m) * of_int (q' * 2 ^ s - a) * 2 powi e"
    by (simp add: rt sgn power_int_add algebra_simps)
  moreover have "\<bar>of_int (sgn m) :: real\<bar> = 1" using m by (simp add: sgn_if)
  ultimately have "\<bar>fval (round_to p m e) - real_of_int m * 2 powi e\<bar>
      = \<bar>real_of_int (q' * 2 ^ s - a)\<bar> * 2 powi e"
    by (simp add: abs_mult)
  also have "\<dots> \<le> (real_of_int a / 2 ^ p) * 2 powi e"
    using bnd by (intro mult_right_mono) (simp_all add: field_simps)
  also have "\<dots> = \<bar>real_of_int m * 2 powi e\<bar> / 2 ^ p"
    by (simp add: a_def abs_mult)
  finally show ?thesis .
qed

lemma round_to_Fin: "round_to p m e \<noteq> NaN"
  by (simp add: round_to_def Let_def)

section \<open>Accuracy of the operations\<close>

lemma f_round_error:
  assumes "x \<noteq> NaN"
  shows "f_round p x \<noteq> NaN" and "\<bar>fval (f_round p x) - fval x\<bar> \<le> \<bar>fval x\<bar> / 2 ^ p"
  using assms by (cases x; simp add: round_to_Fin round_to_error)+

lemma f_neg_exact [simp]:
  "f_neg x = NaN \<longleftrightarrow> x = NaN" "fval (f_neg x) = - fval x"
  by (cases x; simp)+

lemma f_of_int_exact [simp]: "f_of_int n \<noteq> NaN" "fval (f_of_int n) = of_int n"
  by (simp_all add: f_of_int_def)

lemma f_mul_error:
  assumes "x \<noteq> NaN" "y \<noteq> NaN"
  shows "f_mul p x y \<noteq> NaN"
    and "\<bar>fval (f_mul p x y) - fval x * fval y\<bar> \<le> \<bar>fval x * fval y\<bar> / 2 ^ p"
proof -
  obtain m e m' e' where xy: "x = Fin m e" "y = Fin m' e'"
    using assms by (cases x; cases y) auto
  have exact: "fval x * fval y = of_int (m * m') * 2 powi (e + e')"
    by (simp add: xy power_int_add)
  show "f_mul p x y \<noteq> NaN" by (simp add: xy round_to_Fin)
  show "\<bar>fval (f_mul p x y) - fval x * fval y\<bar> \<le> \<bar>fval x * fval y\<bar> / 2 ^ p"
    unfolding exact using round_to_error [of p "m * m'" "e + e'"] by (simp add: xy)
qed

lemma scale_powi: "f \<le> e \<Longrightarrow> real_of_int (m * 2 ^ nat (e - f)) * 2 powi f = of_int m * 2 powi e"
proof -
  assume "f \<le> e"
  then have "(2::real) powi e = 2 powi (int (nat (e - f)) + f)" by simp
  also have "\<dots> = 2 ^ nat (e - f) * 2 powi f"
    by (subst power_int_add) (simp_all flip: power_int_of_nat)
  finally show ?thesis by simp
qed

lemma f_add_error:
  assumes "x \<noteq> NaN" "y \<noteq> NaN"
  shows "f_add p x y \<noteq> NaN"
    and "\<bar>fval (f_add p x y) - (fval x + fval y)\<bar> \<le> \<bar>fval x + fval y\<bar> / 2 ^ p"
proof -
  obtain m e m' e' where xy: "x = Fin m e" "y = Fin m' e'"
    using assms by (cases x; cases y) auto
  define f where "f = min e e'"
  define M where "M = m * 2 ^ nat (e - f) + m' * 2 ^ nat (e' - f)"
  have "fval x + fval y = real_of_int (m * 2 ^ nat (e - f)) * 2 powi f
      + real_of_int (m' * 2 ^ nat (e' - f)) * 2 powi f"
    by (subst (1 2) scale_powi) (simp_all add: f_def xy)
  then have exact: "fval x + fval y = of_int M * 2 powi f"
    by (simp only: M_def of_int_add distrib_right)
  have def: "f_add p x y = round_to p M f"
    by (simp add: xy M_def f_def Let_def)
  show "f_add p x y \<noteq> NaN" by (simp add: def round_to_Fin)
  show "\<bar>fval (f_add p x y) - (fval x + fval y)\<bar> \<le> \<bar>fval x + fval y\<bar> / 2 ^ p"
    unfolding exact def by (rule round_to_error)
qed

lemma f_sub_error:
  assumes "x \<noteq> NaN" "y \<noteq> NaN"
  shows "f_sub p x y \<noteq> NaN"
    and "\<bar>fval (f_sub p x y) - (fval x - fval y)\<bar> \<le> \<bar>fval x - fval y\<bar> / 2 ^ p"
  using f_add_error [of x "f_neg y" p] assms by (simp_all add: f_sub_def)

text \<open>
  Quotient and root are first cut off with a sticky bit, which moves them by less than half a unit,
  and then rounded.
\<close>

lemma round_to_near:
  assumes "\<bar>real_of_int M * 2 powi E - v\<bar> \<le> \<bar>v\<bar> / 2 ^ p"
  shows "\<bar>fval (round_to p M E) - v\<bar> \<le> 3 * \<bar>v\<bar> / 2 ^ p"
proof -
  let ?w = "real_of_int M * 2 powi E"
  have "\<bar>v\<bar> / 2 ^ p \<le> \<bar>v\<bar> / 1" by (rule divide_left_mono) simp_all
  with assms have "\<bar>?w\<bar> \<le> 2 * \<bar>v\<bar>" by linarith
  then have "\<bar>?w\<bar> / 2 ^ p \<le> 2 * \<bar>v\<bar> / 2 ^ p" by (rule divide_right_mono) simp
  with round_to_error [of p M E] assms show ?thesis by linarith
qed

lemma sticky_quotient:
  fixes a b :: int
  assumes "0 < b" and "b * 2 ^ (p + 2) \<le> a \<or> a = 0"
  shows "\<bar>real_of_int (2 * (a div b) + (if a mod b = 0 then 0 else 1)) / 2 - of_int a / of_int b\<bar>
      \<le> (of_int a / of_int b) / 2 ^ p"
proof (cases "a mod b = 0")
  case True
  then have "a = b * (a div b)" by (metis add.right_neutral mult_div_mod_eq)
  then have "real_of_int (a div b) = of_int a / of_int b"
    using assms(1) by (metis nonzero_mult_div_cancel_left of_int_eq_0_iff of_int_mult order_less_irrefl)
  moreover have "0 \<le> a" using assms by (auto intro: order_trans [rotated])
  ultimately show ?thesis using True assms(1) by simp
next
  case False
  define q where "q = a div b"
  have a: "b * 2 ^ (p + 2) \<le> a" using assms(2) False by auto
  have "b * q \<le> a" "a < b * q + b"
    using mult_div_mod_eq [of b a] pos_mod_bound [OF assms(1), of a] pos_mod_sign [OF assms(1), of a]
    unfolding q_def by linarith+
  then have "real_of_int (b * q) \<le> real_of_int a" "real_of_int a < real_of_int (b * q + b)"
    by (simp_all only: of_int_le_iff of_int_less_iff)
  then have "of_int q \<le> real_of_int a / of_int b" "real_of_int a / of_int b < of_int q + 1"
    using assms(1) by (simp_all add: field_simps)
  then have "\<bar>real_of_int (2 * q + 1) / 2 - of_int a / of_int b\<bar> \<le> 1"
    unfolding abs_le_iff by (simp add: add_divide_distrib)
  also have "1 \<le> (of_int a / of_int b) / (2::real) ^ p"
  proof -
    have "b * 2 ^ p \<le> b * 2 ^ (p + 2)" using assms(1) by simp
    with a have "b * 2 ^ p \<le> a" by linarith
    then have "real_of_int (b * 2 ^ p) \<le> of_int a" by (simp only: of_int_le_iff)
    with assms(1) show ?thesis by (simp add: field_simps)
  qed
  finally show ?thesis using False by (simp add: q_def)
qed

lemma f_div_error:
  assumes "x \<noteq> NaN" "y \<noteq> NaN" "fval y \<noteq> 0"
  shows "f_div p x y \<noteq> NaN"
    and "\<bar>fval (f_div p x y) - fval x / fval y\<bar> \<le> 3 * \<bar>fval x / fval y\<bar> / 2 ^ p"
proof -
  obtain m e m' e' where xy: "x = Fin m e" "y = Fin m' e'"
    using assms by (cases x; cases y) auto
  have m': "m' \<noteq> 0" using assms(3) xy by auto
  define b where "b = \<bar>m'\<bar>"
  define k where "k = p + 2 + blen b"
  define a where "a = \<bar>m\<bar> * 2 ^ k"
  define M where "M = 2 * (a div b) + (if a mod b = 0 then 0 else 1)"
  define E where "E = e - e' - int k - 1"
  have def: "f_div p x y = round_to p (sgn m * sgn m' * M) E"
    using m' by (simp add: xy b_def k_def a_def M_def E_def Let_def)
  have b: "0 < b" using m' by (simp add: b_def)
  have "b * 2 ^ (p + 2) \<le> 2 ^ blen b * 2 ^ (p + 2)"
    using blen_upper [of b] b by (intro mult_right_mono) simp_all
  also have "\<dots> = 2 ^ k" by (simp add: k_def power_add)
  finally have "b * 2 ^ (p + 2) \<le> 2 ^ k" .
  then have "b * 2 ^ (p + 2) \<le> a \<or> a = 0"
    unfolding a_def by (cases "m = 0") (auto intro: order_trans [OF _ mult_right_mono [of 1]])
  from sticky_quotient [OF b this]
  have st: "\<bar>of_int M / 2 - of_int a / of_int b\<bar> \<le> (of_int a / of_int b) / (2::real) ^ p"
    by (simp add: M_def)
  define c where "c = real_of_int (sgn m * sgn m') * 2 powi (e - e' - int k)"
  have quo: "fval x / fval y = (of_int a / of_int b) * c"
  proof -
    have "real_of_int m / of_int m' = of_int (sgn m * sgn m') * (of_int \<bar>m\<bar> / of_int b)"
      using m' by (auto simp: b_def sgn_if field_simps)
    moreover have "fval x / fval y = (of_int m / of_int m') * 2 powi (e - e')"
      by (simp add: xy power_int_diff)
    ultimately have "fval x / fval y
        = of_int (sgn m * sgn m') * (of_int \<bar>m\<bar> / of_int b) * 2 powi (e - e')"
      by simp
    also have "(2::real) powi (e - e') = 2 ^ k * 2 powi (e - e' - int k)"
      by (simp add: power_int_diff)
    finally show ?thesis by (simp add: a_def c_def)
  qed
  have "(2::real) powi E = 2 powi (e - e' - int k) / 2" by (simp add: E_def power_int_diff)
  then have w: "real_of_int (sgn m * sgn m' * M) * 2 powi E = (of_int M / 2) * c"
    by (simp add: c_def)
  have "\<bar>(of_int M / 2) * c - (of_int a / of_int b) * c\<bar> = \<bar>of_int M / 2 - of_int a / of_int b\<bar> * \<bar>c\<bar>"
    by (simp only: abs_mult left_diff_distrib [symmetric])
  also have "\<dots> \<le> ((of_int a / of_int b) / 2 ^ p) * \<bar>c\<bar>"
    by (rule mult_right_mono [OF st]) simp
  also have "\<dots> = \<bar>(of_int a / of_int b) * c\<bar> / 2 ^ p"
    using b by (simp add: abs_mult a_def)
  finally have "\<bar>real_of_int (sgn m * sgn m' * M) * 2 powi E - fval x / fval y\<bar>
      \<le> \<bar>fval x / fval y\<bar> / 2 ^ p"
    unfolding w quo .
  then show "\<bar>fval (f_div p x y) - fval x / fval y\<bar> \<le> 3 * \<bar>fval x / fval y\<bar> / 2 ^ p"
    unfolding def by (rule round_to_near)
  show "f_div p x y \<noteq> NaN" by (simp add: def round_to_Fin)
qed

lemma f_sqrt_error:
  assumes "x \<noteq> NaN" "0 \<le> fval x"
  shows "f_sqrt p x \<noteq> NaN"
    and "\<bar>fval (f_sqrt p x) - sqrt (fval x)\<bar> \<le> 3 * sqrt (fval x) / 2 ^ p"
proof -
  obtain m e where x: "x = Fin m e" using assms by (cases x) auto
  have m: "0 \<le> m" using assms(2) by (simp only: x fval_sign)
  define k where "k = 2 * p + 6 + (if even e then 0 else 1)"
  define a where "a = m * 2 ^ k"
  define r where "r = isqrt a"
  define M where "M = 2 * r + (if r * r = a then 0 else 1)"
  define h where "h = (e - int k) div 2"
  have def: "f_sqrt p x = round_to p M (h - 1)"
    using m by (simp add: x k_def a_def r_def M_def h_def Let_def)
  have h2: "e - int k = 2 * h" by (simp add: h_def k_def)
  have r: "0 \<le> r" "r * r \<le> a" "a < (r + 1) * (r + 1)"
    using isqrt_spec [of a] m by (simp_all add: r_def a_def)
  have "real_of_int (r * r) \<le> of_int a" "real_of_int a < of_int ((r + 1) * (r + 1))"
    using r by (simp_all only: of_int_le_iff of_int_less_iff)
  then have lo: "of_int r \<le> sqrt (of_int a)" and hi: "sqrt (of_int a) < of_int r + 1"
    using r(1) by (auto intro!: real_le_rsqrt real_less_lsqrt simp: power2_eq_square)
  have root: "sqrt (fval x) = sqrt (of_int a) * 2 powi h"
  proof -
    have "e = int k + (h + h)" using h2 by linarith
    then have "(2::real) powi e = 2 powi (int k + (h + h))" by (rule arg_cong)
    also have "\<dots> = 2 ^ k * (2 powi h * 2 powi h)"
      using power_int_add [of "2::real" "int k" "h + h"] power_int_add [of "2::real" h h]
      by (simp only: power_int_of_nat) simp
    finally have "fval x = of_int a * (2 powi h * 2 powi h)" by (simp add: x a_def)
    then show ?thesis by (simp add: real_sqrt_mult)
  qed
  have w: "real_of_int M * 2 powi (h - 1) = (of_int M / 2) * 2 powi h"
    by (simp add: power_int_diff)
  have key: "\<bar>of_int M / 2 - sqrt (of_int a)\<bar> \<le> sqrt (of_int a) / 2 ^ p"
  proof (cases "r * r = a")
    case True
    then have "sqrt (real_of_int a) = of_int r"
      using r(1) by (metis abs_of_nonneg of_int_0_le_iff of_int_mult real_sqrt_abs2)
    with True show ?thesis using r(1) by (simp add: M_def)
  next
    case False
    then have "m \<noteq> 0" using isqrt.simps [of 0] by (auto simp: a_def r_def)
    with m have "1 \<le> m" by simp
    then have "real_of_int 1 * 2 ^ (2 * p) \<le> of_int m * 2 ^ k"
      by (intro mult_mono) (simp_all add: k_def power_increasing)
    then have "(2 ^ p)\<^sup>2 \<le> real_of_int a" by (simp add: a_def power_mult [symmetric] mult.commute)
    then have "2 ^ p \<le> sqrt (real_of_int a)" by (rule real_le_rsqrt)
    then have "1 \<le> sqrt (real_of_int a) / 2 ^ p" by simp
    moreover have "\<bar>of_int M / 2 - sqrt (of_int a)\<bar> \<le> 1"
      using lo hi False unfolding abs_le_iff by (simp add: M_def add_divide_distrib)
    ultimately show ?thesis by linarith
  qed
  have "\<bar>(of_int M / 2) * 2 powi h - sqrt (of_int a) * 2 powi h\<bar>
      = \<bar>of_int M / 2 - sqrt (of_int a)\<bar> * 2 powi h"
    by (simp only: abs_mult left_diff_distrib [symmetric]) simp
  also have "\<dots> \<le> (sqrt (of_int a) / 2 ^ p) * 2 powi h"
    by (rule mult_right_mono [OF key]) simp
  finally have "\<bar>real_of_int M * 2 powi (h - 1) - sqrt (fval x)\<bar> \<le> \<bar>sqrt (fval x)\<bar> / 2 ^ p"
    unfolding w root by (simp add: a_def m abs_mult)
  from round_to_near [OF this]
  show "\<bar>fval (f_sqrt p x) - sqrt (fval x)\<bar> \<le> 3 * sqrt (fval x) / 2 ^ p"
    unfolding def using assms(2) by simp
  show "f_sqrt p x \<noteq> NaN" by (simp add: def round_to_Fin)
qed

section \<open>Error bounds through an expression\<close>

lemma nearD: "near x v e \<Longrightarrow> x \<noteq> NaN" "near x v e \<Longrightarrow> \<bar>fval x - v\<bar> \<le> e"
  by (simp_all add: near_def)

lemma near_le: "near x v e \<Longrightarrow> e \<le> d \<Longrightarrow> near x v d"
  by (auto simp: near_def)

lemma near_of_int: "near (f_of_int n) (of_int n) 0"
  by (simp add: near_def)

lemma near_neg: "near x v e \<Longrightarrow> near (f_neg x) (- v) e"
  by (auto simp: near_def)

lemma near_rounded:
  assumes "z \<noteq> NaN" "\<bar>fval z - w\<bar> \<le> \<bar>w\<bar> / 2 ^ p" "\<bar>w - v\<bar> \<le> e" "\<bar>v\<bar> \<le> V" "e + (V + e) / 2 ^ p \<le> c"
  shows "near z v c"
proof -
  have "\<bar>w\<bar> / 2 ^ p \<le> (V + e) / 2 ^ p"
    using assms(3,4) by (intro divide_right_mono) auto
  with assms(1,2,3,5) show ?thesis by (simp add: near_def)
qed

lemma near_round:
  assumes "near x v e" "\<bar>v\<bar> \<le> V" "e + (V + e) / 2 ^ p \<le> c"
  shows "near (f_round p x) v c"
  by (rule near_rounded [OF f_round_error [OF nearD(1)] nearD(2)]) (fact assms)+

lemma near_add:
  assumes "near x u e" "near y v d" "\<bar>u + v\<bar> \<le> V" "e + d + (V + (e + d)) / 2 ^ p \<le> c"
  shows "near (f_add p x y) (u + v) c"
proof (rule near_rounded [OF f_add_error])
  show "x \<noteq> NaN" "y \<noteq> NaN" "x \<noteq> NaN" "y \<noteq> NaN" using assms(1,2) by (simp_all add: near_def)
  show "\<bar>fval x + fval y - (u + v)\<bar> \<le> e + d"
    using nearD(2) [OF assms(1)] nearD(2) [OF assms(2)] by linarith
qed (fact assms)+

lemma near_sub:
  assumes "near x u e" "near y v d" "\<bar>u - v\<bar> \<le> V" "e + d + (V + (e + d)) / 2 ^ p \<le> c"
  shows "near (f_sub p x y) (u - v) c"
  using near_add [OF assms(1) near_neg [OF assms(2)]] assms(3,4) by (simp add: f_sub_def)

lemma near_mul:
  assumes "near x u e" "near y v d" "\<bar>u\<bar> \<le> U" "\<bar>v\<bar> \<le> V"
    and "U * d + e * V + e * d + (U * V + (U * d + e * V + e * d)) / 2 ^ p \<le> c"
  shows "near (f_mul p x y) (u * v) c"
proof (rule near_rounded [OF f_mul_error])
  show "x \<noteq> NaN" "y \<noteq> NaN" "x \<noteq> NaN" "y \<noteq> NaN" using assms(1,2) by (simp_all add: near_def)
  define g h where "g = fval x - u" and "h = fval y - v"
  have gh: "\<bar>g\<bar> \<le> e" "\<bar>h\<bar> \<le> d" using assms(1,2) by (simp_all add: near_def g_def h_def)
  have "fval x * fval y - u * v = u * h + g * v + g * h" by (simp add: g_def h_def algebra_simps)
  then have "\<bar>fval x * fval y - u * v\<bar> \<le> \<bar>u * h\<bar> + \<bar>g * v\<bar> + \<bar>g * h\<bar>" by simp
  also have "\<dots> \<le> U * d + e * V + e * d"
    unfolding abs_mult using gh assms(3,4) by (intro add_mono mult_mono) auto
  finally show "\<bar>fval x * fval y - u * v\<bar> \<le> U * d + e * V + e * d" .
  show "\<bar>u * v\<bar> \<le> U * V" unfolding abs_mult using assms(3,4) by (intro mult_mono) auto
qed (fact assms)

lemma near_div:
  assumes "near x u e" "near y v d" "\<bar>u\<bar> \<le> U" "0 < L" "L \<le> \<bar>v\<bar> - d"
    and "(e + U * d / L) / L + 3 * (U / L + (e + U * d / L) / L) / 2 ^ p \<le> c"
  shows "near (f_div p x y) (u / v) c"
proof -
  have yv: "x \<noteq> NaN" "y \<noteq> NaN" "\<bar>fval x - u\<bar> \<le> e" "\<bar>fval y - v\<bar> \<le> d"
    using assms(1,2) by (simp_all add: near_def)
  then have Ly: "L \<le> \<bar>fval y\<bar>" and Lv: "L \<le> \<bar>v\<bar>" using assms(5) by linarith+
  have y0: "fval y \<noteq> 0" and v0: "v \<noteq> 0" using Ly Lv assms(4) by auto
  have q: "\<bar>u / v\<bar> \<le> U / L"
    unfolding abs_divide using assms(3,4) Lv by (intro frac_le) auto
  have "\<bar>(u / v) * (v - fval y)\<bar> \<le> (U / L) * d"
    unfolding abs_mult using q yv(4) order_trans [OF abs_ge_zero q]
    by (intro mult_mono) (simp_all add: abs_minus_commute)
  then have "\<bar>(fval x - u) + (u / v) * (v - fval y)\<bar> \<le> e + (U / L) * d"
    by (rule order_trans [OF abs_triangle_ineq add_mono [OF yv(3)]])
  then have num: "\<bar>(fval x - u) + (u / v) * (v - fval y)\<bar> \<le> e + U * d / L"
    unfolding times_divide_eq_left .
  have "fval x / fval y - u / v = ((fval x - u) + (u / v) * (v - fval y)) / fval y"
    using y0 v0 by (simp add: field_simps)
  then have dq: "\<bar>fval x / fval y - u / v\<bar> \<le> (e + U * d / L) / L"
    unfolding abs_divide using num Ly assms(4) by (simp add: abs_divide frac_le)
  then have "\<bar>fval x / fval y\<bar> \<le> U / L + (e + U * d / L) / L" using q by linarith
  then have "3 * \<bar>fval x / fval y\<bar> / 2 ^ p \<le> 3 * (U / L + (e + U * d / L) / L) / 2 ^ p"
    by (intro divide_right_mono mult_left_mono) simp_all
  with f_div_error [OF yv(1,2) y0, of p] dq assms(6) show ?thesis by (simp add: near_def)
qed

lemma near_sqrt:
  assumes "near x v e" "16 \<le> v" "v \<le> 48" "e \<le> 1" "e + 21 / 2 ^ p \<le> c" "0 \<le> e"
  shows "near (f_sqrt p x) (sqrt v) c"
proof -
  have x: "x \<noteq> NaN" "\<bar>fval x - v\<bar> \<le> e" using assms(1) by (simp_all add: near_def)
  then have pos: "0 \<le> fval x" "fval x \<le> 49" using assms(2-4) by linarith+
  have s: "4 \<le> sqrt v" using assms(2) by (intro real_le_rsqrt) simp
  have t: "0 \<le> sqrt (fval x)" "sqrt (fval x) \<le> 7"
    using pos real_sqrt_le_mono [OF pos(2)] by (simp_all add: real_sqrt_eq_iff)
  have "(sqrt (fval x) - sqrt v) * (sqrt (fval x) + sqrt v) = fval x - v"
    using pos assms(2) by (simp add: square_diff_square_factored [symmetric] algebra_simps)
  then have "\<bar>sqrt (fval x) - sqrt v\<bar> * (sqrt (fval x) + sqrt v) \<le> e"
    using x(2) s t by (metis abs_mult abs_of_nonneg add_nonneg_nonneg order_trans zero_le_numeral)
  moreover have "\<bar>sqrt (fval x) - sqrt v\<bar> * 1 \<le> \<bar>sqrt (fval x) - sqrt v\<bar> * (sqrt (fval x) + sqrt v)"
    using s t(1) by (intro mult_left_mono) (linarith, simp)
  ultimately have "\<bar>sqrt (fval x) - sqrt v\<bar> \<le> e" unfolding mult.right_neutral by (rule order_trans [rotated])
  moreover have "3 * sqrt (fval x) / 2 ^ p \<le> 21 / 2 ^ p"
    using t by (intro divide_right_mono) auto
  ultimately show ?thesis
    using f_sqrt_error [OF x(1) pos(1), of p] assms(5) by (simp add: near_def)
qed

section \<open>Truncation\<close>

lemma trunc_int_floor:
  assumes "0 \<le> m"
  shows "trunc_int m e = \<lfloor>fval (Fin m e)\<rfloor>"
proof (cases "0 \<le> e")
  case True
  then have "fval (Fin m e) = of_int (m * 2 ^ nat e)"
    by (simp add: power_int_def)
  then have "\<lfloor>fval (Fin m e)\<rfloor> = m * 2 ^ nat e" by (simp only: floor_of_int)
  with True show ?thesis by (simp add: trunc_int_def)
next
  case False
  then have "fval (Fin m e) = of_int m / of_int (2 ^ nat (- e))"
    by (simp add: power_int_def field_simps)
  then have "\<lfloor>fval (Fin m e)\<rfloor> = m div 2 ^ nat (- e)" by (simp only: floor_divide_of_int_eq)
  with False assms show ?thesis by (cases "m = 0") (simp_all add: trunc_int_def)
qed

lemma trunc_int_neg: "trunc_int (- m) e = - trunc_int m e"
  by (simp add: trunc_int_def sgn_minus)

lemma f_to_u16_floor:
  assumes "x \<noteq> NaN" "0 \<le> fval x" "fval x < 65536"
  shows "f_to_u16 x = Some (of_int \<lfloor>fval x\<rfloor>)"
proof -
  obtain m e where x: "x = Fin m e" using assms(1) by (cases x) auto
  have "0 \<le> m" using assms(2) by (simp only: x fval_sign)
  moreover have "0 \<le> \<lfloor>fval x\<rfloor>" "\<lfloor>fval x\<rfloor> < 65536"
    using assms(2,3) by (simp_all add: floor_less_iff)
  ultimately show ?thesis by (simp add: x trunc_int_floor Let_def)
qed

lemma f_to_s16_floor:
  assumes "x \<noteq> NaN" "0 \<le> fval x" "fval x < 32768"
  shows "f_to_s16 x = Some (of_int \<lfloor>fval x\<rfloor>)"
proof -
  obtain m e where x: "x = Fin m e" using assms(1) by (cases x) auto
  have "0 \<le> m" using assms(2) by (simp only: x fval_sign)
  moreover have "0 \<le> \<lfloor>fval x\<rfloor>" "\<lfloor>fval x\<rfloor> < 32768"
    using assms(2,3) by (simp_all add: floor_less_iff)
  ultimately show ?thesis by (simp add: x trunc_int_floor Let_def del: fval.simps)
qed

lemma f_pos_iff: "x \<noteq> NaN \<Longrightarrow> f_pos x \<longleftrightarrow> 0 < fval x"
  by (cases x) (simp_all add: fval_sign del: fval.simps)

end
