(* ===== verification/Sensor.thy ===== *)
theory Sensor
  imports CFloat
begin

text \<open>
  The conversion formulas of \<open>CalculateVolatge\<close> and \<open>CalculateTemperature\<close> (Task/DataFrame.c) in the
  floating-point arithmetic of CFloat, and their accuracy on the 10-bit readings of the sensor's
  converter: the voltage stored in the table is the exact quotient rounded down, and the decoded
  temperature is within a hundredth of a degree of the real-valued formula.
\<close>

section \<open>Definitions\<close>

text \<open>The \<open>double\<close> constant \<open>2500.0 / 1023\<close>.\<close>

definition adc_mv :: cfp where
  "adc_mv = f_div 53 (f_of_int 2500) (f_of_int 1023)"

definition voltage_of :: "int \<Rightarrow> cfp" where
  "voltage_of voltageInt = f_round 24 (f_mul 53 (f_mul 53 (f_of_int voltageInt) adc_mv) (f_of_int 2))"

text \<open>
  \<open>(5.506 - sqrt(pow(-5.506, 2) + 4 * 0.00176 * (870.6 - temperatureFloat))) / (2 * (-0.00176)) + 30\<close>
  in \<open>double\<close>, the operands and the result rounded to \<open>float\<close> where the code stores them in one.
\<close>

definition temperature_of :: "int \<Rightarrow> cfp" where
  "temperature_of temperatureInt =
     (let temperatureFloat = f_round 24 (f_mul 53 (f_of_int temperatureInt) adc_mv);
          b = dlit 5506 1000;
          a = dlit 176 100000;
          disc = f_add 53 (f_mul 53 (f_neg b) (f_neg b))
                   (f_mul 53 (f_mul 53 (f_of_int 4) a) (f_sub 53 (dlit 8706 10) temperatureFloat))
      in f_round 24 (f_add 53 (f_div 53 (f_sub 53 b (f_sqrt 53 disc)) (f_mul 53 (f_of_int 2) (f_neg a)))
                       (f_of_int 30)))"

text \<open>The temperature formula over the reals, for a reading \<open>n\<close> of the 10-bit converter.\<close>

definition disc_real :: "real \<Rightarrow> real" where
  "disc_real n = (5506 / 1000) * (5506 / 1000) + (4 * (176 / 100000)) * (8706 / 10 - n * (2500 / 1023))"

definition temperature_real :: "real \<Rightarrow> real" where
  "temperature_real n = (5506 / 1000 - sqrt (disc_real n)) / (2 * - (176 / 100000)) + 30"

section \<open>Accuracy of the decoded readings\<close>

lemma near_dlit:
  assumes "d \<noteq> 0" "3 * \<bar>of_int n / of_int d\<bar> / 2 ^ 53 \<le> e"
  shows "near (dlit n d) (of_int n / of_int d) e"
  using f_div_error [of "f_of_int n" "f_of_int d" 53] assms by (simp add: dlit_def near_def)

lemma adc_mv_near: "near adc_mv (2500 / 1023) (1 / 10 ^ 14)"
  using near_dlit [of 1023 2500 "1 / 10 ^ 14"] by (simp add: dlit_def adc_mv_def)

lemma millivolts_near:
  assumes "0 \<le> n" "n \<le> 1023"
  shows "near (f_mul 53 (f_of_int n) adc_mv) (of_int n * (2500 / 1023)) (1 / 10 ^ 10)"
  by (rule near_mul [OF near_of_int adc_mv_near, where U = 1023 and V = 3]) (use assms in simp_all)

lemma voltage_near:
  assumes "0 \<le> n" "n \<le> 1023"
  shows "near (voltage_of n) (of_int n * (5000 / 1023)) (1 / 3000)"
proof -
  have N: "0 \<le> real_of_int n" "real_of_int n \<le> 1023" using assms by simp_all
  have "near (f_mul 53 (f_mul 53 (f_of_int n) adc_mv) (f_of_int 2))
          (of_int n * (2500 / 1023) * of_int 2) (1 / 10 ^ 9)"
    by (rule near_mul [OF millivolts_near [OF assms] near_of_int, where U = 2500 and V = 2])
      (use N in simp_all)
  then have "near (voltage_of n) (of_int n * (2500 / 1023) * of_int 2) (1 / 3000)"
    unfolding voltage_of_def by (rule near_round [where V = 5000]) (use N in simp_all)
  then show ?thesis by (simp add: mult.commute)
qed

lemma disc_real_bounds: "0 \<le> n \<Longrightarrow> n \<le> 1023 \<Longrightarrow> 18 \<le> disc_real n \<and> disc_real n \<le> 37"
  by (simp add: disc_real_def field_simps)

lemma discriminant_near:
  assumes "0 \<le> n" "n \<le> 1023"
  shows "near (f_add 53 (f_mul 53 (f_neg (dlit 5506 1000)) (f_neg (dlit 5506 1000)))
       (f_mul 53 (f_mul 53 (f_of_int 4) (dlit 176 100000))
         (f_sub 53 (dlit 8706 10) (f_round 24 (f_mul 53 (f_of_int n) adc_mv)))))
       (disc_real (of_int n)) (1 / 100000)"
proof -
  have N: "0 \<le> real_of_int n" "real_of_int n \<le> 1023" using assms by simp_all
  have tf: "near (f_round 24 (f_mul 53 (f_of_int n) adc_mv)) (of_int n * (2500 / 1023)) (1 / 5000)"
    by (rule near_round [OF millivolts_near [OF assms], where V = 2500]) (use N in simp_all)
  have b: "near (f_neg (dlit 5506 1000)) (- (5506 / 1000)) (1 / 10 ^ 14)"
    using near_neg [OF near_dlit [of 1000 5506 "1 / 10 ^ 14"]] by simp
  have bb: "near (f_mul 53 (f_neg (dlit 5506 1000)) (f_neg (dlit 5506 1000)))
      (- (5506 / 1000) * - (5506 / 1000)) (1 / 10 ^ 12)"
    by (rule near_mul [OF b b, where U = 6 and V = 6]) simp_all
  have a: "near (dlit 176 100000) (176 / 100000) (1 / 10 ^ 17)"
    using near_dlit [of 100000 176 "1 / 10 ^ 17"] by simp
  have a4: "near (f_mul 53 (f_of_int 4) (dlit 176 100000)) (of_int 4 * (176 / 100000)) (1 / 10 ^ 15)"
    by (rule near_mul [OF near_of_int a, where U = 4 and V = 1]) simp_all
  have t0: "near (dlit 8706 10) (8706 / 10) (1 / 10 ^ 12)"
    using near_dlit [of 10 8706 "1 / 10 ^ 12"] by simp
  have d: "near (f_sub 53 (dlit 8706 10) (f_round 24 (f_mul 53 (f_of_int n) adc_mv)))
      (8706 / 10 - of_int n * (2500 / 1023)) (1 / 4900)"
    by (rule near_sub [OF t0 tf, where V = 2000]) (use N in simp_all)
  have m: "near (f_mul 53 (f_mul 53 (f_of_int 4) (dlit 176 100000))
      (f_sub 53 (dlit 8706 10) (f_round 24 (f_mul 53 (f_of_int n) adc_mv))))
      (of_int 4 * (176 / 100000) * (8706 / 10 - of_int n * (2500 / 1023))) (1 / 200000)"
    by (rule near_mul [OF a4 d, where U = "1 / 100" and V = 2000]) (use N in simp_all)
  have D: "- (5506 / 1000) * - (5506 / 1000)
      + of_int 4 * (176 / 100000) * (8706 / 10 - of_int n * (2500 / 1023)) = disc_real (of_int n)"
    by (simp add: disc_real_def)
  show ?thesis
    unfolding D [symmetric]
    by (rule near_add [OF bb m, where V = 40]) (use disc_real_bounds [OF N] in \<open>unfold D, simp_all\<close>)
qed

text \<open>The decoded temperature is within a hundredth of a degree of the sensor's formula.\<close>

lemma temperature_near:
  assumes "0 \<le> n" "n \<le> 1023"
  shows "near (temperature_of n) (temperature_real (of_int n)) (1 / 100)"
proof -
  define S where "S = sqrt (disc_real (of_int n))"
  have db: "18 \<le> disc_real (of_int n)" "disc_real (of_int n) \<le> 37"
    using disc_real_bounds [of "of_int n"] assms by simp_all
  then have "sqrt 16 \<le> S" "S \<le> sqrt 49"
    unfolding S_def by (intro real_sqrt_le_mono; simp)+
  then have S: "4 \<le> S" "S \<le> 7"
    by (simp_all add: real_sqrt_eq_iff [symmetric])
  let ?disc = "f_add 53 (f_mul 53 (f_neg (dlit 5506 1000)) (f_neg (dlit 5506 1000)))
       (f_mul 53 (f_mul 53 (f_of_int 4) (dlit 176 100000))
         (f_sub 53 (dlit 8706 10) (f_round 24 (f_mul 53 (f_of_int n) adc_mv))))"
  have s: "near (f_sqrt 53 ?disc) S (1 / 90000)"
    unfolding S_def by (rule near_sqrt [OF discriminant_near [OF assms]]) (use db in simp_all)
  have b: "near (dlit 5506 1000) (5506 / 1000) (1 / 10 ^ 14)"
    using near_dlit [of 1000 5506 "1 / 10 ^ 14"] by simp
  have num: "near (f_sub 53 (dlit 5506 1000) (f_sqrt 53 ?disc)) (5506 / 1000 - S) (1 / 80000)"
    by (rule near_sub [OF b s, where V = 4]) (use S in simp_all)
  have a: "near (f_neg (dlit 176 100000)) (- (176 / 100000)) (1 / 10 ^ 17)"
    using near_neg [OF near_dlit [of 100000 176 "1 / 10 ^ 17"]] by simp
  have den: "near (f_mul 53 (f_of_int 2) (f_neg (dlit 176 100000))) (of_int 2 * - (176 / 100000)) (1 / 10 ^ 15)"
    by (rule near_mul [OF near_of_int a, where U = 2 and V = 1]) simp_all
  have quo: "near (f_div 53 (f_sub 53 (dlit 5506 1000) (f_sqrt 53 ?disc))
        (f_mul 53 (f_of_int 2) (f_neg (dlit 176 100000))))
      ((5506 / 1000 - S) / (of_int 2 * - (176 / 100000))) (1 / 200)"
    by (rule near_div [OF num den, where U = 4 and L = "1 / 300"]) (use S in simp_all)
  let ?T = "(5506 / 1000 - S) / (of_int 2 * - (176 / 100000)) + of_int 30"
  have V: "\<bar>?T\<bar> \<le> 600" using S by (simp add: abs_le_iff field_simps)
  have sum: "near (f_add 53 (f_div 53 (f_sub 53 (dlit 5506 1000) (f_sqrt 53 ?disc))
        (f_mul 53 (f_of_int 2) (f_neg (dlit 176 100000)))) (f_of_int 30)) ?T (1 / 150)"
    by (rule near_add [OF quo near_of_int V]) simp
  have "near (temperature_of n) ?T (1 / 100)"
    unfolding temperature_of_def Let_def by (rule near_round [OF sum V]) simp
  then show ?thesis by (simp add: temperature_real_def S_def)
qed

lemma voltage_ends: "f_to_s16 (voltage_of 0) = Some 0" "f_to_s16 (voltage_of 1023) = Some 5000"
  by code_simp+

lemma floor_near_quotient:
  fixes a b :: int and x :: real
  assumes "0 < b" "\<not> b dvd a" "\<bar>x - of_int a / of_int b\<bar> < 1 / of_int b"
  shows "\<lfloor>x\<rfloor> = a div b"
proof -
  define q r where "q = a div b" and "r = a mod b"
  have a: "a = b * q + r" by (simp add: q_def r_def)
  have r: "1 \<le> r" "r \<le> b - 1"
    using assms(2) pos_mod_sign [OF assms(1), of a] pos_mod_bound [OF assms(1), of a]
    unfolding r_def dvd_eq_mod_eq_0 by linarith+
  have div: "real_of_int a / of_int b = of_int q + of_int r / of_int b"
    using assms(1) by (simp add: a add_divide_distrib)
  have "1 / of_int b \<le> real_of_int r / of_int b" "real_of_int r / of_int b \<le> of_int (b - 1) / of_int b"
    using r assms(1) by (simp_all add: divide_right_mono)
  moreover have "real_of_int (b - 1) / of_int b = 1 - 1 / of_int b"
    using assms(1) by (simp add: diff_divide_distrib)
  ultimately have "of_int q \<le> x" "x < of_int q + 1"
    using assms(3) div by linarith+
  then show ?thesis by (simp add: floor_eq_iff q_def)
qed

text \<open>The stored voltage is the exact quotient, rounded down.\<close>

lemma voltage_exact:
  assumes "0 \<le> n" "n \<le> 1023"
  shows "f_to_s16 (voltage_of n) = Some (of_int (5000 * n div 1023))"
proof (cases "n = 0 \<or> n = 1023")
  case True
  then show ?thesis using voltage_ends by auto
next
  case False
  then have "\<not> 1023 dvd n" using assms by (auto dest: zdvd_imp_le)
  moreover have "coprime (1023::int) 5000" by code_simp
  ultimately have nd: "\<not> 1023 dvd 5000 * n" using coprime_dvd_mult_right_iff by blast
  have near: "\<bar>fval (voltage_of n) - of_int (5000 * n) / of_int 1023\<bar> < 1 / of_int 1023"
    using nearD(2) [OF voltage_near [OF assms]] by (simp add: mult.commute)
  have fl: "\<lfloor>fval (voltage_of n)\<rfloor> = 5000 * n div 1023"
    by (rule floor_near_quotient [OF _ nd near]) simp
  have "1 \<le> n" using False assms by simp
  then have "1 \<le> real_of_int n" "real_of_int n \<le> 1023" using assms by simp_all
  with nearD(2) [OF voltage_near [OF assms]] have "0 \<le> fval (voltage_of n)" "fval (voltage_of n) < 32768"
    by linarith+
  from f_to_s16_floor [OF nearD(1) [OF voltage_near [OF assms]] this] show ?thesis by (simp add: fl)
qed

lemma temperature_range:
  assumes "0 \<le> n" "n \<le> 1023"
  shows "-400 \<le> temperature_real n" "temperature_real n \<le> 196"
proof -
  have d: "18 \<le> disc_real n" "disc_real n \<le> 37" using disc_real_bounds [OF assms] by simp_all
  then have "4 \<le> sqrt (disc_real n)" by (intro real_le_rsqrt) simp
  moreover have "sqrt (disc_real n) \<le> 609 / 100"
    using d by (intro real_le_lsqrt) (simp_all add: power2_eq_square)
  ultimately have "4 \<le> sqrt (disc_real n)" "sqrt (disc_real n) \<le> 609 / 100" by simp_all
  then show "-400 \<le> temperature_real n" "temperature_real n \<le> 196"
    by (simp_all add: temperature_real_def field_simps)
qed

end
