(* ===== verification/RegMap.thy ===== *)
theory RegMap
  imports Prelude
begin

text \<open>
  The slave's holding registers \<open>usSRegHoldBuf\<close> (components/net/freemodbus/port/user_mb_app.c), the
  table every part of the relay shares: the radio task writes the readings of node \<open>i\<close> into it, the
  Modbus stack serves it to the host, the configuration task reads its parameter words. The layout
  constants are those of Task/DataFrame.h. A 32-bit value lives in two consecutive registers, low half
  first.
\<close>

section \<open>Definitions\<close>

type_synonym regs = "u16 list"

definition S_REG_HOLDING_NREGS :: nat where "S_REG_HOLDING_NREGS = 3080"

definition CONFIG_FLAG_ADDRESS :: nat where "CONFIG_FLAG_ADDRESS = 0x007"
definition TEMPERATURE_FIRST_ADDRESS :: nat where "TEMPERATURE_FIRST_ADDRESS = 0x008"
definition VOLTAGE_FIRST_ADDRESS :: nat where "VOLTAGE_FIRST_ADDRESS = 0x108"
definition LAUNCH_NUMBER_FIRAT_ADDRESS :: nat where "LAUNCH_NUMBER_FIRAT_ADDRESS = 0x208"
definition NODE_STATUS_FIRST_ADDRESS :: nat where "NODE_STATUS_FIRST_ADDRESS = 0x408"
definition NODE_DEVICE_ID_FIRST_ADDRESS :: nat where "NODE_DEVICE_ID_FIRST_ADDRESS = 0x708"
definition MEASUREMENT_TYPE_FIRAT_ADDRESS :: nat where "MEASUREMENT_TYPE_FIRAT_ADDRESS = 0x908"
definition RECEIVING_MOMENT_FIRAT_ADDRESS :: nat where "RECEIVING_MOMENT_FIRAT_ADDRESS = 0xA08"

lemmas layout_defs = S_REG_HOLDING_NREGS_def CONFIG_FLAG_ADDRESS_def TEMPERATURE_FIRST_ADDRESS_def
  VOLTAGE_FIRST_ADDRESS_def LAUNCH_NUMBER_FIRAT_ADDRESS_def NODE_STATUS_FIRST_ADDRESS_def
  NODE_DEVICE_ID_FIRST_ADDRESS_def MEASUREMENT_TYPE_FIRAT_ADDRESS_def
  RECEIVING_MOMENT_FIRAT_ADDRESS_def

text \<open>
  \<open>usSRegHoldBuf[a] + (usSRegHoldBuf[a + 1] << 16)\<close> and the two assignments that store a 32-bit
  value.
\<close>

definition rd32 :: "regs \<Rightarrow> nat \<Rightarrow> u32 option" where
  "rd32 rs a = do {
     lo \<leftarrow> rd rs a;
     hi \<leftarrow> rd rs (a + 1);
     Some (mk32 lo hi)
   }"

definition wr32 :: "regs \<Rightarrow> nat \<Rightarrow> u32 \<Rightarrow> regs option" where
  "wr32 rs a v = do {
     rs1 \<leftarrow> wr rs a (lo16 v);
     wr rs1 (a + 1) (hi16 v)
   }"

text \<open>The whole table is in place.\<close>

definition regs_ok :: "regs \<Rightarrow> bool" where
  "regs_ok rs \<longleftrightarrow> length rs = S_REG_HOLDING_NREGS"

text \<open>The registers that belong to node \<open>i\<close>'s readings (its device code is configuration).\<close>

definition node_addrs :: "nat \<Rightarrow> nat set" where
  "node_addrs i =
     {TEMPERATURE_FIRST_ADDRESS + i, VOLTAGE_FIRST_ADDRESS + i,
      LAUNCH_NUMBER_FIRAT_ADDRESS + 2 * i, LAUNCH_NUMBER_FIRAT_ADDRESS + 1 + 2 * i,
      NODE_STATUS_FIRST_ADDRESS + 2 + 3 * i,
      RECEIVING_MOMENT_FIRAT_ADDRESS + 2 * i, RECEIVING_MOMENT_FIRAT_ADDRESS + 1 + 2 * i}"

definition id_addrs :: "nat \<Rightarrow> nat set" where
  "id_addrs i = {NODE_DEVICE_ID_FIRST_ADDRESS + 2 * i, NODE_DEVICE_ID_FIRST_ADDRESS + 1 + 2 * i}"

section \<open>The table as an array of words\<close>

text \<open>
  What the clients of a register file rely on: a read returns the last value written, a write
  changes one register, and both succeed on the valid addresses.
\<close>

locale register_file =
  fixes get :: "'s \<Rightarrow> nat \<Rightarrow> u16 option"
    and put :: "'s \<Rightarrow> nat \<Rightarrow> u16 \<Rightarrow> 's option"
    and size_of :: "'s \<Rightarrow> nat"
  assumes get_ok: "a < size_of s \<Longrightarrow> \<exists>v. get s a = Some v"
    and put_ok: "a < size_of s \<Longrightarrow> \<exists>t. put s a v = Some t"
    and put_size: "put s a v = Some t \<Longrightarrow> size_of t = size_of s"
    and get_put: "put s a v = Some t \<Longrightarrow> get t b = (if b = a then Some v else get s b)"
begin

text \<open>A 32-bit value kept in two neighbouring registers.\<close>

lemma pair_read_back:
  assumes "put s a v = Some t" "put t (a + 1) w = Some u"
  shows "get u a = Some v" "get u (a + 1) = Some w"
  using get_put [OF assms(1)] get_put [OF assms(2)] by auto

lemma pair_frame:
  assumes "put s a v = Some t" "put t (a + 1) w = Some u" "b \<noteq> a" "b \<noteq> a + 1"
  shows "get u b = get s b"
  using get_put [OF assms(1)] get_put [OF assms(2)] assms(3,4) by auto

lemma pair_write_ok:
  assumes "a + 1 < size_of s"
  shows "\<exists>t u. put s a v = Some t \<and> put t (a + 1) w = Some u \<and> size_of u = size_of s"
proof -
  obtain t where t: "put s a v = Some t" using put_ok [of a s v] assms by auto
  with put_size have st: "size_of t = size_of s" by blast
  then obtain u where u: "put t (a + 1) w = Some u" using put_ok [of "a + 1" t w] assms by auto
  with t st put_size show ?thesis by metis
qed

end

interpretation hold: register_file rd wr length
  by unfold_locales (auto simp: rd_def wr_def split: if_splits)

section \<open>32-bit entries\<close>

lemma rd32_in [simp, c_mem]: "a + 1 < length rs \<Longrightarrow> rd32 rs a = Some (mk32 (rs ! a) (rs ! (a + 1)))"
  by (simp add: rd32_def)

lemma wr32_in [simp, c_mem]:
  "a + 1 < length rs \<Longrightarrow> wr32 rs a v = Some (rs[a := lo16 v, a + 1 := hi16 v])"
  by (simp add: wr32_def)

lemma wr32_obtain:
  assumes "wr32 rs a v = Some rs'"
  obtains t where "wr rs a (lo16 v) = Some t" "wr t (a + 1) (hi16 v) = Some rs'"
  using assms by (auto simp: wr32_def bind_eq_Some_conv)

lemma rd32_wr32: "wr32 rs a v = Some rs' \<Longrightarrow> rd32 rs' a = Some v"
proof (elim wr32_obtain)
  fix t assume "wr rs a (lo16 v) = Some t" "wr t (a + 1) (hi16 v) = Some rs'"
  from hold.pair_read_back [OF this] show ?thesis by (simp add: rd32_def)
qed

lemma wr32_frame: "wr32 rs a v = Some rs' \<Longrightarrow> b \<noteq> a \<Longrightarrow> b \<noteq> a + 1 \<Longrightarrow> rd rs' b = rd rs b"
  by (elim wr32_obtain) (simp add: hold.pair_frame)

lemma wr32_length: "wr32 rs a v = Some rs' \<Longrightarrow> length rs' = length rs"
  by (elim wr32_obtain) (auto dest!: wr_length)

section \<open>Layout\<close>

text \<open>Every register of every node lies inside the table.\<close>

lemma node_addrs_in_table: "i < 256 \<Longrightarrow> a \<in> node_addrs i \<union> id_addrs i \<Longrightarrow> a < S_REG_HOLDING_NREGS"
  by (auto simp: node_addrs_def id_addrs_def layout_defs)

text \<open>Different nodes own different registers, and no reading overlaps a device code.\<close>

lemma node_addrs_disjoint: "i < 256 \<Longrightarrow> j < 256 \<Longrightarrow> i \<noteq> j \<Longrightarrow> node_addrs i \<inter> node_addrs j = {}"
  by (auto simp: node_addrs_def layout_defs)

lemma id_addrs_disjoint: "i < 256 \<Longrightarrow> j < 256 \<Longrightarrow> node_addrs i \<inter> id_addrs j = {}"
  by (auto simp: node_addrs_def id_addrs_def layout_defs)

lemma config_words_disjoint: "i < 256 \<Longrightarrow> a \<le> CONFIG_FLAG_ADDRESS \<Longrightarrow> a \<notin> node_addrs i \<union> id_addrs i"
  by (auto simp: node_addrs_def id_addrs_def layout_defs)

end
