(* ===== verification/AppTimer.thy ===== *)
theory AppTimer
  imports Prelude
begin

text \<open>
  Task/Timer.c: the seconds counter \<open>NodeOvertimeTimerNumber\<close> that a periodic RT-Thread timer
  advances, and the elapsed-time test. The counter is a \<open>uint32_t\<close> and wraps.
\<close>

section \<open>Definitions\<close>

definition NodeOvertimeTiming :: "u32 \<Rightarrow> u32" where
  "NodeOvertimeTiming n = n + 1"

definition GetNodeOvertime :: "u32 \<Rightarrow> u32" where
  "GetNodeOvertime n = n"

definition CheckOvertime :: "u32 \<Rightarrow> u32 \<Rightarrow> u32 \<Rightarrow> u8" where
  "CheckOvertime timerNumber startTime overtime =
     (let nowTime = GetNodeOvertime timerNumber
      in if nowTime - startTime \<ge> overtime then 1 else 0)"

section \<open>Elapsed time\<close>

lemma CheckOvertime_cases: "CheckOvertime n s t = 0 \<or> CheckOvertime n s t = 1"
  by (simp add: CheckOvertime_def Let_def)

text \<open>
  The test measures the number of timer ticks since \<open>startTime\<close>, also across a wrap of the counter,
  as long as fewer than \<open>2 ^ 32\<close> ticks passed.
\<close>

lemma iterate_timing: "(NodeOvertimeTiming ^^ k) s = s + of_nat k"
  by (induction k) (simp_all add: NodeOvertimeTiming_def)

lemma CheckOvertime_ticks:
  assumes "k < 2 ^ 32"
  shows "CheckOvertime ((NodeOvertimeTiming ^^ k) s) s t \<noteq> 0 \<longleftrightarrow> unat t \<le> k"
  using assms
  by (simp add: CheckOvertime_def GetNodeOvertime_def iterate_timing word_le_nat_alt unat_of_nat)

end
