(* ===== verification/CC1101.thy ===== *)
theory CC1101
  imports Prelude
begin

text \<open>
  Task/drivers/CC1101.c and the SPI2 part of Task/drivers/DriverSPI.c: the driver of the CC1101 radio.

  The chip and the STM32 HAL are outside the program. What the driver reads from them is an input
  script of the state: the levels the \<open>MISO\<close> and \<open>GDO0\<close> pins will show at each sampling, and the
  bytes the SPI peripheral will hand over. What the driver does to them is the log \<open>bus_log\<close>. A
  statement about all scripts is a statement about every behaviour of the chip. A busy-wait loop
  consumes samples; a script that ends inside one is a loop that does not return, \<^term>\<open>None\<close>. So is a
  write outside the caller's buffer.
\<close>

section \<open>Definitions\<close>

subsection \<open>The bus\<close>

datatype gpio_port = GPIOB | GPIOD | GPIOI
datatype gpio_mode = GPIO_MODE_OUTPUT_PP | GPIO_MODE_INPUT
datatype gpio_pull = GPIO_PULLUP | GPIO_PULLDOWN

record spi_init =
  Mode_master :: bool
  Direction_2lines :: bool
  DataSize :: nat
  CLKPolarity_high :: bool
  CLKPhase_edge :: nat
  NSS_soft :: bool
  BaudRatePrescaler :: nat
  FirstBit_msb :: bool
  TIMode :: bool
  CRCCalculation :: bool
  CRCPolynomial :: nat

datatype bus_ev =
    CSn bool
  | Xfer u8 u8
  | Delay nat
  | ClkEnable gpio_port
  | PinInit gpio_port nat gpio_mode gpio_pull
  | PinSet gpio_port nat
  | SpiInit spi_init
  | SpiEnable

record radio =
  miso_in :: "bool list"
  gdo0_in :: "bool list"
  spi_in :: "u8 list"
  bus_log :: "bus_ev list"
  RSSI_RegisterValue :: u8
  LQI_RegisterValue :: u8

definition emit :: "bus_ev \<Rightarrow> radio \<Rightarrow> radio" where
  "emit e r = r\<lparr>bus_log := bus_log r @ [e]\<rparr>"

definition SPI2_ReadWriteByte :: "u8 \<Rightarrow> radio \<Rightarrow> (u8 \<times> radio) option" where
  "SPI2_ReadWriteByte TxData r =
     (case spi_in r of
        [] \<Rightarrow> None
      | Rxdata # rest \<Rightarrow> Some (Rxdata, emit (Xfer TxData Rxdata) (r\<lparr>spi_in := rest\<rparr>)))"

text \<open>\<open>while(pin);\<close>: sample until the pin is low.\<close>

primrec wait_low :: "bool list \<Rightarrow> bool list option" where
  "wait_low [] = None"
| "wait_low (b # bs) = (if b then wait_low bs else Some bs)"

primrec wait_high :: "bool list \<Rightarrow> bool list option" where
  "wait_high [] = None"
| "wait_high (b # bs) = (if b then Some bs else wait_high bs)"

definition wait_miso :: "radio \<Rightarrow> radio option" where
  "wait_miso r = do { m \<leftarrow> wait_low (miso_in r); Some (r\<lparr>miso_in := m\<rparr>) }"

definition SPI2_Init :: "radio \<Rightarrow> radio option" where
  "SPI2_Init r = do {
     let r = emit (SpiInit \<lparr>Mode_master = True, Direction_2lines = True, DataSize = 8,
       CLKPolarity_high = False, CLKPhase_edge = 1, NSS_soft = True, BaudRatePrescaler = 256,
       FirstBit_msb = True, TIMode = False, CRCCalculation = False, CRCPolynomial = 7\<rparr>) r;
     let r = emit SpiEnable r;
     (_, r) \<leftarrow> SPI2_ReadWriteByte 0xFF r;
     Some r
   }"

definition CC1101_IO_Init :: "radio \<Rightarrow> radio" where
  "CC1101_IO_Init r =
     fold emit
       [ClkEnable GPIOB, ClkEnable GPIOD, ClkEnable GPIOI,
        PinInit GPIOB 12 GPIO_MODE_OUTPUT_PP GPIO_PULLUP, PinSet GPIOB 12,
        PinInit GPIOD 3 GPIO_MODE_INPUT GPIO_PULLDOWN,
        PinInit GPIOI 4 GPIO_MODE_INPUT GPIO_PULLDOWN] r"

subsection \<open>Register access\<close>

definition WRITE_BURST :: u8 where "WRITE_BURST = 0x40"
definition READ_SINGLE :: u8 where "READ_SINGLE = 0x80"
definition READ_BURST :: u8 where "READ_BURST = 0xC0"
definition BYTES_IN_RXFIFO :: u8 where "BYTES_IN_RXFIFO = 0x7F"
definition CRC_OK :: u8 where "CRC_OK = 0x80"

definition CCxxx0_SRES :: u8 where "CCxxx0_SRES = 0x30"
definition CCxxx0_SRX :: u8 where "CCxxx0_SRX = 0x34"
definition CCxxx0_STX :: u8 where "CCxxx0_STX = 0x35"
definition CCxxx0_SFRX :: u8 where "CCxxx0_SFRX = 0x3A"
definition CCxxx0_SFTX :: u8 where "CCxxx0_SFTX = 0x3B"
definition CCxxx0_RXBYTES :: u8 where "CCxxx0_RXBYTES = 0x3B"
definition CCxxx0_PATABLE :: u8 where "CCxxx0_PATABLE = 0x3E"
definition CCxxx0_TXFIFO :: u8 where "CCxxx0_TXFIFO = 0x3F"
definition CCxxx0_RXFIFO :: u8 where "CCxxx0_RXFIFO = 0x3F"

lemmas cc_defs = WRITE_BURST_def READ_SINGLE_def READ_BURST_def BYTES_IN_RXFIFO_def CRC_OK_def
  CCxxx0_SRES_def CCxxx0_SRX_def CCxxx0_STX_def CCxxx0_SFRX_def CCxxx0_SFTX_def CCxxx0_RXBYTES_def
  CCxxx0_PATABLE_def CCxxx0_TXFIFO_def CCxxx0_RXFIFO_def

definition SPI_WriteReg :: "u8 \<Rightarrow> u8 \<Rightarrow> radio \<Rightarrow> radio option" where
  "SPI_WriteReg addr value r = do {
     let r = emit (CSn False) r;
     r \<leftarrow> wait_miso r;
     (_, r) \<leftarrow> SPI2_ReadWriteByte addr r;
     (_, r) \<leftarrow> SPI2_ReadWriteByte value r;
     Some (emit (CSn True) r)
   }"

definition SPI_WriteBrustReg :: "u8 \<Rightarrow> u8 list \<Rightarrow> u8 \<Rightarrow> radio \<Rightarrow> radio option" where
  "SPI_WriteBrustReg addr buffer count r = do {
     let temp = addr OR WRITE_BURST;
     let r = emit (CSn False) r;
     r \<leftarrow> wait_miso r;
     (_, r) \<leftarrow> SPI2_ReadWriteByte temp r;
     r \<leftarrow> foldM (\<lambda>i r. do { b \<leftarrow> rd buffer i; (_, r) \<leftarrow> SPI2_ReadWriteByte b r; Some r })
            [0..<unat count] r;
     Some (emit (CSn True) r)
   }"

definition SPI_Strobe :: "u8 \<Rightarrow> radio \<Rightarrow> radio option" where
  "SPI_Strobe strobe r = do {
     let r = emit (CSn False) r;
     r \<leftarrow> wait_miso r;
     (_, r) \<leftarrow> SPI2_ReadWriteByte strobe r;
     Some (emit (CSn True) r)
   }"

definition SPI_ReadReg :: "u8 \<Rightarrow> radio \<Rightarrow> (u8 \<times> radio) option" where
  "SPI_ReadReg addr r = do {
     let temp = addr OR READ_SINGLE;
     let r = emit (CSn False) r;
     r \<leftarrow> wait_miso r;
     (_, r) \<leftarrow> SPI2_ReadWriteByte temp r;
     (value, r) \<leftarrow> SPI2_ReadWriteByte 0 r;
     Some (value, emit (CSn True) r)
   }"

definition SPI_ReadBrustReg :: "u8 \<Rightarrow> u8 list \<Rightarrow> u8 \<Rightarrow> radio \<Rightarrow> (u8 list \<times> radio) option" where
  "SPI_ReadBrustReg addr buffer count r = do {
     let temp = addr OR READ_BURST;
     let r = emit (CSn False) r;
     r \<leftarrow> wait_miso r;
     (_, r) \<leftarrow> SPI2_ReadWriteByte temp r;
     (buffer, r) \<leftarrow> foldM (\<lambda>i (buffer, r). do {
         (v, r) \<leftarrow> SPI2_ReadWriteByte 0 r;
         buffer \<leftarrow> wr buffer i v;
         Some (buffer, r) }) [0..<unat count] (buffer, r);
     Some (buffer, emit (CSn True) r)
   }"

definition SPI_ReadStatus :: "u8 \<Rightarrow> radio \<Rightarrow> (u8 \<times> radio) option" where
  "SPI_ReadStatus addr r = do {
     let temp = addr OR READ_BURST;
     let r = emit (CSn False) r;
     r \<leftarrow> wait_miso r;
     (_, r) \<leftarrow> SPI2_ReadWriteByte temp r;
     (value, r) \<leftarrow> SPI2_ReadWriteByte 0 r;
     Some (value, emit (CSn True) r)
   }"

definition Read_RSSI_LQI_Register :: "radio \<Rightarrow> u8 \<times> u8" where
  "Read_RSSI_LQI_Register r = (RSSI_RegisterValue r, LQI_RegisterValue r)"

subsection \<open>Chip control\<close>

definition CC1101_Reset :: "radio \<Rightarrow> radio option" where
  "CC1101_Reset r = do {
     let r = emit (CSn False) r;
     r \<leftarrow> wait_miso r;
     (_, r) \<leftarrow> SPI2_ReadWriteByte CCxxx0_SRES r;
     r \<leftarrow> wait_miso r;
     Some (emit (CSn True) r)
   }"

definition CC1101_PowerUp :: "radio \<Rightarrow> radio option" where
  "CC1101_PowerUp r = do {
     r \<leftarrow> SPI2_Init r;
     let r = CC1101_IO_Init r;
     let r = fold emit [CSn True, Delay 4, CSn False, Delay 4, CSn True, Delay 100] r;
     CC1101_Reset r
   }"

record RF_SETTINGS =
  FSCTRL2 :: u8
  FSCTRL1 :: u8
  FSCTRL0 :: u8
  FREQ2 :: u8
  FREQ1 :: u8
  FREQ0 :: u8
  MDMCFG4 :: u8
  MDMCFG3 :: u8
  MDMCFG2 :: u8
  MDMCFG1 :: u8
  MDMCFG0 :: u8
  CHANNR :: u8
  DEVIATN :: u8
  FREND1 :: u8
  FREND0 :: u8
  MCSM0 :: u8
  FOCCFG :: u8
  BSCFG :: u8
  AGCCTRL2 :: u8
  AGCCTRL1 :: u8
  AGCCTRL0 :: u8
  FSCAL3 :: u8
  FSCAL2 :: u8
  FSCAL1 :: u8
  FSCAL0 :: u8
  FSTEST :: u8
  TEST2 :: u8
  TEST1 :: u8
  TEST0 :: u8
  IOCFG2 :: u8
  IOCFG0 :: u8
  PKTCTRL1 :: u8
  PKTCTRL0 :: u8
  ADDR :: u8
  PKTLEN :: u8

definition rfSettings :: RF_SETTINGS where
  "rfSettings =
     \<lparr>FSCTRL2 = 0x00, FSCTRL1 = 0x08, FSCTRL0 = 0x00, FREQ2 = 0x10, FREQ1 = 0xA7, FREQ0 = 0x62,
      MDMCFG4 = 0x5B, MDMCFG3 = 0xF8, MDMCFG2 = 0x03, MDMCFG1 = 0x22, MDMCFG0 = 0xF8,
      CHANNR = 0x01, DEVIATN = 0x47, FREND1 = 0xB6, FREND0 = 0x10, MCSM0 = 0x18, FOCCFG = 0x1D,
      BSCFG = 0x1C, AGCCTRL2 = 0xC7, AGCCTRL1 = 0x00, AGCCTRL0 = 0xB2, FSCAL3 = 0xEA, FSCAL2 = 0x2A,
      FSCAL1 = 0x00, FSCAL0 = 0x11, FSTEST = 0x59, TEST2 = 0x81, TEST1 = 0x35, TEST0 = 0x09,
      IOCFG2 = 0x0B, IOCFG0 = 0x06, PKTCTRL1 = 0x04, PKTCTRL0 = 0x05, ADDR = 0x00, PKTLEN = 0x50\<rparr>"

text \<open>The register writes of \<open>CC1101_SettingsReg\<close> in the order of its calls.\<close>

definition settings_writes :: "(u8 \<times> u8) list" where
  "settings_writes =
     [(0x0C, FSCTRL2 rfSettings), (0x0B, FSCTRL1 rfSettings), (0x0C, FSCTRL0 rfSettings),
      (0x0D, FREQ2 rfSettings), (0x0E, FREQ1 rfSettings), (0x0F, FREQ0 rfSettings),
      (0x10, MDMCFG4 rfSettings), (0x11, MDMCFG3 rfSettings), (0x12, MDMCFG2 rfSettings),
      (0x13, MDMCFG1 rfSettings), (0x14, MDMCFG0 rfSettings), (0x0A, CHANNR rfSettings),
      (0x15, DEVIATN rfSettings), (0x21, FREND1 rfSettings), (0x22, FREND0 rfSettings),
      (0x18, MCSM0 rfSettings), (0x19, FOCCFG rfSettings), (0x1A, BSCFG rfSettings),
      (0x1B, AGCCTRL2 rfSettings), (0x1C, AGCCTRL1 rfSettings), (0x1D, AGCCTRL0 rfSettings),
      (0x23, FSCAL3 rfSettings), (0x24, FSCAL2 rfSettings), (0x25, FSCAL1 rfSettings),
      (0x26, FSCAL0 rfSettings), (0x29, FSTEST rfSettings), (0x2C, TEST2 rfSettings),
      (0x2D, TEST1 rfSettings), (0x2E, TEST0 rfSettings), (0x00, IOCFG2 rfSettings),
      (0x02, IOCFG0 rfSettings), (0x07, PKTCTRL1 rfSettings), (0x08, PKTCTRL0 rfSettings),
      (0x09, ADDR rfSettings), (0x06, PKTLEN rfSettings)]"

definition CC1101_SettingsReg :: "radio \<Rightarrow> radio option" where
  "CC1101_SettingsReg r = do {
     let paTabel = [0x60, 0x60, 0x60, 0x60, 0x60, 0x60, 0x60, 0x60];
     r \<leftarrow> foldM (\<lambda>(a, v). SPI_WriteReg a v) settings_writes r;
     SPI_WriteBrustReg CCxxx0_PATABLE paTabel 8 r
   }"

definition CC1101_SetRxMode :: "radio \<Rightarrow> radio option" where
  "CC1101_SetRxMode r = SPI_Strobe CCxxx0_SRX r"

definition CC1101_SendPacket :: "u8 list \<Rightarrow> u8 \<Rightarrow> radio \<Rightarrow> radio option" where
  "CC1101_SendPacket txBuffer sz r = do {
     r \<leftarrow> SPI_WriteReg CCxxx0_TXFIFO sz r;
     r \<leftarrow> SPI_WriteBrustReg CCxxx0_TXFIFO txBuffer sz r;
     r \<leftarrow> SPI_Strobe CCxxx0_STX r;
     g \<leftarrow> wait_high (gdo0_in r);
     g \<leftarrow> wait_low g;
     SPI_Strobe CCxxx0_SFTX (r\<lparr>gdo0_in := g\<rparr>)
   }"

text \<open>
  The wait at the start of \<open>CC1101_ReceivePacket\<close>: the first component of the result tells whether
  \<open>GDO0\<close> went low before the countdown \<open>i\<close> ran out.
\<close>

fun gdo0_wait :: "u8 \<Rightarrow> bool list \<Rightarrow> radio \<Rightarrow> (bool \<times> radio) option" where
  "gdo0_wait i [] r = None"
| "gdo0_wait i (g # gs) r =
     (if \<not> g then Some (True, r\<lparr>gdo0_in := gs\<rparr>)
      else let r = emit (Delay 4) r; i = i - 1
           in if i < 1 then Some (False, r\<lparr>gdo0_in := gs\<rparr>) else gdo0_wait i gs r)"

text \<open>Result: the return value, \<open>rxBuffer\<close>, \<open>*length\<close> and the state after the call.\<close>

definition CC1101_ReceivePacket ::
  "u8 list \<Rightarrow> u8 \<Rightarrow> radio \<Rightarrow> (u8 \<times> u8 list \<times> u8 \<times> radio) option" where
  "CC1101_ReceivePacket rxBuffer len r = do {
     let i = len * 4;
     r \<leftarrow> SPI_Strobe CCxxx0_SRX r;
     let r = emit (Delay 4) r;
     (low, r) \<leftarrow> gdo0_wait i (gdo0_in r) r;
     if \<not> low then Some (0, rxBuffer, len, r)
     else do {
       (st, r) \<leftarrow> SPI_ReadStatus CCxxx0_RXBYTES r;
       if st AND BYTES_IN_RXFIFO \<noteq> 0 then do {
         (packetLength, r) \<leftarrow> SPI_ReadReg CCxxx0_RXFIFO r;
         if packetLength \<le> len then do {
           (rxBuffer, r) \<leftarrow> SPI_ReadBrustReg CCxxx0_RXFIFO rxBuffer packetLength r;
           (status, r) \<leftarrow> SPI_ReadBrustReg CCxxx0_RXFIFO [0, 0] 2 r;
           s0 \<leftarrow> rd status 0;
           s1 \<leftarrow> rd status 1;
           r \<leftarrow> SPI_Strobe CCxxx0_SFRX (r\<lparr>RSSI_RegisterValue := s0, LQI_RegisterValue := s1\<rparr>);
           Some (s1 AND CRC_OK, rxBuffer, packetLength, r)
         } else do {
           r \<leftarrow> SPI_Strobe CCxxx0_SFRX r;
           Some (0, rxBuffer, packetLength, r)
         }
       } else Some (0, rxBuffer, len, r)
     }
   }"

text \<open>
  What the chip answers in the transactions of one call that finds a packet: a status byte with a
  non-zero byte count, the length byte, the payload, the two appended status bytes.
\<close>

definition packet_script :: "u8 \<Rightarrow> u8 list \<Rightarrow> u8 \<Rightarrow> u8 \<Rightarrow> u8 \<Rightarrow> u8 list" where
  "packet_script st data rssi lqi echo =
     [echo, echo, st, echo, of_nat (length data)] @ [echo] @ data @ [echo, rssi, lqi, echo]"

text \<open>The bytes clocked out in a log.\<close>

definition sent :: "bus_ev list \<Rightarrow> u8 list" where
  "sent l = concat (map (\<lambda>e. case e of Xfer x y \<Rightarrow> [x] | _ \<Rightarrow> []) l)"

section \<open>Transactions\<close>

lemma emit_simps [simp]:
  "miso_in (emit e r) = miso_in r" "gdo0_in (emit e r) = gdo0_in r" "spi_in (emit e r) = spi_in r"
  "bus_log (emit e r) = bus_log r @ [e]"
  "RSSI_RegisterValue (emit e r) = RSSI_RegisterValue r"
  "LQI_RegisterValue (emit e r) = LQI_RegisterValue r"
  by (simp_all add: emit_def)

lemma wait_miso_ready: "miso_in r = False # ms \<Longrightarrow> wait_miso r = Some (r\<lparr>miso_in := ms\<rparr>)"
  by (simp add: wait_miso_def)

lemma xfer_step:
  "spi_in r = b # bs \<Longrightarrow> SPI2_ReadWriteByte x r = Some (b, emit (Xfer x b) (r\<lparr>spi_in := bs\<rparr>))"
  by (simp add: SPI2_ReadWriteByte_def)

lemmas transaction = wait_miso_ready xfer_step emit_def

lemma SPI_Strobe_run:
  assumes "miso_in r = False # ms" "spi_in r = b # bs"
  shows "SPI_Strobe x r = Some (r\<lparr>miso_in := ms, spi_in := bs,
           bus_log := bus_log r @ [CSn False, Xfer x b, CSn True]\<rparr>)"
  using assms by (simp add: SPI_Strobe_def transaction)

lemma SPI_WriteReg_run:
  assumes "miso_in r = False # ms" "spi_in r = b # c # bs"
  shows "SPI_WriteReg x v r = Some (r\<lparr>miso_in := ms, spi_in := bs,
           bus_log := bus_log r @ [CSn False, Xfer x b, Xfer v c, CSn True]\<rparr>)"
  using assms by (simp add: SPI_WriteReg_def transaction)

lemma SPI_ReadReg_run:
  assumes "miso_in r = False # ms" "spi_in r = b # v # bs"
  shows "SPI_ReadReg x r = Some (v, r\<lparr>miso_in := ms, spi_in := bs,
           bus_log := bus_log r @ [CSn False, Xfer (x OR READ_SINGLE) b, Xfer 0 v, CSn True]\<rparr>)"
  using assms by (simp add: SPI_ReadReg_def transaction)

lemma SPI_ReadStatus_run:
  assumes "miso_in r = False # ms" "spi_in r = b # v # bs"
  shows "SPI_ReadStatus x r = Some (v, r\<lparr>miso_in := ms, spi_in := bs,
           bus_log := bus_log r @ [CSn False, Xfer (x OR READ_BURST) b, Xfer 0 v, CSn True]\<rparr>)"
  using assms by (simp add: SPI_ReadStatus_def transaction)

lemma read_burst_loop:
  assumes "length data = n" "k + n \<le> length buf" "spi_in r = data @ rest"
  shows "foldM (\<lambda>i (buffer, r). do { (v, r) \<leftarrow> SPI2_ReadWriteByte 0 r; buffer \<leftarrow> wr buffer i v;
             Some (buffer, r) }) [k..<k + n] (buf, r)
       = Some (take k buf @ data @ drop (k + n) buf,
           r\<lparr>spi_in := rest, bus_log := bus_log r @ map (Xfer 0) data\<rparr>)"
  using assms
proof (induction data arbitrary: n k buf r)
  case Nil
  then show ?case by simp
next
  case (Cons v data)
  then obtain m where n: "n = Suc m" "length data = m" by auto
  let ?r = "r\<lparr>spi_in := data @ rest, bus_log := bus_log r @ [Xfer 0 v]\<rparr>"
  let ?buf = "buf[k := v]"
  have k: "k < length buf" using Cons.prems n by simp
  have IH: "foldM (\<lambda>i (buffer, r). do { (v, r) \<leftarrow> SPI2_ReadWriteByte 0 r; buffer \<leftarrow> wr buffer i v;
             Some (buffer, r) }) [Suc k..<Suc k + m] (?buf, ?r)
       = Some (take (Suc k) ?buf @ data @ drop (Suc k + m) ?buf,
           ?r\<lparr>spi_in := rest, bus_log := bus_log ?r @ map (Xfer 0) data\<rparr>)"
    by (rule Cons.IH) (use Cons.prems n in auto)
  have "take (Suc k) ?buf = take k buf @ [v]"
    using k by (simp add: take_Suc_conv_app_nth)
  moreover have "[k..<k + n] = k # [Suc k..<Suc k + m]" using n by (simp add: upt_conv_Cons)
  ultimately show ?case using IH Cons.prems n k by (simp add: transaction)
qed

lemma SPI_ReadBrustReg_run:
  assumes "miso_in r = False # ms" "spi_in r = b # data @ rest"
    and "length data = unat count" "unat count \<le> length buf"
  shows "SPI_ReadBrustReg x buf count r = Some (data @ drop (unat count) buf,
           r\<lparr>miso_in := ms, spi_in := rest, bus_log := bus_log r
             @ CSn False # Xfer (x OR READ_BURST) b # map (Xfer 0) data @ [CSn True]\<rparr>)"
  using assms read_burst_loop [of data "unat count" 0 buf
      "r\<lparr>miso_in := ms, spi_in := data @ rest,
         bus_log := bus_log r @ [CSn False, Xfer (x OR READ_BURST) b]\<rparr>" rest]
  by (simp add: SPI_ReadBrustReg_def transaction)

text \<open>
  A burst read longer than the buffer does not return: the loop writes past its end, whatever
  the chip answers.
\<close>

lemma read_burst_overflow:
  assumes "length buf < n" "length buf \<ge> k"
  shows "foldM (\<lambda>i (buffer, r). do { (v, r) \<leftarrow> SPI2_ReadWriteByte 0 r; buffer \<leftarrow> wr buffer i v;
             Some (buffer, r) }) [k..<n] (buf, r) = None"
  using assms
proof (induction "n - k" arbitrary: k buf r)
  case 0
  then show ?case by simp
next
  case (Suc m)
  then have kn: "[k..<n] = k # [Suc k..<n]" by (simp add: upt_conv_Cons)
  show ?case
  proof (cases "k < length buf")
    case True
    then show ?thesis
      using Suc by (auto simp: kn SPI2_ReadWriteByte_def split: list.split)
  next
    case False
    then show ?thesis
      by (auto simp: kn SPI2_ReadWriteByte_def wr_def split: list.split)
  qed
qed

lemma SPI_ReadBrustReg_overflow:
  "length buf < unat count \<Longrightarrow> SPI_ReadBrustReg x buf count r = None"
  using read_burst_overflow [of buf "unat count" 0]
  by (auto simp: SPI_ReadBrustReg_def Let_def intro!: bind_eq_None_conv [THEN iffD2]
      split: bind_split)

section \<open>Receiving a packet\<close>

lemma ReceivePacket_accept:
  assumes "miso_in r = replicate 6 False @ ms" "gdo0_in r = False # gs"
    and "spi_in r = packet_script st data rssi lqi echo @ rest"
    and "st AND BYTES_IN_RXFIFO \<noteq> 0" "length data \<le> unat len" "length data \<le> length rxBuffer"
  shows "\<exists>r'. CC1101_ReceivePacket rxBuffer len r
       = Some (lqi AND CRC_OK, data @ drop (length data) rxBuffer, of_nat (length data), r')
     \<and> RSSI_RegisterValue r' = rssi \<and> LQI_RegisterValue r' = lqi
     \<and> miso_in r' = ms \<and> gdo0_in r' = gs \<and> spi_in r' = rest"
proof -
  have small: "length data < 256"
    using assms(5) unat_u8_less [of len] by simp
  then have un: "unat (of_nat (length data) :: u8) = length data" by (simp add: unat_of_nat)
  then have le: "of_nat (length data) \<le> len" using assms(5) by (simp add: word_le_nat_alt)
  have miso: "miso_in r = False # False # False # False # False # False # ms"
    using assms(1) by (simp add: numeral_eq_Suc)
  show ?thesis
    using assms(2-4,6) miso un le
    by (simp add: CC1101_ReceivePacket_def packet_script_def SPI_Strobe_run SPI_ReadStatus_run
        SPI_ReadReg_run SPI_ReadBrustReg_run [where data = data]
        SPI_ReadBrustReg_run [where data = "[rssi, lqi]" and count = 2])
qed

lemma ReceivePacket_reject:
  assumes "miso_in r = replicate 4 False @ ms" "gdo0_in r = False # gs"
    and "spi_in r = [echo, echo, st, echo, pl, echo] @ rest"
    and "st AND BYTES_IN_RXFIFO \<noteq> 0" "\<not> pl \<le> len"
  shows "\<exists>r'. CC1101_ReceivePacket rxBuffer len r = Some (0, rxBuffer, pl, r')
     \<and> miso_in r' = ms \<and> gdo0_in r' = gs \<and> spi_in r' = rest"
proof -
  have miso: "miso_in r = False # False # False # False # ms"
    using assms(1) by (simp add: numeral_eq_Suc)
  show ?thesis
    using assms(2-5) miso
    by (simp add: CC1101_ReceivePacket_def SPI_Strobe_run SPI_ReadStatus_run SPI_ReadReg_run)
qed

section \<open>Buffers\<close>

lemma read_burst_length:
  "foldM (\<lambda>i (buffer, r). do { (v, r) \<leftarrow> SPI2_ReadWriteByte 0 r; buffer \<leftarrow> wr buffer i v;
      Some (buffer, r) }) is (buf, r) = Some (buf', r') \<Longrightarrow> length buf' = length buf"
  by (induction "is" arbitrary: buf r) (auto simp: bind_eq_Some_conv split: prod.splits dest!: wr_length)

lemma SPI_ReadBrustReg_buffer:
  assumes "SPI_ReadBrustReg x buf count r = Some (buf', r')"
  shows "length buf' = length buf" "unat count \<le> length buf"
proof -
  show "unat count \<le> length buf"
    using SPI_ReadBrustReg_overflow [of buf count x r] assms by (metis not_le option.distinct(1))
  show "length buf' = length buf"
    using assms by (auto simp: SPI_ReadBrustReg_def Let_def bind_eq_Some_conv split: prod.splits
        dest: read_burst_length)
qed

text \<open>
  A packet the driver hands over with a non-zero result fits both the announced and the real length
  of the caller's buffer.
\<close>

lemma ReceivePacket_buffer:
  assumes "CC1101_ReceivePacket buf len r = Some (got, buf', len', r')"
  shows "length buf' = length buf" "got \<noteq> 0 \<Longrightarrow> len' \<le> len \<and> unat len' \<le> length buf"
  using assms
  by (auto simp: CC1101_ReceivePacket_def Let_def bind_eq_Some_conv split: prod.splits if_splits
      dest: SPI_ReadBrustReg_buffer)

section \<open>Configuring the chip\<close>

text \<open>The bytes a state has clocked out over the bus.\<close>

lemma sent_simps [simp]:
  "sent [] = []" "sent (l @ [CSn b]) = sent l" "sent (l @ [Xfer x y]) = sent l @ [x]"
  by (simp_all add: sent_def)

lemma SPI2_ReadWriteByte_sent:
  "SPI2_ReadWriteByte x r = Some (y, r') \<Longrightarrow> sent (bus_log r') = sent (bus_log r) @ [x]"
  by (auto simp: SPI2_ReadWriteByte_def split: list.splits)

lemma wait_miso_sent: "wait_miso r = Some r' \<Longrightarrow> bus_log r' = bus_log r"
  by (auto simp: wait_miso_def bind_eq_Some_conv)

lemma SPI_WriteReg_sent:
  "SPI_WriteReg a v r = Some r' \<Longrightarrow> sent (bus_log r') = sent (bus_log r) @ [a, v]"
  by (auto simp: SPI_WriteReg_def bind_eq_Some_conv dest!: SPI2_ReadWriteByte_sent wait_miso_sent)

lemma write_regs_sent:
  "foldM (\<lambda>(a, v). SPI_WriteReg a v) ws r = Some r' \<Longrightarrow>
   sent (bus_log r') = sent (bus_log r) @ concat (map (\<lambda>(a, v). [a, v]) ws)"
  by (induction ws arbitrary: r) (auto simp: bind_eq_Some_conv dest!: SPI_WriteReg_sent)

lemma write_burst_sent:
  "foldM (\<lambda>i r. do { b \<leftarrow> rd buffer i; (_, r) \<leftarrow> SPI2_ReadWriteByte b r; Some r }) is r = Some r' \<Longrightarrow>
   sent (bus_log r') = sent (bus_log r) @ map (\<lambda>i. buffer ! i) is"
  by (induction "is" arbitrary: r)
    (auto simp: bind_eq_Some_conv rd_eq_Some dest!: SPI2_ReadWriteByte_sent)

lemma SPI_WriteBrustReg_sent:
  assumes "SPI_WriteBrustReg a buffer count r = Some r'"
  shows "sent (bus_log r') = sent (bus_log r) @ (a OR WRITE_BURST) # map (\<lambda>i. buffer ! i) [0..<unat count]"
  using assms
  by (auto simp: SPI_WriteBrustReg_def bind_eq_Some_conv
      dest!: SPI2_ReadWriteByte_sent wait_miso_sent write_burst_sent)

lemma SettingsReg_sent:
  assumes "CC1101_SettingsReg r = Some r'"
  shows "sent (bus_log r') = sent (bus_log r)
     @ concat (map (\<lambda>(a, v). [a, v]) settings_writes)
     @ [0x7E, 0x60, 0x60, 0x60, 0x60, 0x60, 0x60, 0x60, 0x60]"
proof -
  obtain m where m: "foldM (\<lambda>(a, v). SPI_WriteReg a v) settings_writes r = Some m"
      "SPI_WriteBrustReg CCxxx0_PATABLE [0x60, 0x60, 0x60, 0x60, 0x60, 0x60, 0x60, 0x60] 8 m = Some r'"
    using assms by (auto simp: CC1101_SettingsReg_def bind_eq_Some_conv)
  have "map (\<lambda>i. [0x60, 0x60, 0x60, 0x60, 0x60, 0x60, 0x60, 0x60 :: u8] ! i) [0..<unat (8 :: u8)]
      = [0x60, 0x60, 0x60, 0x60, 0x60, 0x60, 0x60, 0x60]"
    by code_simp
  then show ?thesis
    using write_regs_sent [OF m(1)] SPI_WriteBrustReg_sent [OF m(2)] by (simp add: cc_defs)
qed

section \<open>A chip that answers\<close>

text \<open>A chip that is ready and answers every byte lets a reset and the settings pass.\<close>

lemma Reset_run:
  assumes "miso_in r = False # False # ms" "spi_in r = b # bs"
  shows "\<exists>r'. CC1101_Reset r = Some r' \<and> miso_in r' = ms \<and> spi_in r' = bs \<and> gdo0_in r' = gdo0_in r"
  using assms by (simp add: CC1101_Reset_def transaction)

lemma write_regs_run:
  assumes "miso_in r = replicate (length ws) False @ ms" "spi_in r = bs @ rest" "length bs = 2 * length ws"
  shows "\<exists>r'. foldM (\<lambda>(a, v). SPI_WriteReg a v) ws r = Some r' \<and> miso_in r' = ms \<and> spi_in r' = rest \<and> gdo0_in r' = gdo0_in r"
  using assms
proof (induction ws arbitrary: r bs)
  case (Cons w ws)
  obtain b c cs where bs: "bs = b # c # cs" "length cs = 2 * length ws" using Cons.prems(3) by (auto simp: length_Suc_conv)
  obtain a v where w: "w = (a, v)" by (cases w)
  let ?r = "r\<lparr>miso_in := replicate (length ws) False @ ms, spi_in := cs @ rest,
      bus_log := bus_log r @ [CSn False, Xfer a b, Xfer v c, CSn True]\<rparr>"
  have "SPI_WriteReg a v r = Some ?r" using Cons.prems bs by (intro SPI_WriteReg_run) simp_all
  then show ?case using Cons.IH [of ?r cs] bs(2) by (simp add: w)
qed simp

lemma write_burst_run:
  assumes "spi_in r = bs @ rest" "length bs = length is" "\<forall>i \<in> set is. i < length buffer"
  shows "\<exists>r'. foldM (\<lambda>i r. do { b \<leftarrow> rd buffer i; (_, r) \<leftarrow> SPI2_ReadWriteByte b r; Some r }) is r = Some r'
    \<and> spi_in r' = rest \<and> miso_in r' = miso_in r \<and> gdo0_in r' = gdo0_in r"
  using assms
proof (induction "is" arbitrary: r bs)
  case (Cons i "is")
  obtain b cs where bs: "bs = b # cs" "length cs = length is" using Cons.prems(2) by (auto simp: length_Suc_conv)
  let ?r = "emit (Xfer (buffer ! i) b) (r\<lparr>spi_in := cs @ rest\<rparr>)"
  have "SPI2_ReadWriteByte (buffer ! i) r = Some (b, ?r)" using Cons.prems bs by (intro xfer_step) simp
  then show ?case using Cons.IH [of ?r cs] Cons.prems(3) bs(2) by simp
qed simp

lemma SettingsReg_run:
  assumes "miso_in r = replicate 36 False @ ms" "spi_in r = bs @ rest" "length bs = 79"
  shows "\<exists>r'. CC1101_SettingsReg r = Some r' \<and> miso_in r' = ms \<and> spi_in r' = rest \<and> gdo0_in r' = gdo0_in r"
proof -
  have l: "length settings_writes = 35" by (simp add: settings_writes_def)
  have m: "miso_in r = replicate (length settings_writes) False @ False # ms"
    using assms(1) replicate_add [of 35 1 False] by (simp add: l)
  have s: "spi_in r = take 70 bs @ drop 70 bs @ rest" "length (take 70 bs) = 2 * length settings_writes"
    using assms(2,3) by (simp_all add: l)
  obtain r1 where r1: "foldM (\<lambda>(a, v). SPI_WriteReg a v) settings_writes r = Some r1" "miso_in r1 = False # ms"
    "spi_in r1 = drop 70 bs @ rest" "gdo0_in r1 = gdo0_in r"
    using write_regs_run [OF m s] by blast
  obtain b cs where bs: "drop 70 bs = b # cs" "length cs = 8"
    using assms(3) by (cases "drop 70 bs") (auto dest: arg_cong [where f = length])
  let ?r = "emit (Xfer (CCxxx0_PATABLE OR WRITE_BURST) b) ((emit (CSn False) r1)\<lparr>miso_in := ms, spi_in := cs @ rest\<rparr>)"
  let ?pa = "[0x60, 0x60, 0x60, 0x60, 0x60, 0x60, 0x60, 0x60 :: u8]"
  have "length cs = length [0..<unat (8 :: u8)]" "\<forall>i \<in> set [0..<unat (8 :: u8)]. i < length ?pa" using bs(2) by auto
  from write_burst_run [of ?r cs rest, OF _ this] obtain r2 where
    r2: "foldM (\<lambda>i r. do { b \<leftarrow> rd ?pa i; (_, r) \<leftarrow> SPI2_ReadWriteByte b r; Some r }) [0..<unat (8 :: u8)] ?r = Some r2"
      "spi_in r2 = rest" "miso_in r2 = ms" "gdo0_in r2 = gdo0_in r"
    using r1(4) by auto
  have "SPI_WriteBrustReg CCxxx0_PATABLE ?pa 8 r1 = Some (emit (CSn True) r2)"
    using r1(2,3) r2(1) bs(1) by (simp add: SPI_WriteBrustReg_def transaction)
  then show ?thesis using r1(1) r2 by (simp add: CC1101_SettingsReg_def)
qed

section \<open>An announced length the buffer does not have\<close>

lemma ReceivePacket_overrun:
  assumes "miso_in r = replicate 6 False @ ms" "gdo0_in r = False # gs"
    and "spi_in r = packet_script st data rssi lqi echo @ rest"
    and "st AND BYTES_IN_RXFIFO \<noteq> 0" "length data \<le> unat len" "length rxBuffer < length data"
  shows "CC1101_ReceivePacket rxBuffer len r = None"
proof -
  have "length data < 256" using assms(5) unat_u8_less [of len] by simp
  then have un: "unat (of_nat (length data) :: u8) = length data" by (simp add: unat_of_nat)
  then have le: "of_nat (length data) \<le> len" using assms(5) by (simp add: word_le_nat_alt)
  have miso: "miso_in r = False # False # False # False # False # False # ms"
    using assms(1) by (simp add: numeral_eq_Suc)
  show ?thesis
    using assms(2-4,6) miso un le
    by (simp add: CC1101_ReceivePacket_def packet_script_def SPI_Strobe_run SPI_ReadStatus_run
        SPI_ReadReg_run SPI_ReadBrustReg_overflow)
qed

text \<open>
  C18: the length the radio task passes is not the size of its buffer. It starts at 0 and a rejected
  packet replaces it by the length of that packet. So after one packet of more than 12 bytes, the
  next packet of that length is written past the end of the 12-byte buffer, where a buffer of the
  announced length would have taken it.
\<close>

theorem second_long_packet_overruns:
  assumes "miso_in r = replicate 10 False @ ms" "gdo0_in r = False # False # gs"
    and "spi_in r = [echo, echo, st, echo, of_nat (length data), echo] @ packet_script st data rssi lqi echo @ rest"
    and "st AND BYTES_IN_RXFIFO \<noteq> 0" "12 < length data" "length data < 256"
  shows "\<exists>r1. CC1101_ReceivePacket (replicate 12 0) 0 r = Some (0, replicate 12 0, of_nat (length data), r1)
     \<and> CC1101_ReceivePacket (replicate 12 0) (of_nat (length data)) r1 = None
     \<and> (\<exists>x. CC1101_ReceivePacket (replicate (length data) 0) (of_nat (length data)) r1 = Some x)"
proof -
  have un: "unat (of_nat (length data) :: u8) = length data" using assms(6) by (simp add: unat_of_nat)
  have pos: "\<not> of_nat (length data) \<le> (0 :: u8)" using un assms(5) by (auto simp: word_le_nat_alt)
  have "miso_in r = replicate 4 False @ replicate 6 False @ ms"
    using assms(1) by (simp flip: append_assoc replicate_add)
  from ReceivePacket_reject [OF this assms(2,3,4) pos, of "replicate 12 0"]
  obtain r1 where r1: "CC1101_ReceivePacket (replicate 12 0) 0 r = Some (0, replicate 12 0, of_nat (length data), r1)"
    "miso_in r1 = replicate 6 False @ ms" "gdo0_in r1 = False # gs"
    "spi_in r1 = packet_script st data rssi lqi echo @ rest" by blast
  with ReceivePacket_overrun [OF r1(2-4) assms(4), of "of_nat (length data)" "replicate 12 0"]
    ReceivePacket_accept [OF r1(2-4) assms(4), of "of_nat (length data)" "replicate (length data) 0"]
  show ?thesis using un assms(5) by (intro exI [of _ r1]) auto
qed

theorem second_long_packet_overruns_witness:
  "\<exists>r r1. CC1101_ReceivePacket (replicate 12 0) 0 r = Some (0, replicate 12 0, of_nat (length (replicate 20 (1 :: u8))), r1)
     \<and> CC1101_ReceivePacket (replicate 12 0) (of_nat (length (replicate 20 (1 :: u8)))) r1 = None
     \<and> (\<exists>x. CC1101_ReceivePacket (replicate (length (replicate 20 (1 :: u8))) 0)
           (of_nat (length (replicate 20 (1 :: u8)))) r1 = Some x)"
  using second_long_packet_overruns [of "\<lparr>miso_in = replicate 10 False @ [], gdo0_in = [False, False],
      spi_in = [0, 0, 22, 0, of_nat (length (replicate 20 (1 :: u8))), 0]
        @ packet_script 22 (replicate 20 1) 40 128 0 @ [], bus_log = [],
      RSSI_RegisterValue = 0, LQI_RegisterValue = 0\<rparr>" "[]" "[]" 0 22 "replicate 20 1" 40 128 "[]"]
  by (simp add: BYTES_IN_RXFIFO_def) blast

end
