(* ===== verification/DataFrame.thy ===== *)
theory DataFrame
  imports Sensor RegMap AppTimer CC1101 "HOL-Library.Signed_Division"
begin

text \<open>
  Task/DataFrame.c: a received radio frame (12 bytes: head \<open>0x5A\<close>, type, 4 bytes device code, 2 bytes
  raw temperature, 2 bytes raw voltage, 2 bytes additive checksum) is decoded into a \<open>NodeData\<close> and
  its values are stored in the holding registers of the node that owns the device code.
\<close>

section \<open>Definitions\<close>

text \<open>The functions a \<open>NodeData\<close> carries pointers to.\<close>

datatype node_fn = FN_GetDeviceNumber | FN_SaveTemperature | FN_SaveVoltage | FN_SaveSignalStrength
  | FN_SaveLaunchNumber | FN_SaveReceiveTime

record NodeData =
  isDataValid :: bool
  deviceId :: u32
  temperatureValue :: cfp
  voltageValue :: cfp
  deviceNumber :: u8
  RSSI_Value :: u8
  LQI_Value :: u8
  getDeviceNumber :: "node_fn option"
  saveTemperature :: "node_fn option"
  saveVoltage :: "node_fn option"
  saveSignalStrength :: "node_fn option"
  saveLaunchNumber :: "node_fn option"
  saveReceiveTime :: "node_fn option"

definition NodeDataStructInit :: "NodeData \<Rightarrow> NodeData" where
  "NodeDataStructInit nodeData = nodeData\<lparr>
     isDataValid := False,
     getDeviceNumber := Some FN_GetDeviceNumber,
     saveTemperature := Some FN_SaveTemperature,
     saveVoltage := Some FN_SaveVoltage,
     saveSignalStrength := Some FN_SaveSignalStrength,
     saveLaunchNumber := Some FN_SaveLaunchNumber,
     saveReceiveTime := Some FN_SaveReceiveTime\<rparr>"

subsection \<open>Decoding\<close>

definition CheckSum :: "u8 list \<Rightarrow> u8 \<Rightarrow> u8 option" where
  "CheckSum data lenth = do {
     result \<leftarrow> foldM (\<lambda>i result. do { d \<leftarrow> rd data i; Some (result + ucast d :: u16) })
                 [0..<unat lenth - 2] 0;
     c_assert (2 \<le> unat lenth);
     a \<leftarrow> rd data (unat lenth - 2);
     b \<leftarrow> rd data (unat lenth - 1);
     Some (if ucast a = drop_bit 8 (result AND 0xFF00) \<and> ucast b = result AND 0x00FF then 0 else 1)
   }"

definition CalculateDeviceId :: "u8 list \<Rightarrow> u32 option" where
  "CalculateDeviceId data = do {
     d0 \<leftarrow> rd data 0;
     d1 \<leftarrow> rd data 1;
     d2 \<leftarrow> rd data 2;
     d3 \<leftarrow> rd data 3;
     Some (push_bit 24 (ucast d0) + push_bit 16 (ucast d1) + push_bit 8 (ucast d2) + ucast d3)
   }"

text \<open>\<open>(data[0] << 8) + data[1]\<close>, kept in a \<open>uint16_t\<close>.\<close>

definition raw16 :: "u8 list \<Rightarrow> u16 option" where
  "raw16 data = do { d0 \<leftarrow> rd data 0; d1 \<leftarrow> rd data 1; Some (push_bit 8 (ucast d0) + ucast d1) }"

definition CalculateVolatge :: "u8 list \<Rightarrow> cfp option" where
  "CalculateVolatge data = do { voltageInt \<leftarrow> raw16 data; Some (voltage_of (uint voltageInt)) }"

definition CalculateTemperature :: "u8 list \<Rightarrow> cfp option" where
  "CalculateTemperature data = do { temperatureInt \<leftarrow> raw16 data; Some (temperature_of (uint temperatureInt)) }"

text \<open>Conversion to \<open>int8_t\<close>.\<close>

definition to_s8 :: "int \<Rightarrow> int" where
  "to_s8 x = sint (word_of_int x :: u8)"

definition CalculateSignalStrength :: "radio \<Rightarrow> NodeData \<Rightarrow> NodeData" where
  "CalculateSignalStrength r nodeData =
     (let (v0, v1) = Read_RSSI_LQI_Register r;
          RSSI_offset = 75;
          rssi = (if v0 \<ge> 128 then to_s8 (to_s8 (uint v0 - 256) sdiv 2) - RSSI_offset
                  else (uint v0 sdiv 2) - RSSI_offset)
      in nodeData\<lparr>RSSI_Value := word_of_int rssi, LQI_Value := v1 AND 0x7F\<rparr>)"

text \<open>Result: the return value and the filled structure.\<close>

definition DataFrameAnalysis :: "radio \<Rightarrow> u8 list \<Rightarrow> NodeData \<Rightarrow> (u8 \<times> NodeData) option" where
  "DataFrameAnalysis r sourceData nodeData = do {
     h \<leftarrow> rd sourceData 0;
     if h = 0x5A then do {
       c \<leftarrow> CheckSum sourceData 12;
       if c = 0 then do {
         let nodeData = CalculateSignalStrength r nodeData;
         ident \<leftarrow> CalculateDeviceId (drop 2 sourceData);
         t \<leftarrow> CalculateTemperature (drop 6 sourceData);
         v \<leftarrow> CalculateVolatge (drop 8 sourceData);
         Some (0, nodeData\<lparr>deviceId := ident, temperatureValue := t, voltageValue := v,
                           isDataValid := True\<rparr>)
       } else Some (1, nodeData)
     } else Some (2, nodeData)
   }"

subsection \<open>Finding the node and storing its values\<close>

text \<open>The loop of \<open>GetDeviceNumber\<close> from index \<open>i\<close> on.\<close>

function find_device :: "regs \<Rightarrow> u32 \<Rightarrow> nat \<Rightarrow> nat option option" where
  "find_device rs ident i =
     (if i \<le> 255 then do {
        v \<leftarrow> rd32 rs (NODE_DEVICE_ID_FIRST_ADDRESS + 2 * i);
        if ident = v then Some (Some i) else find_device rs ident (Suc i)
      } else Some None)"
  by pat_completeness auto
termination
  by (relation "measure (\<lambda>(rs, ident, i). 256 - i)") auto

declare find_device.simps [simp del]

definition GetDeviceNumber :: "regs \<Rightarrow> NodeData \<Rightarrow> (u8 \<times> NodeData) option" where
  "GetDeviceNumber rs nodeData = do {
     f \<leftarrow> find_device rs (deviceId nodeData) 0;
     case f of
       Some i \<Rightarrow> Some (0, nodeData\<lparr>deviceNumber := of_nat i\<rparr>)
     | None \<Rightarrow> Some (1, nodeData)
   }"

definition temperature_format :: "cfp \<Rightarrow> u16 option" where
  "temperature_format temperature =
     (if f_pos temperature then f_to_u16 (f_mul 24 temperature (f_of_int 10))
      else do {
        temp \<leftarrow> f_to_s16 (f_neg temperature);
        Some (2000 + word_of_int (sint temp * 10))
      })"

definition SaveTemperature :: "NodeData \<Rightarrow> regs \<Rightarrow> regs option" where
  "SaveTemperature nodeData rs =
     (if isDataValid nodeData then do {
        temperatureFormat \<leftarrow> temperature_format (temperatureValue nodeData);
        wr rs (TEMPERATURE_FIRST_ADDRESS + unat (deviceNumber nodeData)) temperatureFormat
      } else Some rs)"

definition SaveVoltage :: "NodeData \<Rightarrow> regs \<Rightarrow> regs option" where
  "SaveVoltage nodeData rs =
     (if isDataValid nodeData then do {
        voltage \<leftarrow> f_to_s16 (voltageValue nodeData);
        wr rs (VOLTAGE_FIRST_ADDRESS + unat (deviceNumber nodeData)) voltage
      } else Some rs)"

definition SaveSignalStrength :: "NodeData \<Rightarrow> regs \<Rightarrow> regs option" where
  "SaveSignalStrength nodeData rs =
     (if isDataValid nodeData then
        wr rs (NODE_STATUS_FIRST_ADDRESS + 2 + 3 * unat (deviceNumber nodeData))
          (ucast (push_bit 8 (scast (RSSI_Value nodeData) :: u32) + ucast (LQI_Value nodeData)))
      else Some rs)"

definition SaveLaunchNumber :: "NodeData \<Rightarrow> regs \<Rightarrow> regs option" where
  "SaveLaunchNumber nodeData rs =
     (if isDataValid nodeData then do {
        launchNumber \<leftarrow> rd32 rs (LAUNCH_NUMBER_FIRAT_ADDRESS + 2 * unat (deviceNumber nodeData));
        let launchNumber = launchNumber + 1;
        wr32 rs (LAUNCH_NUMBER_FIRAT_ADDRESS + 2 * unat (deviceNumber nodeData)) launchNumber
      } else Some rs)"

definition SaveReceiveTime :: "u32 \<Rightarrow> NodeData \<Rightarrow> regs \<Rightarrow> regs option" where
  "SaveReceiveTime timerNumber nodeData rs =
     (if isDataValid nodeData then do {
        let receiveTime = GetNodeOvertime timerNumber;
        wr32 rs (RECEIVING_MOMENT_FIRAT_ADDRESS + 2 * unat (deviceNumber nodeData)) receiveTime
      } else Some rs)"

text \<open>A call through one of the save pointers of a \<open>NodeData\<close>.\<close>

fun call_save :: "u32 \<Rightarrow> node_fn option \<Rightarrow> NodeData \<Rightarrow> regs \<Rightarrow> regs option" where
  "call_save n (Some FN_SaveTemperature) nd rs = SaveTemperature nd rs"
| "call_save n (Some FN_SaveVoltage) nd rs = SaveVoltage nd rs"
| "call_save n (Some FN_SaveSignalStrength) nd rs = SaveSignalStrength nd rs"
| "call_save n (Some FN_SaveLaunchNumber) nd rs = SaveLaunchNumber nd rs"
| "call_save n (Some FN_SaveReceiveTime) nd rs = SaveReceiveTime n nd rs"
| "call_save n _ nd rs = None"

text \<open>
  How a host reads a temperature register: tenths of a degree below 2000, and tenths of a degree
  below zero above it.
\<close>

definition host_temperature :: "u16 \<Rightarrow> real" where
  "host_temperature w = (if unat w < 2000 then real (unat w) / 10 else - (real (unat w) - 2000) / 10)"

text \<open>The 16-bit sum over the first ten bytes of a frame.\<close>

definition frame_sum :: "u8 list \<Rightarrow> u16" where
  "frame_sum bs = sum_list (map ucast (take 10 bs))"

text \<open>A well-formed frame.\<close>

definition frame_valid :: "u8 list \<Rightarrow> bool" where
  "frame_valid bs \<longleftrightarrow> length bs = 12 \<and> bs ! 0 = 0x5A \<and> mk16 (bs ! 10) (bs ! 11) = frame_sum bs"

text \<open>What a well-formed frame says.\<close>

definition frame_ident :: "u8 list \<Rightarrow> u32" where
  "frame_ident bs = mk32 (mk16 (bs ! 4) (bs ! 5)) (mk16 (bs ! 2) (bs ! 3))"

definition frame_decoded :: "radio \<Rightarrow> u8 list \<Rightarrow> NodeData \<Rightarrow> NodeData" where
  "frame_decoded r bs nd = (CalculateSignalStrength r nd)\<lparr>
     deviceId := frame_ident bs,
     temperatureValue := temperature_of (uint (mk16 (bs ! 6) (bs ! 7))),
     voltageValue := voltage_of (uint (mk16 (bs ! 8) (bs ! 9))),
     isDataValid := True\<rparr>"

section \<open>Checksum\<close>

lemma raw16_mk16: "raw16 (a # b # bs) = Some (mk16 a b)"
proof -
  have "push_bit 8 (ucast a :: u16) AND ucast b = 0"
    by (rule bit_eqI) (auto simp: bit_simps dest: bit_imp_le_length)
  then show ?thesis by (simp add: raw16_def mk16_def disjunctive_add_eq_or)
qed

lemma checksum_loop:
  "k \<le> length data \<Longrightarrow>
   foldM (\<lambda>i result. do { d \<leftarrow> rd data i; Some (result + ucast d :: u16) }) [0..<k] s
     = Some (s + sum_list (map ucast (take k data)))"
  by (induction k) (simp_all add: foldM_append take_Suc_conv_app_nth add.assoc)

lemma hi_lo_eq_iff:
  "(ucast a = drop_bit 8 (w AND 0xFF00) \<and> ucast b = w AND 0x00FF) \<longleftrightarrow> mk16 a b = (w :: u16)"
proof -
  have m: "(0xFF00 :: u16) = push_bit 8 (mask 8)" "(0x00FF :: u16) = mask 8"
    by (simp_all add: mask_eq_exp_minus_1)
  have h: "drop_bit 8 (w AND 0xFF00) = (ucast (hi8 w) :: u16)"
    unfolding m hi8_def by (rule bit_eqI) (auto simp: bit_simps)
  have l: "w AND 0x00FF = (ucast (lo8 w) :: u16)"
    unfolding m lo8_ucast by (rule bit_eqI) (auto simp: bit_simps)
  have "ucast (ucast x :: u16) = x" for x :: u8 by (rule bit_eqI) (auto simp: bit_simps)
  then have inj: "(ucast x = (ucast y :: u16)) \<longleftrightarrow> x = y" for x y :: u8 by metis
  show ?thesis unfolding h l inj by (metis hi8_mk16 lo8_mk16 mk16_hi8_lo8)
qed

lemma CheckSum_spec:
  assumes "length data = 12"
  shows "CheckSum data 12 = Some (if mk16 (data ! 10) (data ! 11) = frame_sum data then 0 else 1)"
  unfolding CheckSum_def hi_lo_eq_iff using assms by (simp add: checksum_loop frame_sum_def)

lemma sum_list_replace:
  fixes xs :: "'a :: ab_group_add list"
  shows "i < length xs \<Longrightarrow> sum_list (xs[i := v]) = sum_list xs - xs ! i + v"
  by (induction xs arbitrary: i) (auto split: nat.split)

lemma frame_sum_replace:
  assumes "i < 10" "length bs = 12"
  shows "frame_sum (bs[i := b]) = frame_sum bs - ucast (bs ! i) + ucast b"
  using assms by (simp add: frame_sum_def take_update_swap map_update sum_list_replace)

lemma frame_sum_replace_tail: "10 \<le> i \<Longrightarrow> frame_sum (bs[i := b]) = frame_sum bs"
  by (simp add: frame_sum_def)

section \<open>Decoding\<close>

lemma CalculateDeviceId_mk32:
  "CalculateDeviceId (a # b # c # d # bs) = Some (mk32 (mk16 c d) (mk16 a b))"
proof -
  have "mk32 (mk16 c d) (mk16 a b)
      = ((push_bit 24 (ucast a) OR push_bit 16 (ucast b)) OR push_bit 8 (ucast c)) OR (ucast d :: u32)"
    unfolding mk32_or mk16_def by (rule bit_eqI) (auto simp: bit_simps dest: bit_imp_le_length)
  also have "\<dots> = push_bit 24 (ucast a) + push_bit 16 (ucast b) + push_bit 8 (ucast c) + ucast d"
  proof -
    have 1: "push_bit 24 (ucast a :: u32) AND push_bit 16 (ucast b) = 0"
      by (rule bit_eqI) (auto simp: bit_simps dest: bit_imp_le_length)
    have 2: "(push_bit 24 (ucast a :: u32) OR push_bit 16 (ucast b)) AND push_bit 8 (ucast c) = 0"
      by (rule bit_eqI) (auto simp: bit_simps dest: bit_imp_le_length)
    have 3: "((push_bit 24 (ucast a :: u32) OR push_bit 16 (ucast b)) OR push_bit 8 (ucast c)) AND ucast d = 0"
      by (rule bit_eqI) (auto simp: bit_simps dest: bit_imp_le_length)
    show ?thesis
      unfolding disjunctive_add_eq_or [OF 1] disjunctive_add_eq_or [OF 2] disjunctive_add_eq_or [OF 3] ..
  qed
  finally show ?thesis by (simp add: CalculateDeviceId_def)
qed

lemma drop_two: "Suc k < length bs \<Longrightarrow> drop k bs = bs ! k # bs ! Suc k # drop (Suc (Suc k)) bs"
  by (simp add: Cons_nth_drop_Suc)

lemma DataFrameAnalysis_spec:
  assumes "length bs = 12"
  shows "DataFrameAnalysis r bs nd =
    Some (if bs ! 0 \<noteq> 0x5A then (2, nd)
          else if frame_valid bs then (0, frame_decoded r bs nd) else (1, nd))"
proof -
  have "drop 2 bs = bs ! 2 # bs ! 3 # bs ! 4 # bs ! 5 # drop 6 bs"
    using assms drop_two [of 2 bs] drop_two [of 4 bs] by (simp add: numeral_eq_Suc)
  moreover have "drop 6 bs = bs ! 6 # bs ! 7 # drop 8 bs" "drop 8 bs = bs ! 8 # bs ! 9 # drop 10 bs"
    using assms drop_two [of 6 bs] drop_two [of 8 bs] by (simp_all add: numeral_eq_Suc)
  moreover have "bs \<noteq> []" using assms by auto
  ultimately show ?thesis
    using assms
    by (simp add: DataFrameAnalysis_def CheckSum_spec frame_valid_def frame_decoded_def frame_ident_def
        CalculateTemperature_def CalculateVolatge_def raw16_mk16 CalculateDeviceId_mk32)
qed

lemma frame_valid_flip:
  assumes "frame_valid bs" "i < 12" "b \<noteq> bs ! i"
  shows "\<not> frame_valid (bs[i := b])"
proof (cases "i < 10")
  case True
  have "ucast b \<noteq> (ucast (bs ! i) :: u16)"
    using assms(3) by (metis lo8_mk16 mk16_def or.left_neutral push_bit_of_0 unsigned_0)
  then show ?thesis
    using assms True by (auto simp: frame_valid_def frame_sum_replace)
next
  case False
  then have "i = 10 \<or> i = 11" using assms(2) by auto
  then show ?thesis
    using assms by (auto simp: frame_valid_def frame_sum_replace_tail) (metis mk16_eq_iff)+
qed

section \<open>Finding the node\<close>

lemma find_device_spec:
  assumes "regs_ok rs"
  shows "find_device rs ident i =
    Some (if \<exists>j\<in>{i..<256}. rd32 rs (NODE_DEVICE_ID_FIRST_ADDRESS + 2 * j) = Some ident
          then Some (LEAST j. i \<le> j \<and> j < 256 \<and> rd32 rs (NODE_DEVICE_ID_FIRST_ADDRESS + 2 * j) = Some ident)
          else None)"
proof (induction "256 - i" arbitrary: i)
  case 0
  then show ?case by (simp add: find_device.simps)
next
  case (Suc n)
  let ?P = "\<lambda>j. rd32 rs (NODE_DEVICE_ID_FIRST_ADDRESS + 2 * j) = Some ident"
  have i: "i \<le> 255" and IH: "find_device rs ident (Suc i) = Some (if \<exists>j\<in>{Suc i..<256}. ?P j
      then Some (LEAST j. Suc i \<le> j \<and> j < 256 \<and> ?P j) else None)"
    using Suc by auto
  obtain v where v: "rd32 rs (NODE_DEVICE_ID_FIRST_ADDRESS + 2 * i) = Some v"
    using assms i by (simp add: regs_ok_def layout_defs)
  show ?case
  proof (cases "ident = v")
    case True
    then have "(LEAST j. i \<le> j \<and> j < 256 \<and> ?P j) = i"
      using v i by (intro Least_equality) auto
    moreover have "\<exists>j\<in>{i..<256}. ?P j" using True v i by force
    ultimately show ?thesis using True v i by (simp add: find_device.simps [of rs v i])
  next
    case False
    then have P: "(i \<le> j \<and> j < 256 \<and> ?P j) \<longleftrightarrow> (Suc i \<le> j \<and> j < 256 \<and> ?P j)" for j
      using v by (cases "j = i") auto
    then have "(\<exists>j\<in>{i..<256}. ?P j) \<longleftrightarrow> (\<exists>j\<in>{Suc i..<256}. ?P j)"
      unfolding Bex_def atLeastLessThan_iff by metis
    then show ?thesis using False v i IH unfolding P by (simp add: find_device.simps [of rs ident i])
  qed
qed

lemma GetDeviceNumber_total:
  assumes "regs_ok rs"
  obtains (found) n where "n < 256" "rd32 rs (NODE_DEVICE_ID_FIRST_ADDRESS + 2 * n) = Some (deviceId nd)"
      "\<And>m. m < n \<Longrightarrow> rd32 rs (NODE_DEVICE_ID_FIRST_ADDRESS + 2 * m) \<noteq> Some (deviceId nd)"
      "GetDeviceNumber rs nd = Some (0, nd\<lparr>deviceNumber := of_nat n\<rparr>)"
  | (absent) "\<And>m. m < 256 \<Longrightarrow> rd32 rs (NODE_DEVICE_ID_FIRST_ADDRESS + 2 * m) \<noteq> Some (deviceId nd)"
      "GetDeviceNumber rs nd = Some (1, nd)"
proof (cases "\<exists>j\<in>{0..<256}. rd32 rs (NODE_DEVICE_ID_FIRST_ADDRESS + 2 * j) = Some (deviceId nd)")
  case True
  let ?P = "\<lambda>j. (0::nat) \<le> j \<and> j < 256 \<and> rd32 rs (NODE_DEVICE_ID_FIRST_ADDRESS + 2 * j) = Some (deviceId nd)"
  from True obtain j where "?P j" by auto
  then have "?P (Least ?P)" by (rule LeastI)
  moreover have "\<not> ?P m" if "m < Least ?P" for m using that by (rule not_less_Least)
  ultimately show ?thesis
    using True by (intro found [of "Least ?P"]) (auto simp: GetDeviceNumber_def find_device_spec [OF assms])
next
  case False
  then show ?thesis by (intro absent) (auto simp: GetDeviceNumber_def find_device_spec [OF assms])
qed

section \<open>Encoding of the readings\<close>

lemma uint_of_small: "0 \<le> k \<Longrightarrow> k < 65536 \<Longrightarrow> unat (word_of_int k :: u16) = nat k"
  by (simp add: nat_eq_iff2 unsigned_of_int take_bit_int_eq_self) 

lemma sint_of_small: "0 \<le> k \<Longrightarrow> k < 32768 \<Longrightarrow> sint (word_of_int k :: u16) = k"
  by (simp add: signed_of_int signed_take_bit_int_eq_self)

lemma positive_encoding:
  assumes "near t v (1 / 100)" "v \<le> 196" "0 < fval t"
  obtains w where "temperature_format t = Some w" "\<bar>host_temperature w - v\<bar> \<le> 12 / 100"
proof -
  let ?x = "f_mul 24 t (f_of_int 10)"
  have t: "t \<noteq> NaN" "\<bar>fval t - v\<bar> \<le> 1 / 100" using assms(1) by (simp_all add: near_def)
  have x: "?x \<noteq> NaN" "\<bar>fval ?x - 10 * fval t\<bar> \<le> 10 * fval t / 2 ^ 24"
    using f_mul_error [OF t(1) f_of_int_exact(1), of 24 10] assms(3) by (simp_all add: abs_mult mult.commute)
  have "fval t \<le> 197" using t(2) assms(2) by linarith
  then have le: "10 * fval t / 2 ^ 24 \<le> 1 / 1000" "10 * fval t / 2 ^ 24 \<le> 10 * fval t"
    using assms(3) by simp_all
  have r: "0 \<le> fval ?x" "fval ?x < 1999" using x(2) le t(2) assms(2,3) by linarith+
  define k where "k = \<lfloor>fval ?x\<rfloor>"
  have k: "0 \<le> k" "k < 2000" "of_int k \<le> fval ?x" "fval ?x < of_int k + 1"
    using r unfolding k_def by linarith+
  have f: "temperature_format t = Some (word_of_int k)"
    using f_to_u16_floor [OF x(1) r(1)] r(2) t(1) assms(3)
    by (simp add: temperature_format_def f_pos_iff k_def)
  have u: "unat (word_of_int k :: u16) = nat k" using k by (intro uint_of_small) simp_all
  have h: "host_temperature (word_of_int k) = of_int k / 10"
    using k(1,2) by (simp add: host_temperature_def u)
  have "\<bar>of_int k / 10 - v\<bar> \<le> 12 / 100" using k(3,4) order_trans [OF x(2) le(1)] t(2) by linarith
  then show ?thesis using that [OF f] unfolding h by blast
qed

lemma negative_encoding:
  assumes "near t v (1 / 100)" "-400 \<le> v" "fval t \<le> 0"
  obtains w where "temperature_format t = Some w" "\<bar>host_temperature w - v\<bar> \<le> 102 / 100"
proof -
  have t: "t \<noteq> NaN" "\<bar>fval t - v\<bar> \<le> 1 / 100" using assms(1) by (simp_all add: near_def)
  define k where "k = \<lfloor>fval (f_neg t)\<rfloor>"
  have k: "0 \<le> k" "k < 402" "of_int k \<le> - fval t" "- fval t < of_int k + 1"
    using t(2) assms(2,3) unfolding k_def f_neg_exact by linarith+
  have "0 \<le> fval (f_neg t)" "fval (f_neg t) < 32768" using t(2) assms(2,3) unfolding f_neg_exact by linarith+
  then have s16: "f_to_s16 (f_neg t) = Some (word_of_int k)"
    unfolding k_def using t(1) by (intro f_to_s16_floor) simp_all
  have f: "temperature_format t = Some (word_of_int (2000 + k * 10))"
    using s16 t(1) assms(3) by (simp add: temperature_format_def f_pos_iff)
  have u: "unat (word_of_int (2000 + k * 10) :: u16) = nat (2000 + k * 10)"
    using k by (intro uint_of_small) simp_all
  have h: "host_temperature (word_of_int (2000 + k * 10)) = - of_int k"
    using k(1) unfolding host_temperature_def u by (auto simp: not_less le_nat_iff)
  have "\<bar>- of_int k - v\<bar> \<le> 102 / 100" using k t(2) by linarith
  with f h that show ?thesis by simp
qed

lemma temperature_encoding:
  assumes "0 \<le> n" "n \<le> 1023"
  shows "\<exists>w. temperature_format (temperature_of n) = Some w
     \<and> \<bar>host_temperature w - temperature_real (of_int n)\<bar> \<le> 102 / 100
     \<and> (1 \<le> temperature_real (of_int n) \<longrightarrow> \<bar>host_temperature w - temperature_real (of_int n)\<bar> \<le> 12 / 100)"
proof -
  note T = temperature_near [OF assms]
  have r: "-400 \<le> temperature_real (of_int n)" "temperature_real (of_int n) \<le> 196"
    using assms by (intro temperature_range; simp)+
  show ?thesis
  proof (cases "0 < fval (temperature_of n)")
    case True
    from positive_encoding [OF T r(2) True] show ?thesis by force
  next
    case False
    then have "temperature_real (of_int n) < 1" using nearD(2) [OF T] by linarith
    with False show ?thesis using negative_encoding [OF T r(1)] by force
  qed
qed

section \<open>Signal strength\<close>

text \<open>
  The signed reading of the radio's RSSI register in dBm. The code computes it in an \<open>int8_t\<close>; it is
  exact where the result fits.
\<close>

lemma rssi_exact:
  assumes "-128 \<le> sint (RSSI_RegisterValue r) sdiv 2 - 75"
  shows "sint (RSSI_Value (CalculateSignalStrength r nd)) = sint (RSSI_RegisterValue r) sdiv 2 - 75"
    (is "_ = ?d")
proof -
  let ?v = "RSSI_RegisterValue r"
  have ran: "-128 \<le> sint ?v" "sint ?v < 128"
    using sint_ge [of ?v] sint_lt [of ?v] by simp_all
  have fits: "sint (word_of_int k :: u8) = k" if "-128 \<le> k" "k < 128" for k
    using that by (simp add: signed_of_int signed_take_bit_int_eq_self)
  have half: "-64 \<le> sint ?v sdiv 2" "sint ?v sdiv 2 < 64"
    using ran by (auto simp: signed_divide_int_def sgn_if)
  have neg: "to_s8 (uint ?v - 256) = sint ?v"
  proof -
    have "word_of_int (uint ?v - 256) = ?v" by simp
    then show ?thesis unfolding to_s8_def by (rule arg_cong)
  qed
  have pos: "uint ?v = sint ?v" if "\<not> 128 \<le> ?v"
  proof -
    have "uint ?v < 128" using that by (simp add: word_le_def not_le)
    moreover have "-128 \<le> uint ?v" by (rule order_trans [OF _ unsigned_greater_eq]) simp
    ultimately show ?thesis by (simp add: sint_uint signed_take_bit_int_eq_self)
  qed
  have "RSSI_Value (CalculateSignalStrength r nd) = word_of_int ?d"
    using half fits [of "sint ?v sdiv 2"]
    by (auto simp: CalculateSignalStrength_def Read_RSSI_LQI_Register_def Let_def neg pos to_s8_def [of "_ sdiv _"])
  moreover have "?d < 128" using half by linarith
  ultimately show ?thesis using fits [OF assms] by (simp only:)
qed

text \<open>The register keeps the two values side by side; for a reading whose RSSI is representable the host can take both back.\<close>

lemma signal_register:
  "ucast (push_bit 8 (scast rssi :: u32) + ucast lqi) = mk16 rssi lqi"
  for rssi lqi :: u8
proof -
  have "push_bit 8 (scast rssi :: u32) AND ucast lqi = 0"
    by (rule bit_eqI) (auto simp: bit_simps dest: bit_imp_le_length)
  then have "push_bit 8 (scast rssi :: u32) + ucast lqi = push_bit 8 (scast rssi) OR ucast lqi"
    by (rule disjunctive_add_eq_or)
  then show ?thesis
    unfolding mk16_def by (auto intro!: bit_eqI simp: bit_simps)
qed

section \<open>Storing\<close>

text \<open>The node number addresses one of 256 nodes, so every store lands in the table.\<close>

lemma node_index_in_table:
  assumes "regs_ok rs"
  shows "TEMPERATURE_FIRST_ADDRESS + unat (deviceNumber nd) < length rs"
    "VOLTAGE_FIRST_ADDRESS + unat (deviceNumber nd) < length rs"
    "NODE_STATUS_FIRST_ADDRESS + 2 + 3 * unat (deviceNumber nd) < length rs"
    "LAUNCH_NUMBER_FIRAT_ADDRESS + 2 * unat (deviceNumber nd) + 1 < length rs"
    "RECEIVING_MOMENT_FIRAT_ADDRESS + 2 * unat (deviceNumber nd) + 1 < length rs"
  using assms unat_u8_less [of "deviceNumber nd"] by (simp_all add: regs_ok_def layout_defs)

lemma Save_in_table:
  assumes "regs_ok rs" "isDataValid nd"
  shows "SaveSignalStrength nd rs = Some (rs[NODE_STATUS_FIRST_ADDRESS + 2 + 3 * unat (deviceNumber nd)
           := mk16 (RSSI_Value nd) (LQI_Value nd)])"
    and "SaveLaunchNumber nd rs =
      wr32 rs (LAUNCH_NUMBER_FIRAT_ADDRESS + 2 * unat (deviceNumber nd))
        (the (rd32 rs (LAUNCH_NUMBER_FIRAT_ADDRESS + 2 * unat (deviceNumber nd))) + 1)"
    and "SaveReceiveTime n nd rs = wr32 rs (RECEIVING_MOMENT_FIRAT_ADDRESS + 2 * unat (deviceNumber nd)) n"
  using assms node_index_in_table [OF assms(1), of nd]
  by (simp_all add: SaveSignalStrength_def SaveLaunchNumber_def SaveReceiveTime_def signal_register
      GetNodeOvertime_def)

lemma Save_voltage:
  assumes "regs_ok rs" "isDataValid nd" "voltageValue nd = voltage_of n" "0 \<le> n" "n \<le> 1023"
  shows "SaveVoltage nd rs = Some (rs[VOLTAGE_FIRST_ADDRESS + unat (deviceNumber nd) := of_int (5000 * n div 1023)])"
  using assms node_index_in_table [OF assms(1), of nd] by (simp add: SaveVoltage_def voltage_exact)

end
