(* ===== verification/DataReceive.thy ===== *)
theory DataReceive
  imports DataFrame
begin

text \<open>
  Task/TaskDataReceive.c: the radio task, which receives frames and stores their readings, and the
  overtime task, which clears the readings of a node that has been silent for too long.

  A \<open>relay\<close> is the state the two tasks share. One pass through the body of the radio task's endless
  loop is \<open>TaskDataReceive_loop\<close>, one pass of the overtime task is \<open>TaskCheckOverTime_sweep\<close>; the
  seconds timer advances by \<open>NodeOvertimeTiming\<close>. The debug output and the delays are left out. The local
  \<open>nodeData\<close> is not initialised beyond \<open>NodeDataStructInit\<close>, so its start value is arbitrary.
\<close>

section \<open>Definitions\<close>

record relay =
  chip :: radio
  hold_buf :: regs
  NodeOvertimeTimerNumber :: u32
  rxBuffer :: "u8 list"
  leng :: u8
  num :: u8
  nodeData :: NodeData

definition memset_0 :: "u8 list \<Rightarrow> nat \<Rightarrow> u8 list option" where
  "memset_0 buf n = (if n \<le> length buf then Some (replicate n 0 @ drop n buf) else None)"

text \<open>The part of the loop before its \<open>while(1)\<close>.\<close>

definition TaskDataReceive_start :: "relay \<Rightarrow> relay option" where
  "TaskDataReceive_start s = do {
     r \<leftarrow> CC1101_PowerUp (chip s);
     r \<leftarrow> CC1101_SettingsReg r;
     Some (s\<lparr>chip := r, num := 0, rxBuffer := replicate 12 0, leng := 0,
             nodeData := NodeDataStructInit (nodeData s)\<rparr>)
   }"

text \<open>\<open>nodeData.getDeviceNumber(&nodeData)\<close> through the function pointer.\<close>

definition call_getDeviceNumber :: "regs \<Rightarrow> NodeData \<Rightarrow> (u8 \<times> NodeData) option" where
  "call_getDeviceNumber rs nd =
     (if getDeviceNumber nd = Some FN_GetDeviceNumber then GetDeviceNumber rs nd else None)"

text \<open>What the loop does with a received packet, up to the end of the \<open>if (0 == ret)\<close>.\<close>

definition process_frame :: "u32 \<Rightarrow> radio \<Rightarrow> u8 list \<Rightarrow> NodeData \<Rightarrow> regs \<Rightarrow> (NodeData \<times> regs) option" where
  "process_frame n r buf nd rs = do {
     (ret, nd) \<leftarrow> DataFrameAnalysis r buf nd;
     if ret = 0 then do {
       (ret, nd) \<leftarrow> call_getDeviceNumber rs nd;
       if ret = 0 then do {
         rs \<leftarrow> call_save n (saveTemperature nd) nd rs;
         rs \<leftarrow> call_save n (saveVoltage nd) nd rs;
         rs \<leftarrow> call_save n (saveSignalStrength nd) nd rs;
         rs \<leftarrow> call_save n (saveLaunchNumber nd) nd rs;
         rs \<leftarrow> call_save n (saveReceiveTime nd) nd rs;
         Some (nd, rs)
       } else Some (nd, rs)
     } else Some (nd, rs)
   }"

definition TaskDataReceive_loop :: "relay \<Rightarrow> relay option" where
  "TaskDataReceive_loop s = do {
     (got, buf, len, r) \<leftarrow> CC1101_ReceivePacket (rxBuffer s) (leng s) (chip s);
     let s = s\<lparr>chip := r, rxBuffer := buf, leng := len\<rparr>;
     s \<leftarrow> (if got \<noteq> 0 then do {
        (nd, rs) \<leftarrow> process_frame (NodeOvertimeTimerNumber s) (chip s) (rxBuffer s) (nodeData s) (hold_buf s);
        buf \<leftarrow> memset_0 (rxBuffer s) (unat (leng s));
        r \<leftarrow> CC1101_Reset (chip s);
        r \<leftarrow> CC1101_SettingsReg r;
        Some (s\<lparr>hold_buf := rs, rxBuffer := buf, nodeData := nd\<lparr>isDataValid := False\<rparr>,
                chip := r, num := 0\<rparr>)
      } else Some s);
     s \<leftarrow> (if num s = 20 then do {
        r \<leftarrow> CC1101_Reset (chip s);
        r \<leftarrow> CC1101_SettingsReg r;
        Some (s\<lparr>chip := r, num := 0\<rparr>)
      } else Some s);
     Some (s\<lparr>num := num s + 1\<rparr>)
   }"

subsection \<open>The overtime task\<close>

text \<open>\<open>overtime\<close> is \<open>g_ConfigFile[2].parameter * 60\<close>, read once at the start of the task.\<close>

definition overtime_of :: "u32 \<Rightarrow> u32" where
  "overtime_of parameter = parameter * 60"

definition check_node :: "u32 \<Rightarrow> u32 \<Rightarrow> nat \<Rightarrow> regs \<Rightarrow> regs option" where
  "check_node n overtime i rs = do {
     startTime \<leftarrow> rd32 rs (RECEIVING_MOMENT_FIRAT_ADDRESS + 2 * i);
     if startTime = 0 then Some rs
     else if CheckOvertime n startTime overtime \<noteq> 0 then do {
       rs \<leftarrow> wr rs (TEMPERATURE_FIRST_ADDRESS + i) 0;
       rs \<leftarrow> wr rs (VOLTAGE_FIRST_ADDRESS + i) 0;
       rs \<leftarrow> wr rs (NODE_STATUS_FIRST_ADDRESS + 2 + 3 * i) 0;
       rs \<leftarrow> wr rs (LAUNCH_NUMBER_FIRAT_ADDRESS + 2 * i) 0;
       rs \<leftarrow> wr rs (LAUNCH_NUMBER_FIRAT_ADDRESS + 1 + 2 * i) 0;
       rs \<leftarrow> wr rs (RECEIVING_MOMENT_FIRAT_ADDRESS + 2 * i) 0;
       wr rs (RECEIVING_MOMENT_FIRAT_ADDRESS + 1 + 2 * i) 0
     } else Some rs
   }"

definition TaskCheckOverTime_sweep :: "u32 \<Rightarrow> u32 \<Rightarrow> regs \<Rightarrow> regs option" where
  "TaskCheckOverTime_sweep n overtime rs = foldM (check_node n overtime) [0..<256] rs"

text \<open>The node's readings are stale: it was heard of, and its last frame is \<open>overtime\<close> seconds old.\<close>

definition stale :: "u32 \<Rightarrow> u32 \<Rightarrow> regs \<Rightarrow> nat \<Rightarrow> bool" where
  "stale n overtime rs i \<longleftrightarrow>
     (let t = the (rd32 rs (RECEIVING_MOMENT_FIRAT_ADDRESS + 2 * i)) in t \<noteq> 0 \<and> overtime \<le> n - t)"

text \<open>The registers a sweep over the first \<open>k\<close> nodes clears.\<close>

definition swept :: "u32 \<Rightarrow> u32 \<Rightarrow> regs \<Rightarrow> nat \<Rightarrow> nat \<Rightarrow> bool" where
  "swept n overtime rs k a \<longleftrightarrow> (\<exists>i<k. stale n overtime rs i \<and> a \<in> node_addrs i)"

text \<open>The function pointers are set, as \<open>NodeDataStructInit\<close> leaves them.\<close>

definition pointers_set :: "NodeData \<Rightarrow> bool" where
  "pointers_set nd \<longleftrightarrow> getDeviceNumber nd = Some FN_GetDeviceNumber
     \<and> saveTemperature nd = Some FN_SaveTemperature \<and> saveVoltage nd = Some FN_SaveVoltage
     \<and> saveSignalStrength nd = Some FN_SaveSignalStrength
     \<and> saveLaunchNumber nd = Some FN_SaveLaunchNumber \<and> saveReceiveTime nd = Some FN_SaveReceiveTime"

text \<open>The node a device code belongs to: the first entry of the code table that holds it.\<close>

definition owner :: "regs \<Rightarrow> u32 \<Rightarrow> nat \<Rightarrow> bool" where
  "owner rs ident i \<longleftrightarrow> i < 256 \<and> rd32 rs (NODE_DEVICE_ID_FIRST_ADDRESS + 2 * i) = Some ident
     \<and> (\<forall>j<i. rd32 rs (NODE_DEVICE_ID_FIRST_ADDRESS + 2 * j) \<noteq> Some ident)"

text \<open>The readings of node \<open>i\<close> in the table.\<close>

definition readings :: "regs \<Rightarrow> nat \<Rightarrow> u16 \<times> u16 \<times> u16 \<times> u32 option \<times> u32 option" where
  "readings rs i =
     (rs ! (TEMPERATURE_FIRST_ADDRESS + i), rs ! (VOLTAGE_FIRST_ADDRESS + i),
      rs ! (NODE_STATUS_FIRST_ADDRESS + 2 + 3 * i),
      rd32 rs (LAUNCH_NUMBER_FIRAT_ADDRESS + 2 * i), rd32 rs (RECEIVING_MOMENT_FIRAT_ADDRESS + 2 * i))"

definition launches :: "regs \<Rightarrow> nat \<Rightarrow> u32" where
  "launches rs i = the (rd32 rs (LAUNCH_NUMBER_FIRAT_ADDRESS + 2 * i))"

text \<open>What the radio task relies on between two passes of its loop.\<close>

definition relay_ok :: "relay \<Rightarrow> bool" where
  "relay_ok s \<longleftrightarrow> regs_ok (hold_buf s) \<and> length (rxBuffer s) = 12 \<and> pointers_set (nodeData s)
     \<and> \<not> isDataValid (nodeData s) \<and> num s \<le> 20"

subsection \<open>A sample system\<close>

definition demo_frame :: "u8 list" where
  "demo_frame = [0x5A, 1, 0x12, 0x34, 0x56, 0x78, 0x01, 0x64, 0x02, 0x66, 0x02, 0x3C]"

definition demo_regs :: regs where
  "demo_regs = (replicate S_REG_HOLDING_NREGS 0)[0x708 := 0x5678, 0x709 := 0x1234]"

definition demo_radio :: radio where
  "demo_radio = \<lparr>miso_in = replicate 100 False, gdo0_in = [False], spi_in = replicate 200 0, bus_log = [],
     RSSI_RegisterValue = 40, LQI_RegisterValue = 0xB0\<rparr>"

definition demo_node :: NodeData where
  "demo_node = NodeDataStructInit \<lparr>isDataValid = False, deviceId = 0, temperatureValue = NaN,
     voltageValue = NaN, deviceNumber = 0, RSSI_Value = 0, LQI_Value = 0, getDeviceNumber = None,
     saveTemperature = None, saveVoltage = None, saveSignalStrength = None, saveLaunchNumber = None,
     saveReceiveTime = None\<rparr>"

definition demo_relay :: relay where
  "demo_relay = \<lparr>chip = demo_radio, hold_buf = demo_regs, NodeOvertimeTimerNumber = 7,
     rxBuffer = replicate 12 0, leng = 0, num = 0, nodeData = demo_node\<rparr>"

section \<open>The overtime sweep\<close>

lemma check_node_spec:
  assumes "regs_ok rs" "i < 256"
  shows "\<exists>rs'. check_node n overtime i rs = Some rs' \<and> regs_ok rs'
     \<and> (\<forall>a < length rs. rs' ! a = (if stale n overtime rs i \<and> a \<in> node_addrs i then 0 else rs ! a))"
  using assms
  by (auto simp: check_node_def regs_ok_def layout_defs stale_def Let_def CheckOvertime_def
      GetNodeOvertime_def node_addrs_def nth_list_update)

text \<open>A node's staleness depends on its own registers only.\<close>

lemma stale_cong:
  assumes "regs_ok rs" "regs_ok rs'" "i < 256" "\<And>a. a \<in> node_addrs i \<Longrightarrow> rs' ! a = rs ! a"
  shows "stale n overtime rs' i = stale n overtime rs i"
proof -
  have "RECEIVING_MOMENT_FIRAT_ADDRESS + 2 * i \<in> node_addrs i"
    "RECEIVING_MOMENT_FIRAT_ADDRESS + 1 + 2 * i \<in> node_addrs i"
    by (simp_all add: node_addrs_def)
  then show ?thesis
    using assms by (simp add: stale_def regs_ok_def layout_defs)
qed

lemma swept_other: "k < 256 \<Longrightarrow> a \<in> node_addrs k \<Longrightarrow> \<not> swept n overtime rs k a"
  by (metis swept_def node_addrs_disjoint disjoint_iff less_trans less_irrefl)

lemma sweep_spec:
  assumes "regs_ok rs"
  shows "\<exists>rs'. TaskCheckOverTime_sweep n overtime rs = Some rs' \<and> regs_ok rs'
     \<and> (\<forall>a < length rs. rs' ! a = (if swept n overtime rs 256 a then 0 else rs ! a))"
proof -
  define I where "I = (\<lambda>k t. regs_ok t \<and> (\<forall>a < length rs. t ! a = (if swept n overtime rs k a then 0 else rs ! a)))"
  have "\<exists>rs'. foldM (check_node n overtime) [0..<256] rs = Some rs' \<and> I 256 rs'"
  proof (rule foldM_upt_inv)
    show "I 0 rs" using assms by (simp add: I_def swept_def)
  next
    fix k t assume k: "k < 256" and It: "I k t"
    have t: "regs_ok t" and len: "length t = length rs" using It assms by (simp_all add: I_def regs_ok_def)
    have same: "t ! a = rs ! a" if "a \<in> node_addrs k" for a
      using It that k node_addrs_in_table [OF k, of a] swept_other [OF k that] assms
      by (simp add: I_def regs_ok_def)
    have st: "stale n overtime t k = stale n overtime rs k"
      by (rule stale_cong [OF assms t k]) (rule same)
    obtain t' where t': "check_node n overtime k t = Some t'" "regs_ok t'"
      "\<And>a. a < length t \<Longrightarrow> t' ! a = (if stale n overtime t k \<and> a \<in> node_addrs k then 0 else t ! a)"
      using check_node_spec [OF t k] by blast
    have "swept n overtime rs (Suc k) a \<longleftrightarrow> (stale n overtime rs k \<and> a \<in> node_addrs k) \<or> swept n overtime rs k a" for a
      by (auto simp: swept_def less_Suc_eq)
    then have "I (Suc k) t'"
      using It t' len st unfolding I_def by simp
    with t'(1) show "\<exists>t'. check_node n overtime k t = Some t' \<and> I (Suc k) t'" by blast
  qed simp
  then show ?thesis unfolding TaskCheckOverTime_sweep_def I_def by blast
qed

section \<open>Processing a frame\<close>

lemma pointers_set_kept [simp]:
  "pointers_set (NodeDataStructInit nd)"
  "pointers_set (frame_decoded r bs nd) = pointers_set nd"
  "pointers_set (nd\<lparr>deviceNumber := d\<rparr>) = pointers_set nd"
  "pointers_set (nd\<lparr>isDataValid := b\<rparr>) = pointers_set nd"
  by (simp_all add: pointers_set_def NodeDataStructInit_def frame_decoded_def
      CalculateSignalStrength_def Let_def split: prod.split)

lemma frame_decoded_simps [simp]:
  "isDataValid (frame_decoded r bs nd)" "deviceId (frame_decoded r bs nd) = frame_ident bs"
  "temperatureValue (frame_decoded r bs nd) = temperature_of (uint (mk16 (bs ! 6) (bs ! 7)))"
  "voltageValue (frame_decoded r bs nd) = voltage_of (uint (mk16 (bs ! 8) (bs ! 9)))"
  "RSSI_Value (frame_decoded r bs nd) = RSSI_Value (CalculateSignalStrength r nd)"
  "LQI_Value (frame_decoded r bs nd) = LQI_Value (CalculateSignalStrength r nd)"
  by (simp_all add: frame_decoded_def)

lemma GetDeviceNumber_owner:
  assumes "regs_ok rs" "owner rs (deviceId nd) i"
  shows "GetDeviceNumber rs nd = Some (0, nd\<lparr>deviceNumber := of_nat i\<rparr>)"
  using assms(1)
proof (cases rule: GetDeviceNumber_total [of rs nd])
  case (found n)
  then have "n = i" using assms(2) unfolding owner_def by (metis linorder_neqE_nat)
  then show ?thesis using found by simp
next
  case absent
  then show ?thesis using assms(2) by (auto simp: owner_def)
qed

lemma GetDeviceNumber_unknown:
  assumes "regs_ok rs" "\<And>i. \<not> owner rs (deviceId nd) i"
  shows "GetDeviceNumber rs nd = Some (1, nd)"
  using assms(1)
proof (cases rule: GetDeviceNumber_total [of rs nd])
  case (found n)
  then have "owner rs (deviceId nd) n" by (simp add: owner_def)
  with assms(2) show ?thesis by blast
next
  case absent
  then show ?thesis by simp
qed

lemma process_frame_rejected:
  assumes "length buf = 12" "\<not> frame_valid buf"
  shows "process_frame n r buf nd rs = Some (nd, rs)"
  using assms by (simp add: process_frame_def DataFrameAnalysis_spec)

lemma process_frame_unknown:
  assumes "regs_ok rs" "pointers_set nd" "frame_valid buf" "\<And>i. \<not> owner rs (frame_ident buf) i"
  shows "process_frame n r buf nd rs = Some (frame_decoded r buf nd, rs)"
proof -
  have "pointers_set (frame_decoded r buf nd)" using assms(2) by simp
  then show ?thesis
    using assms by (simp add: process_frame_def DataFrameAnalysis_spec frame_valid_def
        call_getDeviceNumber_def pointers_set_def GetDeviceNumber_unknown)
qed

lemma process_frame_stored:
  assumes "regs_ok rs" "pointers_set nd" "frame_valid buf" "owner rs (frame_ident buf) i"
    and "mk16 (buf ! 6) (buf ! 7) \<le> 1023" "mk16 (buf ! 8) (buf ! 9) \<le> 1023"
    and w: "temperature_format (temperature_of (uint (mk16 (buf ! 6) (buf ! 7)))) = Some w"
  shows "\<exists>rs'. process_frame n r buf nd rs = Some ((frame_decoded r buf nd)\<lparr>deviceNumber := of_nat i\<rparr>, rs')
     \<and> regs_ok rs'
     \<and> readings rs' i = (w, of_int (5000 * uint (mk16 (buf ! 8) (buf ! 9)) div 1023),
         mk16 (RSSI_Value (CalculateSignalStrength r nd)) (LQI_Value (CalculateSignalStrength r nd)),
         Some (launches rs i + 1), Some n)
     \<and> (\<forall>a < length rs. a \<notin> node_addrs i \<longrightarrow> rs' ! a = rs ! a)"
proof -
  let ?nd = "(frame_decoded r buf nd)\<lparr>deviceNumber := of_nat i\<rparr>"
  have i: "i < 256" "unat (of_nat i :: u8) = i" using assms(4) by (simp_all add: owner_def unat_of_nat)
  have p: "pointers_set ?nd" "pointers_set (frame_decoded r buf nd)" using assms(2) by simp_all
  have v: "f_to_s16 (voltage_of (uint (mk16 (buf ! 8) (buf ! 9)))) =
      Some (of_int (5000 * uint (mk16 (buf ! 8) (buf ! 9)) div 1023))"
    using assms(6) by (intro voltage_exact) (simp_all add: word_le_def)
  have an: "DataFrameAnalysis r buf nd = Some (0, frame_decoded r buf nd)"
    using assms(3) by (simp add: DataFrameAnalysis_spec frame_valid_def)
  have gd: "call_getDeviceNumber rs (frame_decoded r buf nd) = Some (0, ?nd)"
    using p assms(1,4) GetDeviceNumber_owner [of rs "frame_decoded r buf nd" i]
    by (simp add: call_getDeviceNumber_def pointers_set_def)
  have len: "length rs = 3080" using assms(1) by (simp add: regs_ok_def layout_defs)
  show ?thesis
    using i p(1) len
    by (simp add: process_frame_def an gd pointers_set_def SaveTemperature_def SaveVoltage_def v w
        SaveSignalStrength_def SaveLaunchNumber_def SaveReceiveTime_def signal_register
        GetNodeOvertime_def regs_ok_def layout_defs readings_def launches_def node_addrs_def nth_list_update)
qed

section \<open>The loop of the radio task\<close>

text \<open>Whatever is stored, only the node's own registers change.\<close>

lemma call_save_frame:
  assumes "call_save n f nd rs = Some rs'"
  shows "length rs' = length rs"
    and "a \<notin> node_addrs (unat (deviceNumber nd)) \<Longrightarrow> rs' ! a = rs ! a"
proof -
  have "length rs' = length rs
      \<and> (a \<notin> node_addrs (unat (deviceNumber nd)) \<longrightarrow> rs' ! a = rs ! a)"
    using assms
    by (cases "(n, f, nd, rs)" rule: call_save.cases)
      (auto simp: SaveTemperature_def SaveVoltage_def SaveSignalStrength_def SaveLaunchNumber_def
        SaveReceiveTime_def bind_eq_Some_conv wr_eq_Some wr32_def node_addrs_def nth_list_update
        Let_def split: if_splits)
  then show "length rs' = length rs"
    and "a \<notin> node_addrs (unat (deviceNumber nd)) \<Longrightarrow> rs' ! a = rs ! a" by blast+
qed

lemma process_frame_frame:
  assumes "process_frame n r buf nd rs = Some (nd', rs')" "regs_ok rs" "length buf = 12" "pointers_set nd"
  shows "regs_ok rs'" "pointers_set nd'" "\<exists>i<256. \<forall>a. a \<notin> node_addrs i \<longrightarrow> rs' ! a = rs ! a"
proof -
  have "regs_ok rs' \<and> pointers_set nd' \<and> (\<exists>i<256. \<forall>a. a \<notin> node_addrs i \<longrightarrow> rs' ! a = rs ! a)"
  proof (cases "frame_valid buf \<and> (\<exists>i. owner rs (frame_ident buf) i)")
    case False
    then show ?thesis
      using assms process_frame_rejected [of buf n r nd rs] process_frame_unknown [of rs nd buf n r]
      by (cases "frame_valid buf") (auto intro: exI [of _ 0])
  next
    case True
    then obtain i where v: "frame_valid buf" and i: "owner rs (frame_ident buf) i" by blast
    let ?d = "(frame_decoded r buf nd)\<lparr>deviceNumber := of_nat i\<rparr>"
    have an: "DataFrameAnalysis r buf nd = Some (0, frame_decoded r buf nd)"
      using v by (simp add: DataFrameAnalysis_spec frame_valid_def)
    have p: "pointers_set ?d" "pointers_set (frame_decoded r buf nd)" using assms(4) by simp_all
    then have gd: "call_getDeviceNumber rs (frame_decoded r buf nd) = Some (0, ?d)"
      using assms(2) i GetDeviceNumber_owner [of rs "frame_decoded r buf nd" i]
      by (simp add: call_getDeviceNumber_def pointers_set_def)
    have n: "unat (deviceNumber ?d) = i" "i < 256" using i by (simp_all add: owner_def unat_of_nat)
    from assms(1) obtain r1 r2 r3 r4 where st: "nd' = ?d"
      "call_save n (saveTemperature ?d) ?d rs = Some r1" "call_save n (saveVoltage ?d) ?d r1 = Some r2"
      "call_save n (saveSignalStrength ?d) ?d r2 = Some r3" "call_save n (saveLaunchNumber ?d) ?d r3 = Some r4"
      "call_save n (saveReceiveTime ?d) ?d r4 = Some rs'"
      by (auto simp: process_frame_def an gd bind_eq_Some_conv simp del: call_save.simps)
    have "length rs' = length rs" using call_save_frame(1) [OF st(2)] call_save_frame(1) [OF st(3)]
        call_save_frame(1) [OF st(4)] call_save_frame(1) [OF st(5)] call_save_frame(1) [OF st(6)] by simp
    moreover have "rs' ! a = rs ! a" if "a \<notin> node_addrs i" for a
    proof -
      have a: "a \<notin> node_addrs (unat (deviceNumber ?d))" using that n(1) by simp
      show ?thesis using call_save_frame(2) [OF st(2) a] call_save_frame(2) [OF st(3) a]
        call_save_frame(2) [OF st(4) a] call_save_frame(2) [OF st(5) a] call_save_frame(2) [OF st(6) a] by simp
    qed
    ultimately show ?thesis using assms(2) st(1) p(1) n(2) by (auto simp: regs_ok_def)
  qed
  then show "regs_ok rs'" "pointers_set nd'" "\<exists>i<256. \<forall>a. a \<notin> node_addrs i \<longrightarrow> rs' ! a = rs ! a"
    by blast+
qed

lemma memset_0_length: "memset_0 buf n = Some buf' \<Longrightarrow> length buf' = length buf"
  by (auto simp: memset_0_def split: if_splits)

text \<open>A pass keeps the task's state in shape and touches the registers of at most one node.\<close>

lemma loop_ok:
  assumes "TaskDataReceive_loop s = Some s'" "relay_ok s"
  shows "relay_ok s'" "\<exists>i<256. \<forall>a. a \<notin> node_addrs i \<longrightarrow> hold_buf s' ! a = hold_buf s ! a"
proof -
  obtain got buf len r where rp: "CC1101_ReceivePacket (rxBuffer s) (leng s) (chip s) = Some (got, buf, len, r)"
    using assms(1) by (auto simp: TaskDataReceive_loop_def bind_eq_Some_conv)
  have ok: "regs_ok (hold_buf s)" "pointers_set (nodeData s)" "length buf = 12"
    using assms(2) ReceivePacket_buffer(1) [OF rp] by (simp_all add: relay_ok_def)
  have inc: "x \<le> 20 \<Longrightarrow> x \<noteq> 20 \<Longrightarrow> x + 1 \<le> (20 :: u8)" for x
    by (simp add: inc_le order_less_le)
  have "relay_ok s' \<and> (\<exists>i<256. \<forall>a. a \<notin> node_addrs i \<longrightarrow> hold_buf s' ! a = hold_buf s ! a)"
  proof (cases "got = 0")
    case True
    then show ?thesis
      using assms ok rp inc [of "num s"]
      by (auto simp: TaskDataReceive_loop_def bind_eq_Some_conv relay_ok_def Let_def split: if_splits
          intro: exI [of _ 0])
  next
    case False
    then obtain nd rs buf' r' where pf:
      "process_frame (NodeOvertimeTimerNumber s) r buf (nodeData s) (hold_buf s) = Some (nd, rs)"
      "memset_0 buf (unat len) = Some buf'"
      "s' = s\<lparr>leng := len, hold_buf := rs, rxBuffer := buf',
              nodeData := nd\<lparr>isDataValid := False\<rparr>, chip := r', num := 1\<rparr>"
      using assms(1) rp by (auto simp: TaskDataReceive_loop_def bind_eq_Some_conv Let_def)
    then show ?thesis
      using process_frame_frame [OF pf(1) ok(1,3,2)] memset_0_length [OF pf(2)] ok(3)
      by (simp add: relay_ok_def)
  qed
  then show "relay_ok s'" "\<exists>i<256. \<forall>a. a \<notin> node_addrs i \<longrightarrow> hold_buf s' ! a = hold_buf s ! a"
    by blast+
qed

lemma start_ok:
  assumes "TaskDataReceive_start s = Some s'" "regs_ok (hold_buf s)"
  shows "relay_ok s'"
  using assms by (auto simp: TaskDataReceive_start_def bind_eq_Some_conv relay_ok_def NodeDataStructInit_def
      pointers_set_def)

section \<open>The sample system\<close>

lemma demo_facts:
  "regs_ok demo_regs" "pointers_set demo_node" "frame_valid demo_frame"
  by (simp_all add: regs_ok_def demo_regs_def demo_node_def) code_simp

lemma demo_owner: "owner demo_regs (frame_ident demo_frame) 0"
proof -
  have "frame_ident demo_frame = mk32 0x5678 0x1234" by code_simp
  then show ?thesis by (simp add: owner_def demo_regs_def layout_defs)
qed

lemma demo_unknown: "\<forall>i. \<not> owner (replicate S_REG_HOLDING_NREGS 0) (frame_ident demo_frame) i"
proof -
  have "frame_ident demo_frame = mk32 0x5678 0x1234" by code_simp
  then show ?thesis by (auto simp: owner_def layout_defs rd32_def rd_eq_Some bind_eq_Some_conv mk32_eq_iff)
qed

lemma demo_start_defined: "\<exists>s. TaskDataReceive_start demo_relay = Some s"
proof -
  have "Option.bind (CC1101_PowerUp demo_radio) CC1101_SettingsReg \<noteq> None" by code_simp
  then show ?thesis by (auto simp: TaskDataReceive_start_def demo_relay_def split: bind_splits)
qed

section \<open>Properties\<close>

text \<open>
  C3: a well-formed frame of a known device whose two readings are 10-bit converter values updates the
  registers of the device's node and no others: the temperature register decodes to within 1.02 degrees
  of the sensor formula (0.12 from 1 degree up), the voltage is the exact quotient rounded down, the
  signal word holds RSSI and LQI, the launch counter is one higher and the receive time is the
  current second.
\<close>

theorem frame_updates_its_node:
  assumes "regs_ok rs" "pointers_set nd" "frame_valid buf" "owner rs (frame_ident buf) i"
    and "mk16 (buf ! 6) (buf ! 7) \<le> 1023" "mk16 (buf ! 8) (buf ! 9) \<le> 1023"
  defines "T \<equiv> temperature_real (of_int (uint (mk16 (buf ! 6) (buf ! 7))))"
  shows "\<exists>nd' rs' w. process_frame n r buf nd rs = Some (nd', rs') \<and> regs_ok rs'
     \<and> readings rs' i = (w, of_int (5000 * uint (mk16 (buf ! 8) (buf ! 9)) div 1023),
         mk16 (RSSI_Value (CalculateSignalStrength r nd)) (LQI_Value (CalculateSignalStrength r nd)),
         Some (launches rs i + 1), Some n)
     \<and> \<bar>host_temperature w - T\<bar> \<le> 102 / 100 \<and> (1 \<le> T \<longrightarrow> \<bar>host_temperature w - T\<bar> \<le> 12 / 100)
     \<and> (\<forall>a < length rs. a \<notin> node_addrs i \<longrightarrow> rs' ! a = rs ! a)"
proof -
  obtain w where w: "temperature_format (temperature_of (uint (mk16 (buf ! 6) (buf ! 7)))) = Some w"
    "\<bar>host_temperature w - T\<bar> \<le> 102 / 100" "1 \<le> T \<longrightarrow> \<bar>host_temperature w - T\<bar> \<le> 12 / 100"
    using temperature_encoding [of "uint (mk16 (buf ! 6) (buf ! 7))"] assms(5)
    unfolding T_def by (auto simp: word_le_def)
  then show ?thesis using process_frame_stored [OF assms(1-6) w(1), of n r] by blast
qed

theorem frame_updates_its_node_witness:
  "\<exists>nd' rs' w. process_frame 7 demo_radio demo_frame demo_node demo_regs = Some (nd', rs') \<and> regs_ok rs'
     \<and> readings rs' 0 = (w, 3000, mk16 (- 55) 0x30, Some 1, Some 7)
     \<and> \<bar>host_temperature w - temperature_real 356\<bar> \<le> 102 / 100"
proof -
  have r: "mk16 (demo_frame ! 6) (demo_frame ! 7) = 356" "mk16 (demo_frame ! 8) (demo_frame ! 9) = 614"
    "RSSI_Value (CalculateSignalStrength demo_radio demo_node) = - 55"
    "LQI_Value (CalculateSignalStrength demo_radio demo_node) = 0x30"
    by code_simp+
  have "launches demo_regs 0 = 0" by (simp add: launches_def demo_regs_def layout_defs mk32_def)
  with frame_updates_its_node [OF demo_facts demo_owner, of 7 demo_radio]
  show ?thesis unfolding r by auto
qed





text \<open>
  A well-formed frame of a device that is not in the code table changes no register.
\<close>

lemma unknown_device_dropped:
  assumes "regs_ok rs" "pointers_set nd" "frame_valid buf" "\<forall>i. \<not> owner rs (frame_ident buf) i"
  shows "\<exists>nd'. process_frame n r buf nd rs = Some (nd', rs) \<and> deviceId nd' = frame_ident buf"
  using process_frame_unknown [OF assms(1-3)] assms(4) by simp

text \<open>
  C7: a sweep of the overtime task clears exactly the registers of the nodes whose last frame is at
  least \<open>overtime\<close> seconds old, leaves every other register alone, and always completes.
\<close>

theorem sweep_clears_stale_nodes:
  assumes "regs_ok rs"
  shows "\<exists>rs'. TaskCheckOverTime_sweep n overtime rs = Some rs' \<and> length rs' = length rs
     \<and> (\<forall>a < length rs. rs' ! a =
          (if \<exists>i<256. stale n overtime rs i \<and> a \<in> node_addrs i then 0 else rs ! a))"
  using sweep_spec [OF assms, of n overtime] assms by (auto simp: regs_ok_def swept_def)

theorem sweep_clears_stale_nodes_witness:
  "\<exists>rs'. TaskCheckOverTime_sweep 700 600 demo_regs = Some rs' \<and> length rs' = length demo_regs
     \<and> (\<forall>a < length demo_regs. rs' ! a =
          (if \<exists>i<256. stale 700 600 demo_regs i \<and> a \<in> node_addrs i then 0 else demo_regs ! a))"
  by (rule sweep_clears_stale_nodes [OF demo_facts(1)])


end
