(* ===== verification/MbUtil.thy ===== *)
theory MbUtil
  imports Prelude
begin

text \<open>
  components/net/freemodbus/modbus/functions/mbutils.c: the bit-field helpers of the coil and discrete
  input callbacks and the translation of stack errors into Modbus exceptions. A buffer is seen as a
  sequence of bits, bit \<open>i\<close> in byte \<open>i div 8\<close>.
\<close>

section \<open>Definitions\<close>

datatype eMBErrorCode = MB_ENOERR | MB_ENOREG | MB_EINVAL | MB_EPORTERR | MB_ENORES | MB_EIO
  | MB_EILLSTATE | MB_ETIMEDOUT

datatype eMBException = MB_EX_NONE | MB_EX_ILLEGAL_FUNCTION | MB_EX_ILLEGAL_DATA_ADDRESS
  | MB_EX_ILLEGAL_DATA_VALUE | MB_EX_SLAVE_DEVICE_FAILURE | MB_EX_ACKNOWLEDGE | MB_EX_SLAVE_BUSY
  | MB_EX_MEMORY_PARITY_ERROR | MB_EX_GATEWAY_PATH_FAILED | MB_EX_GATEWAY_TGT_FAILED

definition xMBUtilSetBits :: "u8 list \<Rightarrow> u16 \<Rightarrow> u8 \<Rightarrow> u8 \<Rightarrow> u8 list option" where
  "xMBUtilSetBits ucByteBuf usBitOffset ucNBits ucValue = do {
     let usValue = (ucast ucValue :: u16);
     c_assert (ucNBits \<le> 8);
     let usByteOffset = usBitOffset div 8;
     let usNPreBits = usBitOffset - usByteOffset * 8;
     let usValue = push_bit (unat usNPreBits) usValue;
     let usMask = push_bit (unat ucNBits) 1 - 1;
     let usMask = push_bit (unat (usBitOffset - usByteOffset * 8)) usMask;
     b0 \<leftarrow> rd ucByteBuf (unat usByteOffset);
     b1 \<leftarrow> rd ucByteBuf (unat usByteOffset + 1);
     let usWordBuf = ucast b0 OR push_bit 8 (ucast b1);
     let usWordBuf = (usWordBuf AND NOT usMask) OR usValue;
     ucByteBuf \<leftarrow> wr ucByteBuf (unat usByteOffset) (ucast (usWordBuf AND 0xFF));
     wr ucByteBuf (unat usByteOffset + 1) (ucast (drop_bit 8 usWordBuf))
   }"

definition xMBUtilGetBits :: "u8 list \<Rightarrow> u16 \<Rightarrow> u8 \<Rightarrow> u8 option" where
  "xMBUtilGetBits ucByteBuf usBitOffset ucNBits = do {
     let usByteOffset = usBitOffset div 8;
     let usNPreBits = usBitOffset - usByteOffset * 8;
     let usMask = push_bit (unat ucNBits) 1 - 1;
     b0 \<leftarrow> rd ucByteBuf (unat usByteOffset);
     b1 \<leftarrow> rd ucByteBuf (unat usByteOffset + 1);
     let usWordBuf = ucast b0 OR push_bit 8 (ucast b1);
     let usWordBuf = drop_bit (unat usNPreBits) usWordBuf;
     let usWordBuf = usWordBuf AND usMask;
     Some (ucast (usWordBuf :: u16))
   }"

fun prveMBError2Exception :: "eMBErrorCode \<Rightarrow> eMBException" where
  "prveMBError2Exception MB_ENOERR = MB_EX_NONE"
| "prveMBError2Exception MB_ENOREG = MB_EX_ILLEGAL_DATA_ADDRESS"
| "prveMBError2Exception MB_ETIMEDOUT = MB_EX_SLAVE_BUSY"
| "prveMBError2Exception _ = MB_EX_SLAVE_DEVICE_FAILURE"

text \<open>The exception codes on the wire.\<close>

fun exception_code :: "eMBException \<Rightarrow> u8" where
  "exception_code MB_EX_NONE = 0"
| "exception_code MB_EX_ILLEGAL_FUNCTION = 1"
| "exception_code MB_EX_ILLEGAL_DATA_ADDRESS = 2"
| "exception_code MB_EX_ILLEGAL_DATA_VALUE = 3"
| "exception_code MB_EX_SLAVE_DEVICE_FAILURE = 4"
| "exception_code MB_EX_ACKNOWLEDGE = 5"
| "exception_code MB_EX_SLAVE_BUSY = 6"
| "exception_code MB_EX_MEMORY_PARITY_ERROR = 8"
| "exception_code MB_EX_GATEWAY_PATH_FAILED = 0xA"
| "exception_code MB_EX_GATEWAY_TGT_FAILED = 0xB"

text \<open>Bit \<open>i\<close> of a buffer.\<close>

definition bit_at :: "u8 list \<Rightarrow> nat \<Rightarrow> bool" where
  "bit_at buf i = bit (buf ! (i div 8)) (i mod 8)"

section \<open>Bit fields\<close>

text \<open>The 16-bit window over two neighbouring bytes.\<close>

lemma window_bit:
  assumes "j < 16"
  shows "bit (ucast (buf ! k) OR push_bit 8 (ucast (buf ! (k + 1))) :: u16) j = bit_at buf (8 * k + j)"
proof (cases "j < 8")
  case True
  then show ?thesis using assms by (simp add: bit_at_def bit_simps)
next
  case False
  then have "(8 * k + j) div 8 = k + 1" "(8 * k + j) mod 8 = j - 8" using assms by arith+
  then show ?thesis using False assms by (auto simp: bit_at_def bit_simps dest: bit_imp_le_length)
qed

lemma offset_split:
  fixes off :: u16
  shows "unat (off div 8) = unat off div 8" "unat (off - off div 8 * 8) = unat off mod 8"
proof -
  show d: "unat (off div 8) = unat off div 8" by (simp add: unat_div)
  have "off - off div 8 * 8 = off mod 8" by (metis minus_div_mult_eq_mod)
  then show "unat (off - off div 8 * 8) = unat off mod 8" by (simp add: unat_mod)
qed

lemma low_mask: "push_bit n 1 - 1 = (mask n :: u16)"
  by (simp add: mask_eq_exp_minus_1 push_bit_eq_mult)

text \<open>Reading: bit \<open>j\<close> of the result is bit \<open>off + j\<close> of the buffer.\<close>

lemma xMBUtilGetBits_spec:
  assumes "unat off div 8 + 1 < length buf" "n \<le> 8"
  shows "\<exists>v. xMBUtilGetBits buf off n = Some v \<and> (\<forall>j<8. bit v j = (j < unat n \<and> bit_at buf (unat off + j)))"
proof -
  let ?k = "unat off div 8" and ?p = "unat off mod 8"
  define w where "w = (ucast (buf ! ?k) OR push_bit 8 (ucast (buf ! (?k + 1))) :: u16)"
  have "xMBUtilGetBits buf off n = Some (ucast (drop_bit ?p w AND mask (unat n)))"
    unfolding xMBUtilGetBits_def Let_def low_mask offset_split using assms(1) by (simp add: w_def)
  moreover have "bit (ucast (drop_bit ?p w AND mask (unat n)) :: u8) j = (j < unat n \<and> bit_at buf (unat off + j))"
    if "j < 8" for j
  proof -
    have "?p + j < 16" using that by arith
    then have "bit w (?p + j) = bit_at buf (8 * ?k + (?p + j))" unfolding w_def by (rule window_bit)
    moreover have "8 * ?k + (?p + j) = unat off + j" by simp
    ultimately show ?thesis using that by (auto simp: bit_simps)
  qed
  ultimately show ?thesis by blast
qed

lemma bit_at_two_bytes:
  assumes "k + 1 < length buf"
  shows "bit_at (buf[k := ucast (w AND 0xFF), k + 1 := ucast (drop_bit 8 (w :: u16))]) i
    = (if 8 * k \<le> i \<and> i < 8 * k + 16 then bit w (i - 8 * k) else bit_at buf i)"
proof -
  have lo: "(ucast (w AND 0xFF) :: u8) = ucast w" using lo8_ucast [of w] by (simp add: lo8_def)
  consider (low) "i div 8 = k" | (high) "i div 8 = k + 1" | (out) "i div 8 \<noteq> k" "i div 8 \<noteq> k + 1" by blast
  then show ?thesis
  proof cases
    case low
    then have "8 * k \<le> i" "i < 8 * k + 16" "i - 8 * k = i mod 8" "i mod 8 < 8" by arith+
    then show ?thesis using low assms unfolding bit_at_def lo by (simp add: bit_simps)
  next
    case high
    then have "8 * k \<le> i" "i < 8 * k + 16" "i - 8 * k = 8 + i mod 8" "i mod 8 < 8" by arith+
    then show ?thesis using high assms unfolding bit_at_def lo by (auto simp: bit_simps)
  next
    case out
    then have "\<not> (8 * k \<le> i \<and> i < 8 * k + 16)" by arith
    then show ?thesis using out by (auto simp: bit_at_def)
  qed
qed

text \<open>
  Writing: the field takes the value's bits and every other bit stays, provided that the value has
  no bits outside the field.
\<close>

lemma xMBUtilSetBits_spec:
  assumes "unat off div 8 + 1 < length buf" "n \<le> 8" "\<And>j. unat n \<le> j \<Longrightarrow> \<not> bit v j"
  shows "\<exists>buf'. xMBUtilSetBits buf off n v = Some buf' \<and> length buf' = length buf
     \<and> (\<forall>i. bit_at buf' i = (if unat off \<le> i \<and> i < unat off + unat n then bit v (i - unat off) else bit_at buf i))"
proof -
  let ?k = "unat off div 8" and ?p = "unat off mod 8"
  define w where "w = (ucast (buf ! ?k) OR push_bit 8 (ucast (buf ! (?k + 1))) :: u16)"
  define x where "x = (w AND NOT (push_bit ?p (mask (unat n)))) OR push_bit ?p (ucast v)"
  have off: "unat off = 8 * ?k + ?p" by simp
  have p: "?p < 8" by simp
  have n: "unat n \<le> 8" using assms(2) by (simp add: word_le_nat_alt)
  have bx: "bit x j = (if ?p \<le> j \<and> j < ?p + unat n then bit v (j - ?p) else bit w j)" if "j < 16" for j
  proof -
    have "\<not> bit v (j - ?p)" if "\<not> j < ?p + unat n" using that by (intro assms(3)) arith
    then show ?thesis using that n unfolding x_def by (auto simp: bit_simps dest: bit_imp_le_length)
  qed
  have "xMBUtilSetBits buf off n v = Some (buf[?k := ucast (x AND 0xFF), ?k + 1 := ucast (drop_bit 8 x)])"
    unfolding xMBUtilSetBits_def Let_def low_mask offset_split using assms(1,2) by (simp add: w_def x_def)
  moreover have "bit_at (buf[?k := ucast (x AND 0xFF), ?k + 1 := ucast (drop_bit 8 x)]) i
      = (if unat off \<le> i \<and> i < unat off + unat n then bit v (i - unat off) else bit_at buf i)" for i
  proof (cases "8 * ?k \<le> i \<and> i < 8 * ?k + 16")
    case True
    define j where "j = i - 8 * ?k"
    have j: "i = 8 * ?k + j" "j < 16" using True unfolding j_def by linarith+
    have "bit w j = bit_at buf i" unfolding w_def j(1) by (rule window_bit [OF j(2)])
    moreover have "unat off \<le> i \<longleftrightarrow> ?p \<le> j" "i < unat off + unat n \<longleftrightarrow> j < ?p + unat n"
      "i - unat off = j - ?p"
      using off j(1) by linarith+
    moreover have "bit_at (buf[?k := ucast (x AND 0xFF), ?k + 1 := ucast (drop_bit 8 x)]) i = bit x j"
      using True bit_at_two_bytes [OF assms(1), of x i] by (simp only: j_def if_True simp_thms)
    ultimately show ?thesis using bx [OF j(2)] by (simp only:)
  next
    case False
    then have "\<not> (unat off \<le> i \<and> i < unat off + unat n)" using n p off by linarith
    then show ?thesis using False bit_at_two_bytes [OF assms(1), of x i] by auto
  qed
  ultimately show ?thesis by auto
qed

end
