(* ===== verification/MbApp.thy ===== *)
theory MbApp
  imports MbUtil RegMap
begin

text \<open>
  components/net/freemodbus/port/user_mb_app.c: the four data areas of the slave and the callbacks
  through which the protocol stack reads and writes them. A callback gets the part of the frame buffer
  from the pointer \<open>pucRegBuffer\<close> on and returns it updated.
\<close>

section \<open>Definitions\<close>

definition S_DISCRETE_INPUT_START :: nat where "S_DISCRETE_INPUT_START = 0"
definition S_DISCRETE_INPUT_NDISCRETES :: nat where "S_DISCRETE_INPUT_NDISCRETES = 16"
definition S_COIL_START :: nat where "S_COIL_START = 0"
definition S_COIL_NCOILS :: nat where "S_COIL_NCOILS = 64"
definition S_REG_INPUT_START :: nat where "S_REG_INPUT_START = 0"
definition S_REG_INPUT_NREGS :: nat where "S_REG_INPUT_NREGS = 120"
definition S_REG_HOLDING_START :: nat where "S_REG_HOLDING_START = 0"

lemmas area_defs = S_DISCRETE_INPUT_START_def S_DISCRETE_INPUT_NDISCRETES_def S_COIL_START_def
  S_COIL_NCOILS_def S_REG_INPUT_START_def S_REG_INPUT_NREGS_def S_REG_HOLDING_START_def
  S_REG_HOLDING_NREGS_def

record mb_data =
  ucSDiscInBuf :: "u8 list"
  ucSCoilBuf :: "u8 list"
  usSRegInBuf :: "u16 list"
  usSRegHoldBuf :: regs
  ucMBSlaveID :: "u8 list"
  usMBSlaveIDLen :: u16

datatype eMBRegisterMode = MB_REG_READ | MB_REG_WRITE

definition data_ok :: "mb_data \<Rightarrow> bool" where
  "data_ok d \<longleftrightarrow> length (ucSDiscInBuf d) = S_DISCRETE_INPUT_NDISCRETES div 8
     \<and> length (ucSCoilBuf d) = S_COIL_NCOILS div 8
     \<and> length (usSRegInBuf d) = S_REG_INPUT_NREGS
     \<and> regs_ok (usSRegHoldBuf d)
     \<and> length (ucMBSlaveID d) = 32 \<and> unat (usMBSlaveIDLen d) \<le> 32"

subsection \<open>Registers\<close>

text \<open>The read loop: \<open>n\<close> registers from \<open>iRegIndex\<close> on into the buffer from \<open>pos\<close> on.\<close>

primrec put_regs :: "nat \<Rightarrow> u16 list \<Rightarrow> nat \<Rightarrow> u8 list \<Rightarrow> nat \<Rightarrow> u8 list option" where
  "put_regs 0 regs iRegIndex buf pos = Some buf"
| "put_regs (Suc n) regs iRegIndex buf pos = do {
     v \<leftarrow> rd regs iRegIndex;
     buf \<leftarrow> wr buf pos (ucast (drop_bit 8 v));
     buf \<leftarrow> wr buf (pos + 1) (ucast (v AND 0xFF));
     put_regs n regs (iRegIndex + 1) buf (pos + 2)
   }"

text \<open>The write loop, in the other direction.\<close>

primrec get_regs :: "nat \<Rightarrow> u16 list \<Rightarrow> nat \<Rightarrow> u8 list \<Rightarrow> nat \<Rightarrow> u16 list option" where
  "get_regs 0 regs iRegIndex buf pos = Some regs"
| "get_regs (Suc n) regs iRegIndex buf pos = do {
     h \<leftarrow> rd buf pos;
     regs \<leftarrow> wr regs iRegIndex (push_bit 8 (ucast h));
     l \<leftarrow> rd buf (pos + 1);
     v \<leftarrow> rd regs iRegIndex;
     regs \<leftarrow> wr regs iRegIndex (v OR ucast l);
     get_regs n regs (iRegIndex + 1) buf (pos + 2)
   }"

definition eMBRegInputCB ::
  "u8 list \<Rightarrow> u16 \<Rightarrow> u16 \<Rightarrow> mb_data \<Rightarrow> (eMBErrorCode \<times> u8 list) option" where
  "eMBRegInputCB pucRegBuffer usAddress usNRegs d =
     (let usAddress = usAddress - 1
      in if S_REG_INPUT_START \<le> unat usAddress
            \<and> unat usAddress + unat usNRegs \<le> S_REG_INPUT_START + S_REG_INPUT_NREGS
         then do {
           buf \<leftarrow> put_regs (unat usNRegs) (usSRegInBuf d) (unat usAddress - S_REG_INPUT_START) pucRegBuffer 0;
           Some (MB_ENOERR, buf)
         }
         else Some (MB_ENOREG, pucRegBuffer))"

definition eMBRegHoldingCB ::
  "u8 list \<Rightarrow> u16 \<Rightarrow> u16 \<Rightarrow> eMBRegisterMode \<Rightarrow> mb_data \<Rightarrow> (eMBErrorCode \<times> u8 list \<times> mb_data) option" where
  "eMBRegHoldingCB pucRegBuffer usAddress usNRegs eMode d =
     (let usAddress = usAddress - 1
      in if S_REG_HOLDING_START \<le> unat usAddress
            \<and> unat usAddress + unat usNRegs \<le> S_REG_HOLDING_START + S_REG_HOLDING_NREGS
         then (let iRegIndex = unat usAddress - S_REG_HOLDING_START
               in case eMode of
                    MB_REG_READ \<Rightarrow> do {
                      buf \<leftarrow> put_regs (unat usNRegs) (usSRegHoldBuf d) iRegIndex pucRegBuffer 0;
                      Some (MB_ENOERR, buf, d)
                    }
                  | MB_REG_WRITE \<Rightarrow> do {
                      regs \<leftarrow> get_regs (unat usNRegs) (usSRegHoldBuf d) iRegIndex pucRegBuffer 0;
                      Some (MB_ENOERR, pucRegBuffer, d\<lparr>usSRegHoldBuf := regs\<rparr>)
                    })
         else Some (MB_ENOREG, pucRegBuffer, d))"

subsection \<open>Coils and discrete inputs\<close>

text \<open>\<open>while (iNReg > 0) *pucRegBuffer++ = xMBUtilGetBits(&bits[iRegIndex++], iRegBitIndex, 8);\<close>\<close>

primrec put_bits :: "nat \<Rightarrow> u8 list \<Rightarrow> nat \<Rightarrow> u16 \<Rightarrow> u8 list \<Rightarrow> nat \<Rightarrow> u8 list option" where
  "put_bits 0 bits iRegIndex iRegBitIndex buf pos = Some buf"
| "put_bits (Suc n) bits iRegIndex iRegBitIndex buf pos = do {
     v \<leftarrow> xMBUtilGetBits (drop iRegIndex bits) iRegBitIndex 8;
     buf \<leftarrow> wr buf pos v;
     put_bits n bits (iRegIndex + 1) iRegBitIndex buf (pos + 1)
   }"

text \<open>The read branch: the loop, then the unused high bits of the last byte are cleared.\<close>

definition read_bits :: "u8 list \<Rightarrow> nat \<Rightarrow> u16 \<Rightarrow> u8 list \<Rightarrow> u8 list option" where
  "read_bits bits address usNCoils buf = do {
     let iNReg = unat usNCoils div 8 + 1;
     buf \<leftarrow> put_bits iNReg bits (address div 8) (of_nat (address mod 8)) buf 0;
     let rest = unat usNCoils mod 8;
     v \<leftarrow> rd buf (iNReg - 1);
     buf \<leftarrow> wr buf (iNReg - 1) (push_bit (8 - rest) v);
     v \<leftarrow> rd buf (iNReg - 1);
     wr buf (iNReg - 1) (drop_bit (8 - rest) v)
   }"

text \<open>\<open>xMBUtilSetBits(&bits[iRegIndex], iRegBitIndex, n, v)\<close> on the whole buffer.\<close>

definition set_bits_from :: "u8 list \<Rightarrow> nat \<Rightarrow> u16 \<Rightarrow> u8 \<Rightarrow> u8 \<Rightarrow> u8 list option" where
  "set_bits_from bits iRegIndex iRegBitIndex n v = do {
     t \<leftarrow> xMBUtilSetBits (drop iRegIndex bits) iRegBitIndex n v;
     Some (take iRegIndex bits @ t)
   }"

primrec get_bits :: "nat \<Rightarrow> u8 list \<Rightarrow> nat \<Rightarrow> u16 \<Rightarrow> u8 list \<Rightarrow> nat \<Rightarrow> u8 list option" where
  "get_bits 0 bits iRegIndex iRegBitIndex buf pos = Some bits"
| "get_bits (Suc n) bits iRegIndex iRegBitIndex buf pos = do {
     v \<leftarrow> rd buf pos;
     bits \<leftarrow> set_bits_from bits iRegIndex iRegBitIndex 8 v;
     get_bits n bits (iRegIndex + 1) iRegBitIndex buf (pos + 1)
   }"

definition write_bits :: "u8 list \<Rightarrow> nat \<Rightarrow> u16 \<Rightarrow> u8 list \<Rightarrow> u8 list option" where
  "write_bits bits address usNCoils buf = do {
     let full = unat usNCoils div 8;
     bits \<leftarrow> get_bits full bits (address div 8) (of_nat (address mod 8)) buf 0;
     let rest = unat usNCoils mod 8;
     if rest \<noteq> 0 then do {
       v \<leftarrow> rd buf full;
       set_bits_from bits (address div 8 + full) (of_nat (address mod 8)) (of_nat rest) v
     } else Some bits
   }"

definition eMBRegCoilsCB ::
  "u8 list \<Rightarrow> u16 \<Rightarrow> u16 \<Rightarrow> eMBRegisterMode \<Rightarrow> mb_data \<Rightarrow> (eMBErrorCode \<times> u8 list \<times> mb_data) option" where
  "eMBRegCoilsCB pucRegBuffer usAddress usNCoils eMode d =
     (let usAddress = usAddress - 1
      in if S_COIL_START \<le> unat usAddress
            \<and> unat usAddress + unat usNCoils \<le> S_COIL_START + S_COIL_NCOILS
         then (case eMode of
                 MB_REG_READ \<Rightarrow> do {
                   buf \<leftarrow> read_bits (ucSCoilBuf d) (unat usAddress - S_COIL_START) usNCoils pucRegBuffer;
                   Some (MB_ENOERR, buf, d)
                 }
               | MB_REG_WRITE \<Rightarrow> do {
                   bits \<leftarrow> write_bits (ucSCoilBuf d) (unat usAddress - S_COIL_START) usNCoils pucRegBuffer;
                   Some (MB_ENOERR, pucRegBuffer, d\<lparr>ucSCoilBuf := bits\<rparr>)
                 })
         else Some (MB_ENOREG, pucRegBuffer, d))"

definition eMBRegDiscreteCB ::
  "u8 list \<Rightarrow> u16 \<Rightarrow> u16 \<Rightarrow> mb_data \<Rightarrow> (eMBErrorCode \<times> u8 list) option" where
  "eMBRegDiscreteCB pucRegBuffer usAddress usNDiscrete d =
     (let usAddress = usAddress - 1
      in if S_DISCRETE_INPUT_START \<le> unat usAddress
            \<and> unat usAddress + unat usNDiscrete \<le> S_DISCRETE_INPUT_START + S_DISCRETE_INPUT_NDISCRETES
         then do {
           buf \<leftarrow> read_bits (ucSDiscInBuf d) (unat usAddress - S_DISCRETE_INPUT_START) usNDiscrete pucRegBuffer;
           Some (MB_ENOERR, buf)
         }
         else Some (MB_ENOREG, pucRegBuffer))"

text \<open>Registers as the bytes of a frame, high byte first, and back.\<close>

definition regs_bytes :: "u16 list \<Rightarrow> u8 list" where
  "regs_bytes vs = concat (map (\<lambda>v. [hi8 v, lo8 v]) vs)"

fun bytes_regs :: "u8 list \<Rightarrow> u16 list" where
  "bytes_regs (h # l # bs) = mk16 h l # bytes_regs bs"
| "bytes_regs _ = []"

text \<open>Splicing a list into another at a position.\<close>

definition splice_at :: "nat \<Rightarrow> 'a list \<Rightarrow> 'a list \<Rightarrow> 'a list" where
  "splice_at i vs xs = take i xs @ vs @ drop (i + length vs) xs"

text \<open>The holding registers as the host sees them: read or write a block through the callback.\<close>

definition holding_read :: "mb_data \<Rightarrow> nat \<Rightarrow> nat \<Rightarrow> u16 list option" where
  "holding_read d a n = do {
     (e, buf, _) \<leftarrow> eMBRegHoldingCB (replicate (2 * n) 0) (of_nat a + 1) (of_nat n) MB_REG_READ d;
     if e = MB_ENOERR then Some (bytes_regs buf) else None
   }"

definition holding_write :: "mb_data \<Rightarrow> nat \<Rightarrow> u16 list \<Rightarrow> mb_data option" where
  "holding_write d a vs = do {
     (e, _, d) \<leftarrow> eMBRegHoldingCB (regs_bytes vs) (of_nat a + 1) (of_nat (length vs)) MB_REG_WRITE d;
     if e = MB_ENOERR then Some d else None
   }"

section \<open>Registers on the wire\<close>

lemma regs_bytes_simps [simp]:
  "regs_bytes [] = []" "regs_bytes (v # vs) = hi8 v # lo8 v # regs_bytes vs"
  by (simp_all add: regs_bytes_def)

lemma regs_bytes_length [simp]: "length (regs_bytes vs) = 2 * length vs"
  by (induction vs) simp_all

lemma bytes_regs_bytes [simp]: "bytes_regs (regs_bytes vs) = vs"
  by (induction vs) simp_all

lemma bytes_regs_length: "length (bytes_regs bs) = length bs div 2"
  by (induction bs rule: bytes_regs.induct) simp_all

lemma regs_bytes_regs: "even (length bs) \<Longrightarrow> regs_bytes (bytes_regs bs) = bs"
  by (induction bs rule: bytes_regs.induct) simp_all

lemma splice_at_Nil [simp]: "splice_at i [] xs = xs"
  by (simp add: splice_at_def)

lemma splice_at_length [simp]: "i + length vs \<le> length xs \<Longrightarrow> length (splice_at i vs xs) = length xs"
  by (simp add: splice_at_def)

lemma splice_at_Cons:
  "i < length xs \<Longrightarrow> splice_at i (v # vs) xs = splice_at (Suc i) vs (xs[i := v])"
  by (simp add: splice_at_def take_Suc_conv_app_nth)

lemma splice_at_nth:
  "i + length vs \<le> length xs \<Longrightarrow> j < length xs \<Longrightarrow>
   splice_at i vs xs ! j = (if i \<le> j \<and> j < i + length vs then vs ! (j - i) else xs ! j)"
  by (auto simp: splice_at_def nth_append min_def)

lemma put_regs_spec:
  "a + n \<le> length regs \<Longrightarrow> pos + 2 * n \<le> length buf \<Longrightarrow>
   put_regs n regs a buf pos = Some (splice_at pos (regs_bytes (take n (drop a regs))) buf)"
proof (induction n arbitrary: a buf pos)
  case (Suc n)
  have c: "take (Suc n) (drop a regs) = regs ! a # take n (drop (Suc a) regs)"
    using Suc.prems(1) by (metis Cons_nth_drop_Suc add_Suc_right not_less_eq_eq order_trans take_Suc_Cons le_add1 not_le)
  show ?case
    using Suc.prems Suc.IH [of "Suc a" "pos + 2" "buf[pos := hi8 (regs ! a), Suc pos := lo8 (regs ! a)]"]
    by (simp add: c splice_at_Cons hi8_def lo8_def)
qed simp

lemma get_regs_spec:
  "a + n \<le> length regs \<Longrightarrow> pos + 2 * n \<le> length buf \<Longrightarrow>
   get_regs n regs a buf pos = Some (splice_at a (bytes_regs (take (2 * n) (drop pos buf))) regs)"
proof (induction n arbitrary: a regs pos)
  case (Suc n)
  have c: "take (Suc (Suc (2 * n))) (drop pos buf) = buf ! pos # buf ! Suc pos # take (2 * n) (drop (pos + 2) buf)"
  proof -
    have "drop pos buf = buf ! pos # buf ! Suc pos # drop (pos + 2) buf"
      using Suc.prems(2) by (simp add: Cons_nth_drop_Suc)
    then show ?thesis by simp
  qed
  show ?case
    using Suc.prems Suc.IH [of "Suc a" "regs[a := mk16 (buf ! pos) (buf ! Suc pos)]" "pos + 2"]
    by (simp add: c splice_at_Cons mk16_def)
qed simp

section \<open>The register callbacks\<close>

lemma holding_read_ok:
  assumes "data_ok d" "unat (usAddress - 1) + unat n \<le> S_REG_HOLDING_NREGS" "2 * unat n \<le> length buf"
  shows "eMBRegHoldingCB buf usAddress n MB_REG_READ d =
    Some (MB_ENOERR, splice_at 0 (regs_bytes (take (unat n) (drop (unat (usAddress - 1)) (usSRegHoldBuf d)))) buf, d)"
  using assms
  by (simp add: eMBRegHoldingCB_def data_ok_def regs_ok_def S_REG_HOLDING_START_def put_regs_spec)

lemma holding_write_ok:
  assumes "data_ok d" "unat (usAddress - 1) + unat n \<le> S_REG_HOLDING_NREGS" "2 * unat n \<le> length buf"
  shows "eMBRegHoldingCB buf usAddress n MB_REG_WRITE d =
    Some (MB_ENOERR, buf, d\<lparr>usSRegHoldBuf :=
      splice_at (unat (usAddress - 1)) (bytes_regs (take (2 * unat n) buf)) (usSRegHoldBuf d)\<rparr>)"
  using assms
  by (simp add: eMBRegHoldingCB_def data_ok_def regs_ok_def S_REG_HOLDING_START_def get_regs_spec)

lemma holding_out_of_range:
  "\<not> unat (usAddress - 1) + unat n \<le> S_REG_HOLDING_NREGS \<Longrightarrow>
   eMBRegHoldingCB buf usAddress n m d = Some (MB_ENOREG, buf, d)"
  by (simp add: eMBRegHoldingCB_def S_REG_HOLDING_START_def)

lemma input_read_ok:
  assumes "data_ok d" "unat (usAddress - 1) + unat n \<le> S_REG_INPUT_NREGS" "2 * unat n \<le> length buf"
  shows "eMBRegInputCB buf usAddress n d =
    Some (MB_ENOERR, splice_at 0 (regs_bytes (take (unat n) (drop (unat (usAddress - 1)) (usSRegInBuf d)))) buf)"
  using assms by (simp add: eMBRegInputCB_def data_ok_def S_REG_INPUT_START_def put_regs_spec)

lemma input_out_of_range:
  "\<not> unat (usAddress - 1) + unat n \<le> S_REG_INPUT_NREGS \<Longrightarrow>
   eMBRegInputCB buf usAddress n d = Some (MB_ENOREG, buf)"
  by (simp add: eMBRegInputCB_def S_REG_INPUT_START_def)

section \<open>Block access\<close>

text \<open>
  What a host relies on when it reads and writes blocks of registers: a block read returns the
  cells, a block write replaces them.
\<close>

locale register_blocks =
  fixes ok :: "'s \<Rightarrow> bool"
    and cells :: "'s \<Rightarrow> u16 list"
    and rblock :: "'s \<Rightarrow> nat \<Rightarrow> nat \<Rightarrow> u16 list option"
    and wblock :: "'s \<Rightarrow> nat \<Rightarrow> u16 list \<Rightarrow> 's option"
  assumes rblock_cells: "ok s \<Longrightarrow> a + n \<le> length (cells s) \<Longrightarrow> rblock s a n = Some (take n (drop a (cells s)))"
    and wblock_cells: "ok s \<Longrightarrow> a + length vs \<le> length (cells s) \<Longrightarrow>
      \<exists>t. wblock s a vs = Some t \<and> ok t \<and> cells t = splice_at a vs (cells s)"
begin

lemma read_after_write:
  assumes "ok s" "a + length vs \<le> length (cells s)" "wblock s a vs = Some t"
  shows "rblock t a (length vs) = Some vs"
proof -
  have t: "ok t" "cells t = splice_at a vs (cells s)" using wblock_cells [OF assms(1,2)] assms(3) by auto
  have "take (length vs) (drop a (splice_at a vs (cells s))) = vs"
    using assms(2) by (simp add: splice_at_def)
  then show ?thesis using rblock_cells [OF t(1), of a "length vs"] assms(2) t(2) by simp
qed

lemma read_elsewhere:
  assumes "ok s" "a + length vs \<le> length (cells s)" "wblock s a vs = Some t"
    and "b + n \<le> length (cells s)" "b + n \<le> a \<or> a + length vs \<le> b"
  shows "rblock t b n = rblock s b n"
proof -
  have t: "ok t" "cells t = splice_at a vs (cells s)" using wblock_cells [OF assms(1,2)] assms(3) by auto
  have "take n (drop b (splice_at a vs (cells s))) = take n (drop b (cells s))"
    using assms(2,4,5) by (intro nth_equalityI) (auto simp: splice_at_nth)
  then show ?thesis using rblock_cells [OF t(1), of b n] rblock_cells [OF assms(1,4)] assms(2,4) t(2) by simp
qed

end

interpretation holding: register_blocks data_ok usSRegHoldBuf holding_read holding_write
proof unfold_locales
  fix d a n assume d: "data_ok d" and n: "a + n \<le> length (usSRegHoldBuf d)"
  have len: "length (usSRegHoldBuf d) = 3080" using d by (simp add: data_ok_def regs_ok_def layout_defs)
  then have u: "unat (of_nat a :: u16) = a" "unat (of_nat n :: u16) = n" using n by (simp_all add: unat_of_nat)
  show "holding_read d a n = Some (take n (drop a (usSRegHoldBuf d)))"
    using holding_read_ok [OF d, of "of_nat a + 1" "of_nat n" "replicate (2 * n) 0"] n len u
    by (simp add: holding_read_def layout_defs splice_at_def)
next
  fix d a and vs :: "u16 list" assume d: "data_ok d" and n: "a + length vs \<le> length (usSRegHoldBuf d)"
  have len: "length (usSRegHoldBuf d) = 3080" using d by (simp add: data_ok_def regs_ok_def layout_defs)
  then have u: "unat (of_nat a :: u16) = a" "unat (of_nat (length vs) :: u16) = length vs"
    using n by (simp_all add: unat_of_nat)
  have "holding_write d a vs = Some (d\<lparr>usSRegHoldBuf := splice_at a vs (usSRegHoldBuf d)\<rparr>)"
    using holding_write_ok [OF d, of "of_nat a + 1" "of_nat (length vs)" "regs_bytes vs"] n len u
    by (simp add: holding_write_def layout_defs)
  moreover have "data_ok (d\<lparr>usSRegHoldBuf := splice_at a vs (usSRegHoldBuf d)\<rparr>)"
    using d n by (simp add: data_ok_def regs_ok_def)
  ultimately show "\<exists>t. holding_write d a vs = Some t \<and> data_ok t \<and> usSRegHoldBuf t = splice_at a vs (usSRegHoldBuf d)"
    by simp
qed

section \<open>The coil callbacks\<close>

lemma bit_at_drop: "a + i div 8 < length bits \<Longrightarrow> bit_at (drop a bits) i = bit_at bits (8 * a + i)"
  by (simp add: bit_at_def)

lemma bit_at_append:
  "bit_at (take a bits @ t) i = (if i < 8 * a then bit_at bits i else bit_at t (i - 8 * a))"
  if "a \<le> length bits"
proof (cases "i < 8 * a")
  case True
  then have "i div 8 < a" by auto
  then show ?thesis using True that by (simp add: bit_at_def nth_append)
next
  case False
  then obtain j where "i = 8 * a + j" by (metis le_Suc_ex not_less)
  then show ?thesis using that by (simp add: bit_at_def nth_append)
qed

lemma get_bits_at:
  assumes "a + 1 < length bits" "p < 8"
  shows "\<exists>v. xMBUtilGetBits (drop a bits) (of_nat p) 8 = Some v \<and> (\<forall>j<8. bit v j = bit_at bits (8 * a + p + j))"
proof -
  have p: "unat (of_nat p :: u16) = p" using assms(2) by (simp add: unat_of_nat)
  then have l: "unat (of_nat p :: u16) div 8 + 1 < length (drop a bits)" using assms by simp
  obtain v where v: "xMBUtilGetBits (drop a bits) (of_nat p) 8 = Some v"
    "\<forall>j<8. bit v j = (j < 8 \<and> bit_at (drop a bits) (p + j))"
    using xMBUtilGetBits_spec [OF l, of 8] p by auto
  moreover have "bit_at (drop a bits) (p + j) = bit_at bits (8 * a + p + j)" if "j < 8" for j
  proof -
    have "(p + j) div 8 \<le> 1" using assms(2) that by simp
    then show ?thesis using bit_at_drop [of a "p + j" bits] assms(1) by (simp add: add.assoc)
  qed
  ultimately show ?thesis by auto
qed

lemma set_bits_at:
  assumes "a + 1 < length bits" "p < 8" "n \<le> 8" "\<And>j. n \<le> j \<Longrightarrow> \<not> bit v j"
  shows "\<exists>bits'. set_bits_from bits a (of_nat p) (of_nat n) v = Some bits' \<and> length bits' = length bits
     \<and> (\<forall>i. bit_at bits' i = (if 8 * a + p \<le> i \<and> i < 8 * a + p + n then bit v (i - (8 * a + p)) else bit_at bits i))"
proof -
  have u: "unat (of_nat p :: u16) = p" "unat (of_nat n :: u8) = n" "(of_nat n :: u8) \<le> 8"
    using assms(2,3) by (simp_all add: unat_of_nat word_le_nat_alt)
  have l: "unat (of_nat p :: u16) div 8 + 1 < length (drop a bits)" using assms(1,2) u(1) by simp
  obtain t where t: "xMBUtilSetBits (drop a bits) (of_nat p) (of_nat n) v = Some t"
    "length t = length bits - a"
    "\<And>i. bit_at t i = (if p \<le> i \<and> i < p + n then bit v (i - p) else bit_at (drop a bits) i)"
    using xMBUtilSetBits_spec [OF l u(3), of v] assms(4) unfolding u by auto
  have "bit_at (take a bits @ t) i =
      (if 8 * a + p \<le> i \<and> i < 8 * a + p + n then bit v (i - (8 * a + p)) else bit_at bits i)" for i
  proof (cases "i < 8 * a")
    case True
    then show ?thesis using assms(1) by (simp add: bit_at_append)
  next
    case False
    then obtain j where j: "i = 8 * a + j" by (metis le_Suc_ex not_less)
    have "bit_at (drop a bits) j = bit_at bits i" using assms(1) by (simp add: bit_at_def j)
    then show ?thesis using assms(1) t(3) [of j] by (simp add: bit_at_append j)
  qed
  then show ?thesis using t(1,2) assms(1) by (auto simp: set_bits_from_def)
qed

lemma put_bits_spec:
  assumes "a + n < length bits" "pos + n \<le> length buf" "p < 8"
  shows "\<exists>buf'. put_bits n bits a (of_nat p) buf pos = Some buf' \<and> length buf' = length buf
     \<and> (\<forall>i < 8 * n. bit_at buf' (8 * pos + i) = bit_at bits (8 * a + p + i))
     \<and> (\<forall>k. k < pos \<or> pos + n \<le> k \<longrightarrow> buf' ! k = buf ! k)"
  using assms
proof (induction n arbitrary: a buf pos)
  case (Suc n)
  obtain v where v: "xMBUtilGetBits (drop a bits) (of_nat p) 8 = Some v"
    "\<forall>j<8. bit v j = bit_at bits (8 * a + p + j)" using get_bits_at [of a bits p] Suc.prems by auto
  obtain buf' where b: "put_bits n bits (Suc a) (of_nat p) (buf[pos := v]) (Suc pos) = Some buf'"
    "length buf' = length buf" "\<forall>i < 8 * n. bit_at buf' (8 * Suc pos + i) = bit_at bits (8 * Suc a + p + i)"
    "\<forall>k. k < Suc pos \<or> Suc pos + n \<le> k \<longrightarrow> buf' ! k = buf[pos := v] ! k"
    using Suc.IH [of "Suc a" "Suc pos" "buf[pos := v]"] Suc.prems by auto
  have "bit_at buf' (8 * pos + i) = bit_at bits (8 * a + p + i)" if i: "i < 8 * Suc n" for i
  proof (cases "i < 8")
    case True
    have "buf' ! pos = v" using b(4) Suc.prems(2) by simp
    then show ?thesis using True v(2) by (simp add: bit_at_def)
  next
    case False
    then obtain j where "i = 8 + j" by (metis le_Suc_ex not_less)
    then show ?thesis using b(3) i by (simp add: algebra_simps)
  qed
  moreover have "buf' ! k = buf ! k" if "k < pos \<or> pos + Suc n \<le> k" for k using b(4) that by auto
  ultimately show ?case using v(1) b(1,2) Suc.prems by auto
qed simp

lemma get_bits_spec:
  assumes "n = 0 \<or> a + n < length bits" "pos + n \<le> length buf" "p < 8"
  shows "\<exists>bits'. get_bits n bits a (of_nat p) buf pos = Some bits' \<and> length bits' = length bits
     \<and> (\<forall>i. bit_at bits' i = (if 8 * a + p \<le> i \<and> i < 8 * a + p + 8 * n
          then bit_at buf (8 * pos + (i - (8 * a + p))) else bit_at bits i))"
  using assms
proof (induction n arbitrary: a bits pos)
  case (Suc n)
  let ?v = "buf ! pos"
  have hi: "\<not> bit ?v j" if "8 \<le> j" for j using that by (auto dest: bit_imp_le_length)
  obtain b1 where b1: "set_bits_from bits a (of_nat p) 8 ?v = Some b1" "length b1 = length bits"
    "\<And>i. bit_at b1 i = (if 8 * a + p \<le> i \<and> i < 8 * a + p + 8 then bit ?v (i - (8 * a + p)) else bit_at bits i)"
    using set_bits_at [of a bits p 8 ?v] Suc.prems hi by auto
  obtain b2 where b2: "get_bits n b1 (Suc a) (of_nat p) buf (Suc pos) = Some b2" "length b2 = length bits"
    "\<And>i. bit_at b2 i = (if 8 * Suc a + p \<le> i \<and> i < 8 * Suc a + p + 8 * n
        then bit_at buf (8 * Suc pos + (i - (8 * Suc a + p))) else bit_at b1 i)"
    using Suc.IH [of "Suc a" b1 "Suc pos"] Suc.prems b1(2) by auto
  have "bit_at b2 i = (if 8 * a + p \<le> i \<and> i < 8 * a + p + 8 * Suc n
      then bit_at buf (8 * pos + (i - (8 * a + p))) else bit_at bits i)" for i
  proof (cases "8 * a + p \<le> i \<and> i < 8 * a + p + 8 * Suc n")
    case False
    then show ?thesis using b2(3) [of i] b1(3) [of i] by auto
  next
    case True
    then obtain j where j: "i = 8 * a + p + j" by (metis le_Suc_ex)
    show ?thesis
    proof (cases "j < 8")
      case True
      then show ?thesis using b2(3) [of i] b1(3) [of i] by (simp add: j bit_at_def)
    next
      case False
      then obtain k where k: "j = 8 + k" by (metis le_Suc_ex not_less)
      then show ?thesis using True b2(3) [of i] by (simp add: j algebra_simps)
    qed
  qed
  then show ?case using b1(1) b2(1,2) Suc.prems by auto
qed auto

lemma clear_high_bits: "bit (drop_bit (8 - r) (push_bit (8 - r) v)) j = (j < r \<and> bit v j)" if "r \<le> 8" for v :: u8
  using that by (auto simp: bit_simps dest: bit_imp_le_length)

text \<open>A read returns the addressed bits, and zeros in the rest of the last byte it touches.\<close>

lemma read_bits_spec:
  assumes "address div 8 + unat n div 8 + 1 < length bits" "unat n div 8 + 1 \<le> length buf"
  shows "\<exists>buf'. read_bits bits address n buf = Some buf' \<and> length buf' = length buf
     \<and> (\<forall>i < 8 * (unat n div 8 + 1). bit_at buf' i = (i < unat n \<and> bit_at bits (address + i)))
     \<and> (\<forall>k > unat n div 8. buf' ! k = buf ! k)"
proof -
  let ?L = "unat n div 8" and ?r = "unat n mod 8"
  obtain b where b: "put_bits (?L + 1) bits (address div 8) (of_nat (address mod 8)) buf 0 = Some b"
    "length b = length buf"
    "\<forall>i < 8 * (?L + 1). bit_at b (8 * 0 + i) = bit_at bits (8 * (address div 8) + address mod 8 + i)"
    "\<forall>k. k < 0 \<or> 0 + (?L + 1) \<le> k \<longrightarrow> b ! k = buf ! k"
    using put_bits_spec [of "address div 8" "?L + 1" bits 0 buf "address mod 8"] assms by auto
  define c where "c = b[?L := drop_bit (8 - ?r) (push_bit (8 - ?r) (b ! ?L))]"
  have "read_bits bits address n buf = Some c"
    using b(1,2) assms(2) by (simp add: read_bits_def c_def Let_def)
  moreover have "bit_at c i = (i < unat n \<and> bit_at bits (address + i))" if i: "i < 8 * (?L + 1)" for i
  proof (cases "i div 8 = ?L")
    case True
    have "bit_at c i = (i mod 8 < ?r \<and> bit_at b i)"
      using True assms(2) b(2) by (simp add: c_def bit_at_def clear_high_bits)
    moreover have "i mod 8 < ?r \<longleftrightarrow> i < unat n" using True by (metis div_mult_mod_eq nat_add_left_cancel_less)
    ultimately show ?thesis using b(3) i by simp
  next
    case False
    have "i div 8 < ?L" using False i by auto
    then have "i < unat n" by (metis div_le_mono linorder_not_less)
    moreover have "bit_at c i = bit_at b i" using False by (simp add: c_def bit_at_def)
    ultimately show ?thesis using b(3) i by simp
  qed
  moreover have "c ! k = buf ! k" if "?L < k" for k using that b(4) by (simp add: c_def)
  ultimately show ?thesis using b(2) by (auto simp: c_def)
qed

text \<open>A write sets the addressed bits and no others, if the unused bits of its last byte are zero.\<close>

lemma write_bits_spec:
  assumes "address div 8 + (unat n + 7) div 8 < length bits" "(unat n + 7) div 8 \<le> length buf" "0 < unat n"
    and "\<And>i. unat n \<le> i \<Longrightarrow> i < 8 * ((unat n + 7) div 8) \<Longrightarrow> \<not> bit_at buf i"
  shows "\<exists>bits'. write_bits bits address n buf = Some bits' \<and> length bits' = length bits
     \<and> (\<forall>i. bit_at bits' i = (if address \<le> i \<and> i < address + unat n then bit_at buf (i - address) else bit_at bits i))"
proof -
  let ?L = "unat n div 8" and ?r = "unat n mod 8" and ?a = "address div 8" and ?p = "address mod 8"
  have A: "8 * ?a + ?p = address" by simp
  have N: "8 * ?L + ?r = unat n" by simp
  have Q: "8 * (?a + ?L) + ?p = address + 8 * ?L" unfolding distrib_left by simp
  have L: "?L = 0 \<or> ?a + ?L < length bits" "0 + ?L \<le> length buf" "?p < 8" using assms(1,2) by auto
  obtain b where b: "get_bits ?L bits ?a (of_nat ?p) buf 0 = Some b" "length b = length bits"
    "\<And>i. bit_at b i = (if address \<le> i \<and> i < address + 8 * ?L then bit_at buf (i - address) else bit_at bits i)"
    using get_bits_spec [OF L] unfolding A by auto
  show ?thesis
  proof (cases "?r = 0")
    case True
    then show ?thesis using b N by (auto simp: write_bits_def Let_def)
  next
    case False
    have "(m + 7) div 8 = m div 8 + 1" if "m mod 8 \<noteq> 0" for m :: nat using that by presburger
    then have c: "(unat n + 7) div 8 = ?L + 1" using False by blast
    have hi: "\<not> bit (buf ! ?L) j" if "?r \<le> j" for j
    proof (cases "j < 8")
      case True
      then show ?thesis using assms(4) [of "8 * ?L + j"] that c N by (simp add: bit_at_def)
    next
      case False
      then show ?thesis by (auto dest: bit_imp_le_length)
    qed
    obtain b' where b': "set_bits_from b (?a + ?L) (of_nat ?p) (of_nat ?r) (buf ! ?L) = Some b'"
      "length b' = length b"
      "\<And>i. bit_at b' i = (if 8 * (?a + ?L) + ?p \<le> i \<and> i < 8 * (?a + ?L) + ?p + ?r
          then bit (buf ! ?L) (i - (8 * (?a + ?L) + ?p)) else bit_at b i)"
      using set_bits_at [of "?a + ?L" b ?p ?r "buf ! ?L"] assms(1) b(2) c hi by auto
    have "bit_at b' i = (if address \<le> i \<and> i < address + unat n then bit_at buf (i - address) else bit_at bits i)" for i
    proof (cases "address + 8 * ?L \<le> i \<and> i < address + unat n")
      case True
      define j where "j = i - (address + 8 * ?L)"
      have j: "i = address + 8 * ?L + j" "j < ?r" using True N unfolding j_def by linarith+
      have "j < 8" using j(2) by (meson mod_less_divisor less_trans zero_less_numeral)
      then have "bit_at buf (i - address) = bit (buf ! ?L) j" using j(1) by (simp add: bit_at_def)
      then show ?thesis using b'(3) [of i] True j unfolding Q by simp
    next
      case False
      then show ?thesis using b'(3) [of i] b(3) [of i] N unfolding Q by auto
    qed
    then show ?thesis
      using b'(1,2) b(1,2) False assms(2) c by (auto simp: write_bits_def Let_def)
  qed
qed

section \<open>Sizes\<close>

lemma put_regs_length: "put_regs n regs a buf pos = Some buf' \<Longrightarrow> length buf' = length buf"
  by (induction n arbitrary: a buf pos) (auto simp: bind_eq_Some_conv dest!: wr_length)

lemma get_regs_length: "get_regs n regs a buf pos = Some regs' \<Longrightarrow> length regs' = length regs"
  by (induction n arbitrary: a regs pos) (auto simp: bind_eq_Some_conv dest!: wr_length)

lemma put_bits_length: "put_bits n bits a p buf pos = Some buf' \<Longrightarrow> length buf' = length buf"
  by (induction n arbitrary: a buf pos) (auto simp: bind_eq_Some_conv dest!: wr_length)

lemma read_bits_length: "read_bits bits a n buf = Some buf' \<Longrightarrow> length buf' = length buf"
  by (auto simp: read_bits_def bind_eq_Some_conv Let_def dest!: wr_length put_bits_length)

lemma set_bits_from_length: "set_bits_from bits a p n v = Some bits' \<Longrightarrow> length bits' = length bits"
  by (auto simp: set_bits_from_def xMBUtilSetBits_def bind_eq_Some_conv Let_def wr_eq_Some)

lemma get_bits_length: "get_bits n bits a p buf pos = Some bits' \<Longrightarrow> length bits' = length bits"
  by (induction n arbitrary: a bits pos) (auto simp: bind_eq_Some_conv dest!: set_bits_from_length)

lemma write_bits_length: "write_bits bits a n buf = Some bits' \<Longrightarrow> length bits' = length bits"
  by (auto simp: write_bits_def bind_eq_Some_conv Let_def split: if_splits dest!: get_bits_length set_bits_from_length)

lemma eMBRegHoldingCB_keeps:
  "eMBRegHoldingCB buf a n m d = Some (e, buf', d') \<Longrightarrow> length buf' = length buf \<and> (data_ok d \<longrightarrow> data_ok d')"
  by (auto simp: eMBRegHoldingCB_def Let_def bind_eq_Some_conv data_ok_def regs_ok_def
      split: if_splits eMBRegisterMode.splits dest!: put_regs_length get_regs_length)

lemma eMBRegInputCB_keeps: "eMBRegInputCB buf a n d = Some (e, buf') \<Longrightarrow> length buf' = length buf"
  by (auto simp: eMBRegInputCB_def Let_def bind_eq_Some_conv split: if_splits dest!: put_regs_length)

lemma eMBRegCoilsCB_keeps:
  "eMBRegCoilsCB buf a n m d = Some (e, buf', d') \<Longrightarrow> length buf' = length buf \<and> (data_ok d \<longrightarrow> data_ok d')"
  by (auto simp: eMBRegCoilsCB_def Let_def bind_eq_Some_conv data_ok_def
      split: if_splits eMBRegisterMode.splits dest!: read_bits_length write_bits_length)

lemma eMBRegDiscreteCB_keeps: "eMBRegDiscreteCB buf a n d = Some (e, buf') \<Longrightarrow> length buf' = length buf"
  by (auto simp: eMBRegDiscreteCB_def Let_def bind_eq_Some_conv split: if_splits dest!: read_bits_length)

section \<open>Accesses behind the buffer\<close>

text \<open>The helpers touch the byte after the one they start in, also when the field does not reach it.\<close>

lemma GetBits_short: "length buf \<le> 1 \<Longrightarrow> xMBUtilGetBits buf p n = None"
  by (auto simp: xMBUtilGetBits_def rd_def Let_def split: bind_splits)

lemma SetBits_short: "length buf \<le> 1 \<Longrightarrow> xMBUtilSetBits buf p n v = None"
  by (auto simp: xMBUtilSetBits_def rd_def Let_def split: bind_splits)

lemma put_bits_overrun: "length bits \<le> a + n \<Longrightarrow> 0 < n \<Longrightarrow> put_bits n bits a p buf pos = None"
proof (induction n arbitrary: a buf pos)
  case (Suc n)
  then show ?case
    by (cases "n = 0") (auto simp: GetBits_short split: bind_splits)
qed simp

end
