(* ===== verification/MbFunc.thy ===== *)
theory MbFunc
  imports MbApp
begin

text \<open>
  components/net/freemodbus/modbus/functions: the ten function handlers of the slave. A handler gets the
  PDU (the frame buffer from the function code on) and its length and returns the exception, the buffer,
  the response length and the data areas.
\<close>

section \<open>Definitions\<close>

definition MB_FUNC_READ_COILS :: u8 where "MB_FUNC_READ_COILS = 1"
definition MB_FUNC_READ_DISCRETE_INPUTS :: u8 where "MB_FUNC_READ_DISCRETE_INPUTS = 2"
definition MB_FUNC_READ_HOLDING_REGISTER :: u8 where "MB_FUNC_READ_HOLDING_REGISTER = 3"
definition MB_FUNC_READ_INPUT_REGISTER :: u8 where "MB_FUNC_READ_INPUT_REGISTER = 4"
definition MB_FUNC_WRITE_SINGLE_COIL :: u8 where "MB_FUNC_WRITE_SINGLE_COIL = 5"
definition MB_FUNC_WRITE_REGISTER :: u8 where "MB_FUNC_WRITE_REGISTER = 6"
definition MB_FUNC_WRITE_MULTIPLE_COILS :: u8 where "MB_FUNC_WRITE_MULTIPLE_COILS = 15"
definition MB_FUNC_WRITE_MULTIPLE_REGISTERS :: u8 where "MB_FUNC_WRITE_MULTIPLE_REGISTERS = 16"
definition MB_FUNC_OTHER_REPORT_SLAVEID :: u8 where "MB_FUNC_OTHER_REPORT_SLAVEID = 17"
definition MB_FUNC_READWRITE_MULTIPLE_REGISTERS :: u8 where "MB_FUNC_READWRITE_MULTIPLE_REGISTERS = 23"
definition MB_FUNC_ERROR :: u8 where "MB_FUNC_ERROR = 128"

lemmas func_codes = MB_FUNC_READ_COILS_def MB_FUNC_READ_DISCRETE_INPUTS_def
  MB_FUNC_READ_HOLDING_REGISTER_def MB_FUNC_READ_INPUT_REGISTER_def MB_FUNC_WRITE_SINGLE_COIL_def
  MB_FUNC_WRITE_REGISTER_def MB_FUNC_WRITE_MULTIPLE_COILS_def MB_FUNC_WRITE_MULTIPLE_REGISTERS_def
  MB_FUNC_OTHER_REPORT_SLAVEID_def MB_FUNC_READWRITE_MULTIPLE_REGISTERS_def MB_FUNC_ERROR_def

definition MB_PDU_SIZE_MIN :: nat where "MB_PDU_SIZE_MIN = 1"
definition MB_PDU_FUNC_OFF :: nat where "MB_PDU_FUNC_OFF = 0"
definition MB_PDU_DATA_OFF :: nat where "MB_PDU_DATA_OFF = 1"
definition MB_PDU_FUNC_READ_SIZE :: nat where "MB_PDU_FUNC_READ_SIZE = 4"
definition MB_PDU_FUNC_WRITE_SIZE :: nat where "MB_PDU_FUNC_WRITE_SIZE = 4"
definition MB_PDU_FUNC_WRITE_MUL_SIZE_MIN :: nat where "MB_PDU_FUNC_WRITE_MUL_SIZE_MIN = 5"
definition MB_PDU_FUNC_READWRITE_SIZE_MIN :: nat where "MB_PDU_FUNC_READWRITE_SIZE_MIN = 9"
definition MB_PDU_FUNC_READ_REGCNT_MAX :: u16 where "MB_PDU_FUNC_READ_REGCNT_MAX = 0x7D"
definition MB_PDU_FUNC_WRITE_MUL_REGCNT_MAX :: u16 where "MB_PDU_FUNC_WRITE_MUL_REGCNT_MAX = 0x78"
definition MB_PDU_FUNC_READ_COILCNT_MAX :: u16 where "MB_PDU_FUNC_READ_COILCNT_MAX = 0x7D0"
definition MB_PDU_FUNC_WRITE_MUL_COILCNT_MAX :: u16 where "MB_PDU_FUNC_WRITE_MUL_COILCNT_MAX = 0x7B0"
definition MB_PDU_FUNC_READ_DISCCNT_MAX :: u16 where "MB_PDU_FUNC_READ_DISCCNT_MAX = 0x7D0"
definition MB_FUNC_OTHER_REP_SLAVEID_BUF :: nat where "MB_FUNC_OTHER_REP_SLAVEID_BUF = 32"

lemmas pdu_defs = MB_PDU_SIZE_MIN_def MB_PDU_FUNC_OFF_def MB_PDU_DATA_OFF_def MB_PDU_FUNC_READ_SIZE_def
  MB_PDU_FUNC_WRITE_SIZE_def MB_PDU_FUNC_WRITE_MUL_SIZE_MIN_def MB_PDU_FUNC_READWRITE_SIZE_MIN_def
  MB_PDU_FUNC_READ_REGCNT_MAX_def MB_PDU_FUNC_WRITE_MUL_REGCNT_MAX_def MB_PDU_FUNC_READ_COILCNT_MAX_def
  MB_PDU_FUNC_WRITE_MUL_COILCNT_MAX_def MB_PDU_FUNC_READ_DISCCNT_MAX_def MB_FUNC_OTHER_REP_SLAVEID_BUF_def

type_synonym mb_reply = "eMBException \<times> u8 list \<times> u16 \<times> mb_data"

text \<open>\<open>(USHORT)(pucFrame[off] << 8) | pucFrame[off + 1]\<close>\<close>

definition rd_be16 :: "u8 list \<Rightarrow> nat \<Rightarrow> u16 option" where
  "rd_be16 pucFrame off = do { h \<leftarrow> rd pucFrame off; l \<leftarrow> rd pucFrame (off + 1); Some (mk16 h l) }"

subsection \<open>Holding registers\<close>

definition eMBFuncWriteHoldingRegister :: "u8 list \<Rightarrow> u16 \<Rightarrow> mb_data \<Rightarrow> mb_reply option" where
  "eMBFuncWriteHoldingRegister pucFrame usLen d =
     (if unat usLen = MB_PDU_FUNC_WRITE_SIZE + MB_PDU_SIZE_MIN then do {
        usRegAddress \<leftarrow> rd_be16 pucFrame MB_PDU_DATA_OFF;
        let usRegAddress = usRegAddress + 1;
        (eRegStatus, buf, d) \<leftarrow>
          eMBRegHoldingCB (drop (MB_PDU_DATA_OFF + 2) pucFrame) usRegAddress 1 MB_REG_WRITE d;
        let pucFrame = take (MB_PDU_DATA_OFF + 2) pucFrame @ buf;
        if eRegStatus \<noteq> MB_ENOERR then Some (prveMBError2Exception eRegStatus, pucFrame, usLen, d)
        else Some (MB_EX_NONE, pucFrame, usLen, d)
      } else Some (MB_EX_ILLEGAL_DATA_VALUE, pucFrame, usLen, d))"

definition eMBFuncWriteMultipleHoldingRegister :: "u8 list \<Rightarrow> u16 \<Rightarrow> mb_data \<Rightarrow> mb_reply option" where
  "eMBFuncWriteMultipleHoldingRegister pucFrame usLen d =
     (if unat usLen \<ge> MB_PDU_FUNC_WRITE_MUL_SIZE_MIN + MB_PDU_SIZE_MIN then do {
        usRegAddress \<leftarrow> rd_be16 pucFrame MB_PDU_DATA_OFF;
        let usRegAddress = usRegAddress + 1;
        usRegCount \<leftarrow> rd_be16 pucFrame (MB_PDU_DATA_OFF + 2);
        ucRegByteCount \<leftarrow> rd pucFrame (MB_PDU_DATA_OFF + 4);
        if usRegCount \<ge> 1 \<and> usRegCount \<le> MB_PDU_FUNC_WRITE_MUL_REGCNT_MAX
           \<and> ucRegByteCount = ucast (2 * usRegCount) then do {
          (eRegStatus, buf, d) \<leftarrow>
            eMBRegHoldingCB (drop (MB_PDU_DATA_OFF + 5) pucFrame) usRegAddress usRegCount MB_REG_WRITE d;
          let pucFrame = take (MB_PDU_DATA_OFF + 5) pucFrame @ buf;
          if eRegStatus \<noteq> MB_ENOERR then Some (prveMBError2Exception eRegStatus, pucFrame, usLen, d)
          else Some (MB_EX_NONE, pucFrame, of_nat (MB_PDU_DATA_OFF + 4), d)
        } else Some (MB_EX_ILLEGAL_DATA_VALUE, pucFrame, usLen, d)
      } else Some (MB_EX_ILLEGAL_DATA_VALUE, pucFrame, usLen, d))"

text \<open>
  The start of every read response: function code and byte count, in place of the first two bytes of
  the request.
\<close>

definition begin_response :: "u8 list \<Rightarrow> u8 \<Rightarrow> u8 \<Rightarrow> u8 list option" where
  "begin_response pucFrame code cnt = do {
     pucFrame \<leftarrow> wr pucFrame MB_PDU_FUNC_OFF code;
     wr pucFrame (MB_PDU_FUNC_OFF + 1) cnt
   }"

definition eMBFuncReadHoldingRegister :: "u8 list \<Rightarrow> u16 \<Rightarrow> mb_data \<Rightarrow> mb_reply option" where
  "eMBFuncReadHoldingRegister pucFrame usLen d =
     (if unat usLen = MB_PDU_FUNC_READ_SIZE + MB_PDU_SIZE_MIN then do {
        usRegAddress \<leftarrow> rd_be16 pucFrame MB_PDU_DATA_OFF;
        let usRegAddress = usRegAddress + 1;
        usRegCount \<leftarrow> rd_be16 pucFrame (MB_PDU_DATA_OFF + 2);
        if usRegCount \<ge> 1 \<and> usRegCount \<le> MB_PDU_FUNC_READ_REGCNT_MAX then do {
          pucFrame \<leftarrow> begin_response pucFrame MB_FUNC_READ_HOLDING_REGISTER (ucast (usRegCount * 2));
          (eRegStatus, buf, d) \<leftarrow> eMBRegHoldingCB (drop 2 pucFrame) usRegAddress usRegCount MB_REG_READ d;
          let pucFrame = take 2 pucFrame @ buf;
          if eRegStatus \<noteq> MB_ENOERR then Some (prveMBError2Exception eRegStatus, pucFrame, 2, d)
          else Some (MB_EX_NONE, pucFrame, 2 + usRegCount * 2, d)
        } else Some (MB_EX_ILLEGAL_DATA_VALUE, pucFrame, usLen, d)
      } else Some (MB_EX_ILLEGAL_DATA_VALUE, pucFrame, usLen, d))"

definition eMBFuncReadWriteMultipleHoldingRegister :: "u8 list \<Rightarrow> u16 \<Rightarrow> mb_data \<Rightarrow> mb_reply option" where
  "eMBFuncReadWriteMultipleHoldingRegister pucFrame usLen d =
     (if unat usLen \<ge> MB_PDU_FUNC_READWRITE_SIZE_MIN + MB_PDU_SIZE_MIN then do {
        usRegReadAddress \<leftarrow> rd_be16 pucFrame MB_PDU_DATA_OFF;
        let usRegReadAddress = usRegReadAddress + 1;
        usRegReadCount \<leftarrow> rd_be16 pucFrame (MB_PDU_DATA_OFF + 2);
        usRegWriteAddress \<leftarrow> rd_be16 pucFrame (MB_PDU_DATA_OFF + 4);
        let usRegWriteAddress = usRegWriteAddress + 1;
        usRegWriteCount \<leftarrow> rd_be16 pucFrame (MB_PDU_DATA_OFF + 6);
        ucRegWriteByteCount \<leftarrow> rd pucFrame (MB_PDU_DATA_OFF + 8);
        if usRegReadCount \<ge> 1 \<and> usRegReadCount \<le> 0x7D \<and> usRegWriteCount \<ge> 1 \<and> usRegWriteCount \<le> 0x79
           \<and> 2 * unat usRegWriteCount = unat ucRegWriteByteCount then do {
          (eRegStatus, buf, d) \<leftarrow>
            eMBRegHoldingCB (drop (MB_PDU_DATA_OFF + 9) pucFrame) usRegWriteAddress usRegWriteCount MB_REG_WRITE d;
          let pucFrame = take (MB_PDU_DATA_OFF + 9) pucFrame @ buf;
          if eRegStatus = MB_ENOERR then do {
            pucFrame \<leftarrow> begin_response pucFrame MB_FUNC_READWRITE_MULTIPLE_REGISTERS (ucast (usRegReadCount * 2));
            (eRegStatus, buf, d) \<leftarrow> eMBRegHoldingCB (drop 2 pucFrame) usRegReadAddress usRegReadCount MB_REG_READ d;
            let pucFrame = take 2 pucFrame @ buf;
            if eRegStatus = MB_ENOERR then Some (MB_EX_NONE, pucFrame, 2 + 2 * usRegReadCount, d)
            else Some (prveMBError2Exception eRegStatus, pucFrame, 2, d)
          } else Some (prveMBError2Exception eRegStatus, pucFrame, usLen, d)
        } else Some (MB_EX_ILLEGAL_DATA_VALUE, pucFrame, usLen, d)
      } else Some (MB_EX_NONE, pucFrame, usLen, d))"

subsection \<open>Input registers\<close>

definition eMBFuncReadInputRegister :: "u8 list \<Rightarrow> u16 \<Rightarrow> mb_data \<Rightarrow> mb_reply option" where
  "eMBFuncReadInputRegister pucFrame usLen d =
     (if unat usLen = MB_PDU_FUNC_READ_SIZE + MB_PDU_SIZE_MIN then do {
        usRegAddress \<leftarrow> rd_be16 pucFrame MB_PDU_DATA_OFF;
        let usRegAddress = usRegAddress + 1;
        usRegCount \<leftarrow> rd_be16 pucFrame (MB_PDU_DATA_OFF + 2);
        if usRegCount \<ge> 1 \<and> usRegCount < MB_PDU_FUNC_READ_REGCNT_MAX then do {
          pucFrame \<leftarrow> begin_response pucFrame MB_FUNC_READ_INPUT_REGISTER (ucast (usRegCount * 2));
          (eRegStatus, buf) \<leftarrow> eMBRegInputCB (drop 2 pucFrame) usRegAddress usRegCount d;
          let pucFrame = take 2 pucFrame @ buf;
          if eRegStatus \<noteq> MB_ENOERR then Some (prveMBError2Exception eRegStatus, pucFrame, 2, d)
          else Some (MB_EX_NONE, pucFrame, 2 + usRegCount * 2, d)
        } else Some (MB_EX_ILLEGAL_DATA_VALUE, pucFrame, usLen, d)
      } else Some (MB_EX_ILLEGAL_DATA_VALUE, pucFrame, usLen, d))"

subsection \<open>Coils and discrete inputs\<close>

definition bit_bytes :: "u16 \<Rightarrow> u8" where
  "bit_bytes usCoilCount =
     (if usCoilCount AND 0x0007 \<noteq> 0 then ucast (usCoilCount div 8 + 1) else ucast (usCoilCount div 8))"

definition eMBFuncReadCoils :: "u8 list \<Rightarrow> u16 \<Rightarrow> mb_data \<Rightarrow> mb_reply option" where
  "eMBFuncReadCoils pucFrame usLen d =
     (if unat usLen = MB_PDU_FUNC_READ_SIZE + MB_PDU_SIZE_MIN then do {
        usRegAddress \<leftarrow> rd_be16 pucFrame MB_PDU_DATA_OFF;
        let usRegAddress = usRegAddress + 1;
        usCoilCount \<leftarrow> rd_be16 pucFrame (MB_PDU_DATA_OFF + 2);
        if usCoilCount \<ge> 1 \<and> usCoilCount < MB_PDU_FUNC_READ_COILCNT_MAX then do {
          let ucNBytes = bit_bytes usCoilCount;
          pucFrame \<leftarrow> begin_response pucFrame MB_FUNC_READ_COILS ucNBytes;
          (eRegStatus, buf, d) \<leftarrow> eMBRegCoilsCB (drop 2 pucFrame) usRegAddress usCoilCount MB_REG_READ d;
          let pucFrame = take 2 pucFrame @ buf;
          if eRegStatus \<noteq> MB_ENOERR then Some (prveMBError2Exception eRegStatus, pucFrame, 2, d)
          else Some (MB_EX_NONE, pucFrame, 2 + ucast ucNBytes, d)
        } else Some (MB_EX_ILLEGAL_DATA_VALUE, pucFrame, usLen, d)
      } else Some (MB_EX_ILLEGAL_DATA_VALUE, pucFrame, usLen, d))"

definition eMBFuncWriteCoil :: "u8 list \<Rightarrow> u16 \<Rightarrow> mb_data \<Rightarrow> mb_reply option" where
  "eMBFuncWriteCoil pucFrame usLen d =
     (if unat usLen = MB_PDU_FUNC_WRITE_SIZE + MB_PDU_SIZE_MIN then do {
        usRegAddress \<leftarrow> rd_be16 pucFrame MB_PDU_DATA_OFF;
        let usRegAddress = usRegAddress + 1;
        hi \<leftarrow> rd pucFrame (MB_PDU_DATA_OFF + 2);
        lo \<leftarrow> rd pucFrame (MB_PDU_DATA_OFF + 3);
        if lo = 0 \<and> (hi = 0xFF \<or> hi = 0) then do {
          let ucBuf = [if hi = 0xFF then 1 else 0, 0];
          (eRegStatus, _, d) \<leftarrow> eMBRegCoilsCB ucBuf usRegAddress 1 MB_REG_WRITE d;
          if eRegStatus \<noteq> MB_ENOERR then Some (prveMBError2Exception eRegStatus, pucFrame, usLen, d)
          else Some (MB_EX_NONE, pucFrame, usLen, d)
        } else Some (MB_EX_ILLEGAL_DATA_VALUE, pucFrame, usLen, d)
      } else Some (MB_EX_ILLEGAL_DATA_VALUE, pucFrame, usLen, d))"

definition eMBFuncWriteMultipleCoils :: "u8 list \<Rightarrow> u16 \<Rightarrow> mb_data \<Rightarrow> mb_reply option" where
  "eMBFuncWriteMultipleCoils pucFrame usLen d =
     (if unat usLen > MB_PDU_FUNC_WRITE_SIZE + MB_PDU_SIZE_MIN then do {
        usRegAddress \<leftarrow> rd_be16 pucFrame MB_PDU_DATA_OFF;
        let usRegAddress = usRegAddress + 1;
        usCoilCnt \<leftarrow> rd_be16 pucFrame (MB_PDU_DATA_OFF + 2);
        ucByteCount \<leftarrow> rd pucFrame (MB_PDU_DATA_OFF + 4);
        let ucByteCountVerify = bit_bytes usCoilCnt;
        if usCoilCnt \<ge> 1 \<and> usCoilCnt \<le> MB_PDU_FUNC_WRITE_MUL_COILCNT_MAX \<and> ucByteCountVerify = ucByteCount then do {
          (eRegStatus, buf, d) \<leftarrow>
            eMBRegCoilsCB (drop (MB_PDU_DATA_OFF + 5) pucFrame) usRegAddress usCoilCnt MB_REG_WRITE d;
          let pucFrame = take (MB_PDU_DATA_OFF + 5) pucFrame @ buf;
          if eRegStatus \<noteq> MB_ENOERR then Some (prveMBError2Exception eRegStatus, pucFrame, usLen, d)
          else Some (MB_EX_NONE, pucFrame, of_nat (MB_PDU_DATA_OFF + 4), d)
        } else Some (MB_EX_ILLEGAL_DATA_VALUE, pucFrame, usLen, d)
      } else Some (MB_EX_ILLEGAL_DATA_VALUE, pucFrame, usLen, d))"

definition eMBFuncReadDiscreteInputs :: "u8 list \<Rightarrow> u16 \<Rightarrow> mb_data \<Rightarrow> mb_reply option" where
  "eMBFuncReadDiscreteInputs pucFrame usLen d =
     (if unat usLen = MB_PDU_FUNC_READ_SIZE + MB_PDU_SIZE_MIN then do {
        usRegAddress \<leftarrow> rd_be16 pucFrame MB_PDU_DATA_OFF;
        let usRegAddress = usRegAddress + 1;
        usDiscreteCnt \<leftarrow> rd_be16 pucFrame (MB_PDU_DATA_OFF + 2);
        if usDiscreteCnt \<ge> 1 \<and> usDiscreteCnt < MB_PDU_FUNC_READ_DISCCNT_MAX then do {
          let ucNBytes = bit_bytes usDiscreteCnt;
          pucFrame \<leftarrow> begin_response pucFrame MB_FUNC_READ_DISCRETE_INPUTS ucNBytes;
          (eRegStatus, buf) \<leftarrow> eMBRegDiscreteCB (drop 2 pucFrame) usRegAddress usDiscreteCnt d;
          let pucFrame = take 2 pucFrame @ buf;
          if eRegStatus \<noteq> MB_ENOERR then Some (prveMBError2Exception eRegStatus, pucFrame, 2, d)
          else Some (MB_EX_NONE, pucFrame, 2 + ucast ucNBytes, d)
        } else Some (MB_EX_ILLEGAL_DATA_VALUE, pucFrame, usLen, d)
      } else Some (MB_EX_ILLEGAL_DATA_VALUE, pucFrame, usLen, d))"

subsection \<open>Slave identification\<close>

definition memcpy_at :: "'a list \<Rightarrow> nat \<Rightarrow> 'a list \<Rightarrow> nat \<Rightarrow> 'a list option" where
  "memcpy_at dst off src n =
     (if off + n \<le> length dst \<and> n \<le> length src then Some (splice_at off (take n src) dst) else None)"

definition eMBSetSlaveID :: "u8 \<Rightarrow> bool \<Rightarrow> u8 list \<Rightarrow> u16 \<Rightarrow> mb_data \<Rightarrow> (eMBErrorCode \<times> mb_data) option" where
  "eMBSetSlaveID ucSlaveID xIsRunning pucAdditional usAdditionalLen d =
     (if unat usAdditionalLen + 2 < MB_FUNC_OTHER_REP_SLAVEID_BUF then do {
        b \<leftarrow> wr (ucMBSlaveID d) 0 ucSlaveID;
        b \<leftarrow> wr b 1 (if xIsRunning then 0xFF else 0x00);
        if usAdditionalLen > 0 then do {
          b \<leftarrow> memcpy_at b 2 pucAdditional (unat usAdditionalLen);
          Some (MB_ENOERR, d\<lparr>ucMBSlaveID := b, usMBSlaveIDLen := 2 + usAdditionalLen\<rparr>)
        } else Some (MB_ENOERR, d\<lparr>ucMBSlaveID := b, usMBSlaveIDLen := 2\<rparr>)
      } else Some (MB_ENORES, d))"

definition eMBFuncReportSlaveID :: "u8 list \<Rightarrow> u16 \<Rightarrow> mb_data \<Rightarrow> mb_reply option" where
  "eMBFuncReportSlaveID pucFrame usLen d = do {
     pucFrame \<leftarrow> memcpy_at pucFrame MB_PDU_DATA_OFF (ucMBSlaveID d) (unat (usMBSlaveIDLen d));
     Some (MB_EX_NONE, pucFrame, of_nat MB_PDU_DATA_OFF + usMBSlaveIDLen d, d)
   }"

subsection \<open>Requests of a host\<close>

text \<open>The PDU of a write-multiple and of a read request, in a buffer whose other bytes are \<open>rest\<close>.\<close>

definition write_request :: "u16 \<Rightarrow> u16 list \<Rightarrow> u8 list \<Rightarrow> u8 list" where
  "write_request a vs rest =
     [MB_FUNC_WRITE_MULTIPLE_REGISTERS, hi8 a, lo8 a, hi8 (of_nat (length vs)), lo8 (of_nat (length vs)),
      of_nat (2 * length vs)] @ regs_bytes vs @ rest"

definition read_request :: "u8 \<Rightarrow> u16 \<Rightarrow> u16 \<Rightarrow> u8 list \<Rightarrow> u8 list" where
  "read_request code a n rest = [code, hi8 a, lo8 a, hi8 n, lo8 n] @ rest"

definition demo_data :: mb_data where
  "demo_data = \<lparr>ucSDiscInBuf = [0, 0], ucSCoilBuf = [0, 0, 0, 0, 0, 0, 0, 0],
     usSRegInBuf = replicate 120 0, usSRegHoldBuf = replicate 3080 0,
     ucMBSlaveID = replicate 32 0, usMBSlaveIDLen = 0\<rparr>"

section \<open>The contract of a handler\<close>

text \<open>
  The frame buffer behind a PDU pointer has 255 bytes and a PDU at most 253. A handler keeps the
  buffer and the data areas in shape, and its response is a PDU again.
\<close>

locale pdu_handler =
  fixes h :: "u8 list \<Rightarrow> u16 \<Rightarrow> mb_data \<Rightarrow> mb_reply option"
  assumes handler_keeps: "h f n d = Some (e, f', n', d') \<Longrightarrow> length f = 255 \<Longrightarrow> data_ok d \<Longrightarrow> n \<le> 253 \<Longrightarrow>
    length f' = 255 \<and> data_ok d' \<and> n' \<le> 253"
begin

text \<open>With the address byte and the CRC the response still fits the serial buffer.\<close>

lemma response_fits:
  assumes "h f n d = Some (e, f', n', d')" "length f = 255" "data_ok d" "n \<le> 253"
  shows "unat n' + 3 \<le> 256" "unat n' \<le> length f'"
  using handler_keeps [OF assms] by (auto simp: word_le_nat_alt)

end

lemma begin_response_length: "begin_response f c n = Some f' \<Longrightarrow> length f' = length f"
  by (auto simp: begin_response_def bind_eq_Some_conv dest!: wr_length)

lemma count_bound: "n \<le> 125 \<Longrightarrow> 2 + n * 2 \<le> 253" "n \<le> 125 \<Longrightarrow> 2 + 2 * n \<le> 253" for n :: u16
proof -
  assume "n \<le> 125"
  then have "unat n \<le> 125" by (simp add: word_le_nat_alt)
  then have "unat (2 + n * 2) = 2 + unat n * 2" by (simp add: unat_word_ariths)
  then show "2 + n * 2 \<le> 253" using \<open>unat n \<le> 125\<close> by (simp add: word_le_nat_alt)
  then show "2 + 2 * n \<le> 253" by (simp add: mult.commute)
qed

lemma coil_bytes_bound: "n < 2000 \<Longrightarrow> 2 + ucast (bit_bytes n) \<le> (253 :: u16)"
proof -
  assume "n < 2000"
  then have n: "unat n < 2000" by (simp add: word_less_nat_alt)
  have "unat (n div 8 + 1) \<le> 250" "unat (n div 8) \<le> 250"
    using n by (simp_all add: unat_word_ariths unat_div)
  then have "unat (bit_bytes n) \<le> 250" by (auto simp: bit_bytes_def unsigned_ucast_eq take_bit_nat_eq_self)
  then have "unat (2 + ucast (bit_bytes n) :: u16) \<le> 252" by (simp add: unat_word_ariths unsigned_ucast_eq take_bit_nat_eq_self)
  then show ?thesis by (simp add: word_le_nat_alt)
qed

lemmas handler_unfold = bind_eq_Some_conv Let_def pdu_defs

interpretation fWriteHolding: pdu_handler eMBFuncWriteHoldingRegister
  by unfold_locales (auto simp: eMBFuncWriteHoldingRegister_def handler_unfold split: if_splits
      dest!: eMBRegHoldingCB_keeps)

interpretation fWriteMultiple: pdu_handler eMBFuncWriteMultipleHoldingRegister
  by unfold_locales (auto simp: eMBFuncWriteMultipleHoldingRegister_def handler_unfold split: if_splits
      dest!: eMBRegHoldingCB_keeps)

interpretation fReadHolding: pdu_handler eMBFuncReadHoldingRegister
  by unfold_locales (auto simp: eMBFuncReadHoldingRegister_def handler_unfold count_bound split: if_splits
      dest!: eMBRegHoldingCB_keeps begin_response_length)

interpretation fReadWrite: pdu_handler eMBFuncReadWriteMultipleHoldingRegister
  by unfold_locales (auto simp: eMBFuncReadWriteMultipleHoldingRegister_def handler_unfold count_bound split: if_splits
      dest!: eMBRegHoldingCB_keeps begin_response_length)

interpretation fReadInput: pdu_handler eMBFuncReadInputRegister
  by unfold_locales (auto simp: eMBFuncReadInputRegister_def handler_unfold count_bound split: if_splits
      dest!: eMBRegInputCB_keeps begin_response_length)

interpretation fReadCoils: pdu_handler eMBFuncReadCoils
  by unfold_locales (auto simp: eMBFuncReadCoils_def handler_unfold coil_bytes_bound split: if_splits
      dest!: eMBRegCoilsCB_keeps begin_response_length)

interpretation fWriteCoil: pdu_handler eMBFuncWriteCoil
  by unfold_locales (auto simp: eMBFuncWriteCoil_def handler_unfold split: if_splits
      dest!: eMBRegCoilsCB_keeps)

interpretation fWriteCoils: pdu_handler eMBFuncWriteMultipleCoils
  by unfold_locales (auto simp: eMBFuncWriteMultipleCoils_def handler_unfold split: if_splits
      dest!: eMBRegCoilsCB_keeps)

interpretation fReadDiscrete: pdu_handler eMBFuncReadDiscreteInputs
  by unfold_locales (auto simp: eMBFuncReadDiscreteInputs_def handler_unfold coil_bytes_bound split: if_splits
      dest!: eMBRegDiscreteCB_keeps begin_response_length)

lemma slave_id_bound: "unat n \<le> 32 \<Longrightarrow> 1 + n \<le> 253" for n :: u16
proof -
  assume "unat n \<le> 32"
  moreover from this have "unat (1 + n) = 1 + unat n" by (simp add: unat_word_ariths)
  ultimately show ?thesis by (simp add: word_le_nat_alt)
qed

interpretation fReport: pdu_handler eMBFuncReportSlaveID
  by unfold_locales (auto simp: eMBFuncReportSlaveID_def memcpy_at_def handler_unfold slave_id_bound data_ok_def
      split: if_splits)

section \<open>Reading and writing registers\<close>

lemma take_reply: "length bs = k \<Longrightarrow> take (2 + k) ([x, y] @ splice_at 0 bs z) = x # y # bs"
  by (simp add: splice_at_def)

lemma read_holding_valid:
  assumes "data_ok d" "length rest = 250" "1 \<le> n" "n \<le> 125" "unat a + unat n \<le> S_REG_HOLDING_NREGS"
  shows "eMBFuncReadHoldingRegister (read_request MB_FUNC_READ_HOLDING_REGISTER a n rest) 5 d =
    Some (MB_EX_NONE, [MB_FUNC_READ_HOLDING_REGISTER, ucast (n * 2)]
        @ splice_at 0 (regs_bytes (take (unat n) (drop (unat a) (usSRegHoldBuf d)))) (lo8 a # hi8 n # lo8 n # rest),
      2 + n * 2, d)"
proof -
  have "2 * unat n \<le> length (lo8 a # hi8 n # lo8 n # rest)"
    using assms(2,4) by (simp add: word_le_nat_alt)
  moreover have "unat (a + 1 - 1) + unat n \<le> S_REG_HOLDING_NREGS" using assms(5) by simp
  ultimately have cb: "eMBRegHoldingCB (lo8 a # hi8 n # lo8 n # rest) (a + 1) n MB_REG_READ d =
      Some (MB_ENOERR, splice_at 0 (regs_bytes (take (unat n) (drop (unat a) (usSRegHoldBuf d))))
        (lo8 a # hi8 n # lo8 n # rest), d)"
    using holding_read_ok [OF assms(1), of "a + 1" n] by simp
  then show ?thesis
    using assms(3,4) by (simp add: eMBFuncReadHoldingRegister_def read_request_def pdu_defs rd_be16_def
        begin_response_def)
qed

lemma read_holding_invalid:
  assumes "length rest = 250"
  shows "\<not> (1 \<le> n \<and> n \<le> 125) \<Longrightarrow>
      eMBFuncReadHoldingRegister (read_request MB_FUNC_READ_HOLDING_REGISTER a n rest) 5 d =
      Some (MB_EX_ILLEGAL_DATA_VALUE, read_request MB_FUNC_READ_HOLDING_REGISTER a n rest, 5, d)"
    and "1 \<le> n \<Longrightarrow> n \<le> 125 \<Longrightarrow> \<not> unat a + unat n \<le> S_REG_HOLDING_NREGS \<Longrightarrow>
      \<exists>f. eMBFuncReadHoldingRegister (read_request MB_FUNC_READ_HOLDING_REGISTER a n rest) 5 d =
      Some (MB_EX_ILLEGAL_DATA_ADDRESS, f, 2, d)"
proof -
  show "eMBFuncReadHoldingRegister (read_request MB_FUNC_READ_HOLDING_REGISTER a n rest) 5 d =
      Some (MB_EX_ILLEGAL_DATA_VALUE, read_request MB_FUNC_READ_HOLDING_REGISTER a n rest, 5, d)"
    if "\<not> (1 \<le> n \<and> n \<le> 125)"
    using that by (auto simp: eMBFuncReadHoldingRegister_def read_request_def pdu_defs rd_be16_def)
  assume "1 \<le> n" "n \<le> 125" "\<not> unat a + unat n \<le> S_REG_HOLDING_NREGS"
  then show "\<exists>f. eMBFuncReadHoldingRegister (read_request MB_FUNC_READ_HOLDING_REGISTER a n rest) 5 d =
      Some (MB_EX_ILLEGAL_DATA_ADDRESS, f, 2, d)"
    using holding_out_of_range [of "a + 1" n "lo8 a # hi8 n # lo8 n # rest" MB_REG_READ d]
    by (simp add: eMBFuncReadHoldingRegister_def read_request_def pdu_defs rd_be16_def begin_response_def)
qed

lemma write_count_facts:
  assumes "1 \<le> length vs" "length vs \<le> 120"
  shows "1 \<le> (of_nat (length vs) :: u16)" "(of_nat (length vs) :: u16) \<le> 120"
    "unat (of_nat (length vs) :: u16) = length vs"
    "(ucast (2 * of_nat (length vs) :: u16) :: u8) = of_nat (2 * length vs)"
proof -
  show u: "unat (of_nat (length vs) :: u16) = length vs" using assms by (simp add: unat_of_nat)
  then show "1 \<le> (of_nat (length vs) :: u16)" "(of_nat (length vs) :: u16) \<le> 120"
    using assms by (simp_all add: word_le_nat_alt)
  have "unat (2 * of_nat (length vs) :: u16) = 2 * length vs" using assms by (simp add: unat_word_ariths u)
  then show "(ucast (2 * of_nat (length vs) :: u16) :: u8) = of_nat (2 * length vs)"
    by (metis of_nat_unat)
qed

lemma write_multiple_valid:
  assumes "data_ok d" "1 \<le> length vs" "length vs \<le> 120" "unat a + length vs \<le> S_REG_HOLDING_NREGS"
    and "6 \<le> unat l"
  shows "eMBFuncWriteMultipleHoldingRegister (write_request a vs rest) l d =
    Some (MB_EX_NONE, write_request a vs rest, 5,
      d\<lparr>usSRegHoldBuf := splice_at (unat a) vs (usSRegHoldBuf d)\<rparr>)"
proof -
  note c = write_count_facts [OF assms(2,3)]
  have cb: "eMBRegHoldingCB (regs_bytes vs @ rest) (a + 1) (of_nat (length vs)) MB_REG_WRITE d =
      Some (MB_ENOERR, regs_bytes vs @ rest, d\<lparr>usSRegHoldBuf := splice_at (unat a) vs (usSRegHoldBuf d)\<rparr>)"
    using holding_write_ok [OF assms(1), of "a + 1" "of_nat (length vs)" "regs_bytes vs @ rest"] assms(4) c(3)
    by simp
  show ?thesis
    using assms(5) c cb by (simp add: eMBFuncWriteMultipleHoldingRegister_def write_request_def pdu_defs rd_be16_def)
qed

lemma demo_data_ok: "data_ok demo_data"
  by (simp add: data_ok_def demo_data_def area_defs regs_ok_def)

section \<open>Properties\<close>

text \<open>
  C6: a host that writes a block of up to 120 registers inside the table gets the request echoed, the
  table holds exactly the new values in that block and the old ones elsewhere, and a read of the block
  returns the values.
\<close>

theorem write_then_read_registers:
  assumes "data_ok d" "1 \<le> length vs" "length vs \<le> 120" "unat a + length vs \<le> S_REG_HOLDING_NREGS"
    and "6 + 2 * length vs + length rest = 255" "length rest' = 250"
  shows "\<exists>d' f. eMBFuncWriteMultipleHoldingRegister (write_request a vs rest) (6 + 2 * of_nat (length vs)) d =
       Some (MB_EX_NONE, write_request a vs rest, 5, d')
     \<and> data_ok d' \<and> usSRegHoldBuf d' = splice_at (unat a) vs (usSRegHoldBuf d)
     \<and> eMBFuncReadHoldingRegister (read_request MB_FUNC_READ_HOLDING_REGISTER a (of_nat (length vs)) rest') 5 d' =
       Some (MB_EX_NONE, f, 2 + of_nat (length vs) * 2, d')
     \<and> take (2 + 2 * length vs) f = MB_FUNC_READ_HOLDING_REGISTER # of_nat (2 * length vs) # regs_bytes vs"
proof -
  let ?d = "d\<lparr>usSRegHoldBuf := splice_at (unat a) vs (usSRegHoldBuf d)\<rparr>"
  note c = write_count_facts [OF assms(2,3)]
  have len: "unat (6 + 2 * of_nat (length vs) :: u16) = 6 + 2 * length vs"
    using assms(3) by (simp add: unat_word_ariths c(3))
  have ok: "data_ok ?d" using assms(1,4) by (simp add: data_ok_def regs_ok_def)
  have w: "eMBFuncWriteMultipleHoldingRegister (write_request a vs rest) (6 + 2 * of_nat (length vs)) d =
      Some (MB_EX_NONE, write_request a vs rest, 5, ?d)"
    by (rule write_multiple_valid [OF assms(1-4)]) (simp add: len)
  have "of_nat (length vs) \<le> (125 :: u16)" using assms(3) c(3) by (simp add: word_le_nat_alt)
  note r = read_holding_valid [OF ok assms(6) c(1) this, of a, unfolded c(3), OF assms(4)]
  have block: "take (length vs) (drop (unat a) (splice_at (unat a) vs (usSRegHoldBuf d))) = vs"
    using assms(1,4) by (simp add: splice_at_def data_ok_def regs_ok_def)
  have r': "eMBFuncReadHoldingRegister (read_request MB_FUNC_READ_HOLDING_REGISTER a (of_nat (length vs)) rest') 5 ?d =
      Some (MB_EX_NONE, [MB_FUNC_READ_HOLDING_REGISTER, ucast (of_nat (length vs) * 2 :: u16)]
        @ splice_at 0 (regs_bytes vs) (lo8 a # hi8 (of_nat (length vs)) # lo8 (of_nat (length vs)) # rest'),
      2 + of_nat (length vs) * 2, ?d)"
    using r by (simp add: block)
  have t: "take (2 + 2 * length vs) ([x, y] @ splice_at 0 (regs_bytes vs) z) = x # y # regs_bytes vs" for x y z
    by (rule take_reply) simp
  show ?thesis
    by (rule exI [of _ ?d], rule exI, intro conjI) (rule w, rule ok, simp, rule r', simp only: t c(4)[unfolded mult.commute [of 2 "of_nat _"]])
qed

theorem write_then_read_registers_witness:
  "\<exists>d' f. eMBFuncWriteMultipleHoldingRegister (write_request 5 [7, 0x1234] (replicate 245 0)) 10 demo_data =
       Some (MB_EX_NONE, write_request 5 [7, 0x1234] (replicate 245 0), 5, d')
     \<and> eMBFuncReadHoldingRegister (read_request MB_FUNC_READ_HOLDING_REGISTER 5 2 (replicate 250 0)) 5 d' =
       Some (MB_EX_NONE, f, 6, d')
     \<and> take 6 f = [MB_FUNC_READ_HOLDING_REGISTER, 4, 0, 7, 0x12, 0x34]"
proof -
  have b: "hi8 7 = 0" "lo8 7 = 7" "hi8 0x1234 = 0x12" "lo8 0x1234 = 0x34" by code_simp+
  show ?thesis
    using write_then_read_registers [OF demo_data_ok, of "[7, 0x1234]" 5 "replicate 245 0" "replicate 250 0"]
    by (auto simp: S_REG_HOLDING_NREGS_def b)
qed

text \<open>
  The reply to a read request is decided by its count and its address: a count outside 1..125 is an
  illegal data value, a block that leaves the table is an illegal data address, and otherwise the
  reply carries the registers. No request changes a register.
\<close>

lemma read_registers_reply:
  assumes "data_ok d" "length rest = 250"
  shows "\<exists>e f l. eMBFuncReadHoldingRegister (read_request MB_FUNC_READ_HOLDING_REGISTER a n rest) 5 d = Some (e, f, l, d)
     \<and> e = (if \<not> (1 \<le> n \<and> n \<le> 125) then MB_EX_ILLEGAL_DATA_VALUE
            else if S_REG_HOLDING_NREGS < unat a + unat n then MB_EX_ILLEGAL_DATA_ADDRESS
            else MB_EX_NONE)
     \<and> (e = MB_EX_NONE \<longrightarrow> take (2 + 2 * unat n) f = MB_FUNC_READ_HOLDING_REGISTER # ucast (n * 2)
            # regs_bytes (take (unat n) (drop (unat a) (usSRegHoldBuf d))))"
proof (cases "1 \<le> n \<and> n \<le> 125 \<and> unat a + unat n \<le> S_REG_HOLDING_NREGS")
  case True
  have len: "length (regs_bytes (take (unat n) (drop (unat a) (usSRegHoldBuf d)))) = 2 * unat n"
    using True assms(1) by (auto simp: data_ok_def regs_ok_def min_def)
  have "1 \<le> n" "n \<le> 125" "unat a + unat n \<le> S_REG_HOLDING_NREGS" using True by simp_all
  note read_holding_valid [OF assms this]
  moreover note take_reply [OF len]
  ultimately show ?thesis using True by (intro exI conjI) (assumption | simp)+
next
  case False
  then show ?thesis
  proof (cases "1 \<le> n \<and> n \<le> 125")
    case True
    then have "1 \<le> n" "n \<le> 125" and out: "\<not> unat a + unat n \<le> S_REG_HOLDING_NREGS" using False by blast+
    then obtain f where "eMBFuncReadHoldingRegister (read_request MB_FUNC_READ_HOLDING_REGISTER a n rest) 5 d =
        Some (MB_EX_ILLEGAL_DATA_ADDRESS, f, 2, d)"
      using read_holding_invalid(2) [OF assms(2)] by blast
    then show ?thesis using True out by (intro exI conjI) (assumption | simp)+
  next
    case False
    then show ?thesis
      using read_holding_invalid(1) [OF assms(2) False] by (intro exI conjI) (assumption | simp)+
  qed
qed

text \<open>
  C14: whatever bytes and length arrive, the register write handler returns, and when it answers with an
  exception no register has changed.
\<close>

theorem rejected_write_changes_nothing:
  assumes "data_ok d" "length f = 255"
  shows "\<exists>e f' n' d'. eMBFuncWriteMultipleHoldingRegister f n d = Some (e, f', n', d') \<and> data_ok d'
     \<and> (e \<noteq> MB_EX_NONE \<longrightarrow> d' = d)"
proof -
  define a c where "a = mk16 (f ! 1) (f ! 2)" and "c = mk16 (f ! 3) (f ! 4)"
  show ?thesis
  proof (cases "6 \<le> unat n \<and> 1 \<le> c \<and> c \<le> 120 \<and> f ! 5 = ucast (2 * c)")
    case False
    then show ?thesis
      using assms by (auto simp: eMBFuncWriteMultipleHoldingRegister_def pdu_defs rd_be16_def a_def c_def numeral_eq_Suc)
  next
    case True
    then have c: "unat c \<le> 120" by (simp add: word_le_nat_alt)
    show ?thesis
    proof (cases "unat a + unat c \<le> S_REG_HOLDING_NREGS")
      case False
      then have "eMBRegHoldingCB (drop 6 f) (a + 1) c MB_REG_WRITE d = Some (MB_ENOREG, drop 6 f, d)"
        by (intro holding_out_of_range) simp
      then show ?thesis
        using True assms by (auto simp: eMBFuncWriteMultipleHoldingRegister_def pdu_defs rd_be16_def a_def c_def numeral_eq_Suc)
    next
      case ok: True
      then obtain d' where cb: "eMBRegHoldingCB (drop 6 f) (a + 1) c MB_REG_WRITE d = Some (MB_ENOERR, drop 6 f, d')"
        using holding_write_ok [OF assms(1), of "a + 1" c "drop 6 f"] c assms(2) by simp
      then have "data_ok d'" using eMBRegHoldingCB_keeps assms(1) by blast
      then show ?thesis
        using True cb assms by (auto simp: eMBFuncWriteMultipleHoldingRegister_def pdu_defs rd_be16_def a_def c_def numeral_eq_Suc)
    qed
  qed
qed

theorem rejected_write_changes_nothing_witness:
  "\<exists>e f' n' d'. eMBFuncWriteMultipleHoldingRegister (replicate 255 0) 9 demo_data = Some (e, f', n', d') \<and> data_ok d'
     \<and> (e \<noteq> MB_EX_NONE \<longrightarrow> d' = demo_data)"
  by (rule rejected_write_changes_nothing [OF demo_data_ok]) simp

text \<open>
  Writing the last eight coils, a legal request, makes the slave access the byte behind its coil
  buffer: the bit-field helper always touches two bytes. Reading all 64 coils does the same.
\<close>

lemma last_coils_overrun:
  assumes "data_ok d"
  shows "eMBFuncWriteMultipleCoils ([MB_FUNC_WRITE_MULTIPLE_COILS, 0, 56, 0, 8, 1, v] @ rest) 7 d = None
     \<and> eMBFuncReadCoils ([MB_FUNC_READ_COILS, 0, 0, 0, 64] @ rest) 5 d = None"
proof -
  have len: "length (ucSCoilBuf d) = 8" using assms by (simp add: data_ok_def area_defs)
  have m: "mk16 0 56 = 56" "mk16 0 8 = 8" "mk16 0 0 = 0" "mk16 0 64 = 64" "bit_bytes 8 = 1" "bit_bytes 64 = 8"
    by code_simp+
  have w: "eMBFuncWriteMultipleCoils ([MB_FUNC_WRITE_MULTIPLE_COILS, 0, 56, 0, 8, 1, v] @ rest) 7 d = None"
    by (simp add: eMBFuncWriteMultipleCoils_def pdu_defs rd_be16_def m eMBRegCoilsCB_def area_defs
        write_bits_def set_bits_from_def SetBits_short len)
  have g: "put_bits 9 (ucSCoilBuf d) 0 0 buf 0 = None" for buf
    by (rule put_bits_overrun) (simp_all add: len)
  have "eMBFuncReadCoils ([MB_FUNC_READ_COILS, 0, 0, 0, 64] @ rest) 5 d = None"
    by (simp add: eMBFuncReadCoils_def pdu_defs rd_be16_def m eMBRegCoilsCB_def area_defs
        begin_response_def read_bits_def g)
  with w show ?thesis by blast
qed

text \<open>
  The unused bits of a coil write are not masked: a request for coil 0 alone whose data byte has
  its next bit set also switches coil 1.
\<close>

lemma coil_write_pollutes_neighbour:
  assumes "ucSCoilBuf d = [0, 0, 0, 0, 0, 0, 0, 0]"
  shows "eMBFuncWriteMultipleCoils ([MB_FUNC_WRITE_MULTIPLE_COILS, 0, 0, 0, 1, 1, 2] @ rest) 7 d =
    Some (MB_EX_NONE, [MB_FUNC_WRITE_MULTIPLE_COILS, 0, 0, 0, 1, 1, 2] @ rest, 5,
      d\<lparr>ucSCoilBuf := [2, 0, 0, 0, 0, 0, 0, 0]\<rparr>)"
proof -
  have m: "mk16 0 0 = 0" "mk16 0 1 = 1" "bit_bytes 1 = 1" by code_simp+
  have "write_bits [0, 0, 0, 0, 0, 0, 0, 0] 0 1 (2 # rest) = Some [2, 0, 0, 0, 0, 0, 0, 0]"
    by (simp add: write_bits_def set_bits_from_def xMBUtilSetBits_def)
  then show ?thesis
    using assms by (simp add: eMBFuncWriteMultipleCoils_def pdu_defs rd_be16_def m eMBRegCoilsCB_def area_defs)
qed

end
