(* ===== verification/MbCrc.thy ===== *)
theory MbCrc
  imports Prelude
begin

text \<open>
  components/net/freemodbus/modbus/rtu/mbcrc.c: the table-driven CRC-16 of Modbus RTU. It computes the
  bit-serial CRC with the reflected polynomial \<open>0xA001\<close>, a frame followed by its CRC has CRC zero and no
  other trailer does that, and changing any one byte of a frame changes the CRC.
\<close>

section \<open>Definitions\<close>

definition aucCRCHi :: "u8 list" where
  "aucCRCHi =
     [0x00, 0xC1, 0x81, 0x40, 0x01, 0xC0, 0x80, 0x41, 0x01, 0xC0, 0x80, 0x41, 0x00, 0xC1, 0x81, 0x40,
      0x01, 0xC0, 0x80, 0x41, 0x00, 0xC1, 0x81, 0x40, 0x00, 0xC1, 0x81, 0x40, 0x01, 0xC0, 0x80, 0x41,
      0x01, 0xC0, 0x80, 0x41, 0x00, 0xC1, 0x81, 0x40, 0x00, 0xC1, 0x81, 0x40, 0x01, 0xC0, 0x80, 0x41,
      0x00, 0xC1, 0x81, 0x40, 0x01, 0xC0, 0x80, 0x41, 0x01, 0xC0, 0x80, 0x41, 0x00, 0xC1, 0x81, 0x40,
      0x01, 0xC0, 0x80, 0x41, 0x00, 0xC1, 0x81, 0x40, 0x00, 0xC1, 0x81, 0x40, 0x01, 0xC0, 0x80, 0x41,
      0x00, 0xC1, 0x81, 0x40, 0x01, 0xC0, 0x80, 0x41, 0x01, 0xC0, 0x80, 0x41, 0x00, 0xC1, 0x81, 0x40,
      0x00, 0xC1, 0x81, 0x40, 0x01, 0xC0, 0x80, 0x41, 0x01, 0xC0, 0x80, 0x41, 0x00, 0xC1, 0x81, 0x40,
      0x01, 0xC0, 0x80, 0x41, 0x00, 0xC1, 0x81, 0x40, 0x00, 0xC1, 0x81, 0x40, 0x01, 0xC0, 0x80, 0x41,
      0x01, 0xC0, 0x80, 0x41, 0x00, 0xC1, 0x81, 0x40, 0x00, 0xC1, 0x81, 0x40, 0x01, 0xC0, 0x80, 0x41,
      0x00, 0xC1, 0x81, 0x40, 0x01, 0xC0, 0x80, 0x41, 0x01, 0xC0, 0x80, 0x41, 0x00, 0xC1, 0x81, 0x40,
      0x00, 0xC1, 0x81, 0x40, 0x01, 0xC0, 0x80, 0x41, 0x01, 0xC0, 0x80, 0x41, 0x00, 0xC1, 0x81, 0x40,
      0x01, 0xC0, 0x80, 0x41, 0x00, 0xC1, 0x81, 0x40, 0x00, 0xC1, 0x81, 0x40, 0x01, 0xC0, 0x80, 0x41,
      0x00, 0xC1, 0x81, 0x40, 0x01, 0xC0, 0x80, 0x41, 0x01, 0xC0, 0x80, 0x41, 0x00, 0xC1, 0x81, 0x40,
      0x01, 0xC0, 0x80, 0x41, 0x00, 0xC1, 0x81, 0x40, 0x00, 0xC1, 0x81, 0x40, 0x01, 0xC0, 0x80, 0x41,
      0x01, 0xC0, 0x80, 0x41, 0x00, 0xC1, 0x81, 0x40, 0x00, 0xC1, 0x81, 0x40, 0x01, 0xC0, 0x80, 0x41,
      0x00, 0xC1, 0x81, 0x40, 0x01, 0xC0, 0x80, 0x41, 0x01, 0xC0, 0x80, 0x41, 0x00, 0xC1, 0x81, 0x40]"

definition aucCRCLo :: "u8 list" where
  "aucCRCLo =
     [0x00, 0xC0, 0xC1, 0x01, 0xC3, 0x03, 0x02, 0xC2, 0xC6, 0x06, 0x07, 0xC7, 0x05, 0xC5, 0xC4, 0x04,
      0xCC, 0x0C, 0x0D, 0xCD, 0x0F, 0xCF, 0xCE, 0x0E, 0x0A, 0xCA, 0xCB, 0x0B, 0xC9, 0x09, 0x08, 0xC8,
      0xD8, 0x18, 0x19, 0xD9, 0x1B, 0xDB, 0xDA, 0x1A, 0x1E, 0xDE, 0xDF, 0x1F, 0xDD, 0x1D, 0x1C, 0xDC,
      0x14, 0xD4, 0xD5, 0x15, 0xD7, 0x17, 0x16, 0xD6, 0xD2, 0x12, 0x13, 0xD3, 0x11, 0xD1, 0xD0, 0x10,
      0xF0, 0x30, 0x31, 0xF1, 0x33, 0xF3, 0xF2, 0x32, 0x36, 0xF6, 0xF7, 0x37, 0xF5, 0x35, 0x34, 0xF4,
      0x3C, 0xFC, 0xFD, 0x3D, 0xFF, 0x3F, 0x3E, 0xFE, 0xFA, 0x3A, 0x3B, 0xFB, 0x39, 0xF9, 0xF8, 0x38,
      0x28, 0xE8, 0xE9, 0x29, 0xEB, 0x2B, 0x2A, 0xEA, 0xEE, 0x2E, 0x2F, 0xEF, 0x2D, 0xED, 0xEC, 0x2C,
      0xE4, 0x24, 0x25, 0xE5, 0x27, 0xE7, 0xE6, 0x26, 0x22, 0xE2, 0xE3, 0x23, 0xE1, 0x21, 0x20, 0xE0,
      0xA0, 0x60, 0x61, 0xA1, 0x63, 0xA3, 0xA2, 0x62, 0x66, 0xA6, 0xA7, 0x67, 0xA5, 0x65, 0x64, 0xA4,
      0x6C, 0xAC, 0xAD, 0x6D, 0xAF, 0x6F, 0x6E, 0xAE, 0xAA, 0x6A, 0x6B, 0xAB, 0x69, 0xA9, 0xA8, 0x68,
      0x78, 0xB8, 0xB9, 0x79, 0xBB, 0x7B, 0x7A, 0xBA, 0xBE, 0x7E, 0x7F, 0xBF, 0x7D, 0xBD, 0xBC, 0x7C,
      0xB4, 0x74, 0x75, 0xB5, 0x77, 0xB7, 0xB6, 0x76, 0x72, 0xB2, 0xB3, 0x73, 0xB1, 0x71, 0x70, 0xB0,
      0x50, 0x90, 0x91, 0x51, 0x93, 0x53, 0x52, 0x92, 0x96, 0x56, 0x57, 0x97, 0x55, 0x95, 0x94, 0x54,
      0x9C, 0x5C, 0x5D, 0x9D, 0x5F, 0x9F, 0x9E, 0x5E, 0x5A, 0x9A, 0x9B, 0x5B, 0x99, 0x59, 0x58, 0x98,
      0x88, 0x48, 0x49, 0x89, 0x4B, 0x8B, 0x8A, 0x4A, 0x4E, 0x8E, 0x8F, 0x4F, 0x8D, 0x4D, 0x4C, 0x8C,
      0x44, 0x84, 0x85, 0x45, 0x87, 0x47, 0x46, 0x86, 0x82, 0x42, 0x43, 0x83, 0x41, 0x81, 0x80, 0x40]"

text \<open>One pass of the loop on the pair \<open>(ucCRCHi, ucCRCLo)\<close>.\<close>

definition crc_pass :: "u8 \<Rightarrow> u8 \<times> u8 \<Rightarrow> u8 \<times> u8" where
  "crc_pass b = (\<lambda>(ucCRCHi, ucCRCLo).
     let iIndex = unat (ucCRCLo XOR b) in (aucCRCLo ! iIndex, ucCRCHi XOR aucCRCHi ! iIndex))"

definition usMBCRC16 :: "u8 list \<Rightarrow> u16 \<Rightarrow> u16 option" where
  "usMBCRC16 pucFrame usLen = do {
     (ucCRCHi, ucCRCLo) \<leftarrow> foldM (\<lambda>i s. do { b \<leftarrow> rd pucFrame i; Some (crc_pass b s) })
        [0..<unat usLen] (0xFF, 0xFF);
     Some (mk16 ucCRCHi ucCRCLo)
   }"

text \<open>The specification: shift right, and subtract the polynomial when a one falls out.\<close>

definition crc_bit :: "u16 \<Rightarrow> u16" where
  "crc_bit c = (if bit c 0 then drop_bit 1 c XOR 0xA001 else drop_bit 1 c)"

definition crc_byte :: "u8 \<Rightarrow> u16 \<Rightarrow> u16" where
  "crc_byte b c = (crc_bit ^^ 8) (c XOR ucast b)"

definition crc_ref :: "u8 list \<Rightarrow> u16" where
  "crc_ref bs = fold crc_byte bs 0xFFFF"

text \<open>All sums of a list of basis vectors, in the order of the binary numbers that select them.\<close>

primrec xor_span :: "u8 list \<Rightarrow> u8 list" where
  "xor_span [] = [0]"
| "xor_span (v # vs) = (let t = xor_span vs in t @ map (\<lambda>x. v XOR x) t)"

section \<open>The tables\<close>

lemma crc_tables_length: "length aucCRCHi = 256" "length aucCRCLo = 256"
  by (simp_all add: aucCRCHi_def aucCRCLo_def)

lemma crc_bit_xor: "crc_bit (x XOR y) = crc_bit x XOR crc_bit y"
  by (auto simp: crc_bit_def bit_simps intro!: bit_eqI)

lemma crc_bits_xor: "(crc_bit ^^ n) (x XOR y) = (crc_bit ^^ n) x XOR (crc_bit ^^ n) y"
  by (induction n) (simp_all add: crc_bit_xor)

lemma crc_bits_high: "n \<le> 8 \<Longrightarrow> (crc_bit ^^ n) (push_bit 8 (ucast h)) = push_bit (8 - n) (ucast (h :: u8))"
proof (induction n)
  case (Suc n)
  then have "(crc_bit ^^ Suc n) (push_bit 8 (ucast h)) = crc_bit (push_bit (8 - n) (ucast h))" by simp
  also have "\<dots> = drop_bit 1 (push_bit (8 - n) (ucast h))"
    using Suc.prems by (simp add: crc_bit_def bit_simps)
  also have "\<dots> = push_bit (8 - Suc n) (ucast h)"
    using Suc.prems by (intro bit_eqI) (auto simp: bit_simps dest: bit_imp_le_length)
  finally show ?case .
qed simp

lemma mk16_xor: "mk16 a b XOR mk16 c d = mk16 (a XOR c) (b XOR d)"
  unfolding mk16_def by (rule bit_eqI) (auto simp: bit_simps dest: bit_imp_le_length)

lemma crc_bit_zero: "(crc_bit ^^ n) 0 = 0"
  by (induction n) (simp_all add: crc_bit_def)

lemma tables_span:
  "aucCRCHi = xor_span [0x01, 0x01, 0x01, 0x01, 0x01, 0x01, 0x81, 0xC1]"
  "aucCRCLo = xor_span [0xA0, 0xF0, 0xD8, 0xCC, 0xC6, 0xC3, 0xC1, 0xC0]"
  by (simp_all add: aucCRCHi_def aucCRCLo_def)

lemma span_length: "length (xor_span vs) = 2 ^ length vs"
  by (induction vs) (simp_all add: Let_def)

lemma xor_power: "i < 2 ^ k \<Longrightarrow> k < 16 \<Longrightarrow> (of_nat (2 ^ k + i) :: u16) = 2 ^ k XOR of_nat i"
proof -
  assume i: "i < 2 ^ k" and k: "k < 16"
  have "\<not> bit i k" using i by (simp add: bit_iff_odd)
  then have "(2 ^ k :: u16) AND of_nat i = 0"
    using k by (auto intro!: bit_eqI simp: bit_simps)
  then have "(2 ^ k :: u16) + of_nat i = 2 ^ k XOR of_nat i" by (simp add: disjunctive_add_eq_xor)
  then show ?thesis by simp
qed

text \<open>Both tables are linear, so their eight basis entries determine them.\<close>

lemma span_crc:
  assumes "length vs \<le> 8" "length ws = length vs"
    and "\<And>k. k < length vs \<Longrightarrow> (crc_bit ^^ 8) (2 ^ k) = mk16 (rev vs ! k) (rev ws ! k)"
    and "i < 2 ^ length vs"
  shows "(crc_bit ^^ 8) (of_nat i) = mk16 (xor_span vs ! i) (xor_span ws ! i)"
  using assms
proof (induction vs arbitrary: ws i)
  case Nil
  then show ?case by (simp add: crc_bit_zero mk16_def)
next
  case (Cons v vs)
  then obtain w ws' where ws: "ws = w # ws'" "length ws' = length vs" by (cases ws) auto
  have basis: "(crc_bit ^^ 8) (2 ^ k) = mk16 (rev vs ! k) (rev ws' ! k)" if "k < length vs" for k
    using Cons.prems(3) [of k] that ws by (simp add: nth_append)
  have top: "(crc_bit ^^ 8) (2 ^ length vs) = mk16 v w"
    using Cons.prems(3) [of "length vs"] ws by (simp add: nth_append)
  have IH: "(crc_bit ^^ 8) (of_nat j) = mk16 (xor_span vs ! j) (xor_span ws' ! j)" if "j < 2 ^ length vs" for j
    using Cons.IH [of ws' j] Cons.prems(1) ws(2) basis that by simp
  show ?case
  proof (cases "i < 2 ^ length vs")
    case True
    then show ?thesis using IH ws by (simp add: Let_def nth_append span_length)
  next
    case False
    define j where "j = i - 2 ^ length vs"
    have j: "i = 2 ^ length vs + j" "j < 2 ^ length vs" using False Cons.prems(4) by (simp_all add: j_def)
    have "(crc_bit ^^ 8) (of_nat i) = mk16 v w XOR mk16 (xor_span vs ! j) (xor_span ws' ! j)"
    proof -
      have "length vs < 16" using Cons.prems(1) by simp
      then have x: "(of_nat i :: u16) = 2 ^ length vs XOR of_nat j" unfolding j(1) by (rule xor_power [OF j(2)])
      show ?thesis unfolding x crc_bits_xor top IH [OF j(2)] ..
    qed
    then show ?thesis using ws j by (simp add: Let_def nth_append span_length mk16_xor)
  qed
qed

lemma crc_basis:
  "k < 8 \<Longrightarrow> (crc_bit ^^ 8) (2 ^ k) = mk16 (rev [0xA0, 0xF0, 0xD8, 0xCC, 0xC6, 0xC3, 0xC1, 0xC0] ! k)
     (rev [0x01, 0x01, 0x01, 0x01, 0x01, 0x01, 0x81, 0xC1] ! k)"
proof -
  have "\<forall>k\<in>{0, 1, 2, 3, 4, 5, 6, 7}.
      (crc_bit ^^ 8) (2 ^ k) = mk16 (rev [0xA0, 0xF0, 0xD8, 0xCC, 0xC6, 0xC3, 0xC1, 0xC0] ! k)
        (rev [0x01, 0x01, 0x01, 0x01, 0x01, 0x01, 0x81, 0xC1] ! k)"
    by code_simp
  moreover assume "k < 8"
  then have "k \<in> {0, 1, 2, 3, 4, 5, 6, 7}" by auto
  ultimately show ?thesis by blast
qed

lemma crc_table: "(crc_bit ^^ 8) (ucast i) = mk16 (aucCRCLo ! unat i) (aucCRCHi ! unat i)" for i :: u8
proof -
  have "(crc_bit ^^ 8) (of_nat (unat i)) = mk16 (aucCRCLo ! unat i) (aucCRCHi ! unat i)"
    unfolding tables_span by (rule span_crc) (use crc_basis unat_u8_less [of i] in simp_all)
  then show ?thesis by simp
qed

section \<open>One byte\<close>

lemma ucast_mk16: "ucast b = mk16 0 b"
  by (simp add: mk16_def)

lemma push_mk16: "push_bit 8 (ucast h) = mk16 h 0"
  by (simp add: mk16_def)

lemma crc_pass_byte:
  "crc_pass b (h, l) = (h', l') \<Longrightarrow> mk16 h' l' = crc_byte b (mk16 h l)"
proof -
  assume p: "crc_pass b (h, l) = (h', l')"
  have "mk16 h l XOR ucast b = push_bit 8 (ucast h) XOR ucast (l XOR b)"
    unfolding push_mk16 unfolding ucast_mk16 by (simp add: mk16_xor)
  then have "crc_byte b (mk16 h l) = (crc_bit ^^ 8) (push_bit 8 (ucast h)) XOR (crc_bit ^^ 8) (ucast (l XOR b))"
    unfolding crc_byte_def by (simp only: crc_bits_xor)
  also have "\<dots> = mk16 0 h XOR mk16 (aucCRCLo ! unat (l XOR b)) (aucCRCHi ! unat (l XOR b))"
  proof -
    have "(crc_bit ^^ 8) (push_bit 8 (ucast h)) = mk16 0 h"
      using crc_bits_high [of 8 h] by (simp add: ucast_mk16)
    then show ?thesis by (simp only: crc_table)
  qed
  also have "\<dots> = mk16 h' l'" using p by (auto simp: crc_pass_def Let_def mk16_xor)
  finally show ?thesis ..
qed

section \<open>Frames\<close>

lemma crc_loop:
  "k \<le> length bs \<Longrightarrow>
   \<exists>h l. foldM (\<lambda>i s. do { b \<leftarrow> rd bs i; Some (crc_pass b s) }) [0..<k] (0xFF, 0xFF) = Some (h, l)
     \<and> mk16 h l = crc_ref (take k bs)"
proof (induction k)
  case 0
  have "mk16 0xFF 0xFF = 0xFFFF" by code_simp
  then show ?case by (simp add: crc_ref_def)
next
  case (Suc k)
  then obtain h l where IH: "foldM (\<lambda>i s. do { b \<leftarrow> rd bs i; Some (crc_pass b s) }) [0..<k] (0xFF, 0xFF) = Some (h, l)"
    "mk16 h l = crc_ref (take k bs)" by auto
  obtain h' l' where p: "crc_pass (bs ! k) (h, l) = (h', l')" by (cases "crc_pass (bs ! k) (h, l)")
  have "mk16 h' l' = crc_ref (take (Suc k) bs)"
    using crc_pass_byte [OF p] IH(2) Suc.prems by (simp add: crc_ref_def take_Suc_conv_app_nth)
  then show ?case using IH(1) p Suc.prems by (auto simp: foldM_append)
qed

text \<open>The table-driven routine computes the bit-serial CRC of the first \<open>usLen\<close> bytes.\<close>

lemma usMBCRC16_ref:
  assumes "unat n \<le> length bs"
  shows "usMBCRC16 bs n = Some (crc_ref (take (unat n) bs))"
  using crc_loop [OF assms] by (auto simp: usMBCRC16_def)

lemma usMBCRC16_overrun: "length bs < unat n \<Longrightarrow> usMBCRC16 bs n = None"
proof -
  assume n: "length bs < unat n"
  then have "[0..<unat n] = [0..<length bs] @ length bs # [Suc (length bs)..<unat n]"
    by (metis le0 less_imp_le_nat upt_add_eq_append upt_conv_Cons le_add_diff_inverse plus_nat.add_0)
  then show ?thesis by (auto simp: usMBCRC16_def foldM_append rd_def split: bind_splits)
qed

lemma crc_ref_snoc: "crc_ref (bs @ [b]) = crc_byte b (crc_ref bs)"
  by (simp add: crc_ref_def)

lemma crc_byte_mk16:
  "crc_byte b (mk16 h l) = mk16 (aucCRCLo ! unat (l XOR b)) (h XOR aucCRCHi ! unat (l XOR b))"
  using crc_pass_byte [of b h l] by (simp add: crc_pass_def Let_def)

lemma crc_bit_eq_0: "crc_bit z = 0 \<Longrightarrow> z = 0"
proof -
  assume z: "crc_bit z = 0"
  have low: "\<not> bit z 0"
  proof
    assume "bit z 0"
    then have "drop_bit 1 z XOR 0xA001 = 0" using z by (simp add: crc_bit_def)
    then have "bit (drop_bit 1 z XOR 0xA001) 15 = bit (0 :: u16) 15" by simp
    then show False by (auto simp: bit_simps bit_numeral_rec dest: bit_imp_le_length)
  qed
  then have "drop_bit 1 z = 0" using z by (simp add: crc_bit_def)
  then have "\<not> bit z (Suc n)" for n using bit_drop_bit_eq [of 1 z] by (metis bit_0_eq bot_apply bot_bool_def comp_apply plus_1_eq_Suc)
  with low have "\<not> bit z n" for n by (cases n) auto
  then show ?thesis by (auto intro: bit_eqI)
qed

lemma crc_bits_eq_0: "(crc_bit ^^ n) z = 0 \<Longrightarrow> z = 0"
  by (induction n) (auto dest: crc_bit_eq_0)

lemma xor_cancel: "a XOR b = c XOR b \<longleftrightarrow> a = c" "b XOR a = b XOR c \<longleftrightarrow> a = c" for a b c :: "'a :: len word"
  by (auto simp: bit_eq_iff bit_simps)

lemma xor_eq_zero: "a XOR b = 0 \<longleftrightarrow> a = b" for a b :: "'a :: len word"
  by (metis xor.left_neutral xor.assoc xor_self_eq)

text \<open>The low table is a permutation of the bytes.\<close>

lemma aucCRCLo_inj: "aucCRCLo ! unat i = aucCRCLo ! unat j \<longleftrightarrow> i = j" for i j :: u8
proof
  assume "aucCRCLo ! unat i = aucCRCLo ! unat j"
  then obtain x where "(crc_bit ^^ 8) (ucast i XOR ucast j) = mk16 0 x"
    by (simp only: crc_bits_xor crc_table mk16_xor xor_self_eq)
  also have "\<dots> = (crc_bit ^^ 8) (push_bit 8 (ucast x))"
    using crc_bits_high [of 8 x] by (simp add: ucast_mk16)
  finally have "(crc_bit ^^ 8) ((ucast i XOR ucast j) XOR push_bit 8 (ucast x)) = 0"
    by (simp only: crc_bits_xor xor_self_eq)
  then have "mk16 x (i XOR j) = 0"
    using crc_bits_eq_0 unfolding push_mk16 unfolding ucast_mk16 mk16_xor by fastforce
  then show "i = j" using mk16_eq_iff [of x "i XOR j" 0 0] by (simp add: mk16_def xor_eq_zero)
qed simp

lemma aucCRC_zero: "aucCRCLo ! 0 = 0" "aucCRCHi ! 0 = 0"
  by (simp_all add: aucCRCLo_def aucCRCHi_def)

lemma aucCRCLo_eq_0: "aucCRCLo ! unat i = 0 \<longleftrightarrow> i = 0" for i :: u8
  using aucCRCLo_inj [of i 0] by (simp add: aucCRC_zero)

text \<open>The CRC of a frame with a two-byte trailer vanishes for one trailer only.\<close>

lemma crc_trailer: "crc_ref (bs @ [a, b]) = 0 \<longleftrightarrow> a = lo8 (crc_ref bs) \<and> b = hi8 (crc_ref bs)"
proof -
  obtain h l where c: "crc_ref bs = mk16 h l" by (metis mk16_hi8_lo8)
  have two: "crc_ref (bs @ [a, b]) = crc_byte b (crc_byte a (mk16 h l))"
    using crc_ref_snoc [of "bs @ [a]" b] crc_ref_snoc [of bs a] by (simp add: c)
  have z: "mk16 x y = 0 \<longleftrightarrow> x = 0 \<and> y = 0" for x y
    using mk16_eq_iff [of x y 0 0] by (simp add: mk16_def)
  show ?thesis
    unfolding two crc_byte_mk16 z c
    by (auto simp: aucCRCLo_eq_0 xor_eq_zero aucCRC_zero)
qed

lemma crc_byte_inj: "crc_byte b c = crc_byte b d \<Longrightarrow> c = d"
proof -
  assume eq: "crc_byte b c = crc_byte b d"
  obtain h l where c: "c = mk16 h l" by (metis mk16_hi8_lo8)
  obtain h' l' where d: "d = mk16 h' l'" by (metis mk16_hi8_lo8)
  have "l XOR b = l' XOR b" "h XOR aucCRCHi ! unat (l XOR b) = h' XOR aucCRCHi ! unat (l' XOR b)"
    using eq unfolding c d crc_byte_mk16 mk16_eq_iff aucCRCLo_inj by blast+
  then have "l = l'" "h = h'" by (auto simp: xor_cancel)
  then show ?thesis by (simp add: c d)
qed

lemma crc_byte_inj_byte: "crc_byte a c = crc_byte b c \<Longrightarrow> a = b"
proof -
  assume eq: "crc_byte a c = crc_byte b c"
  obtain h l where c: "c = mk16 h l" by (metis mk16_hi8_lo8)
  have "l XOR a = l XOR b" using eq unfolding c crc_byte_mk16 mk16_eq_iff aucCRCLo_inj by simp
  then show ?thesis by (simp add: xor_cancel)
qed

lemma fold_crc_inj: "fold crc_byte bs c = fold crc_byte bs d \<Longrightarrow> c = d"
  by (induction bs arbitrary: c d) (auto dest: crc_byte_inj)

text \<open>Changing one byte changes the CRC.\<close>

lemma crc_detects_byte:
  assumes "i < length bs" "b \<noteq> bs ! i"
  shows "crc_ref (bs[i := b]) \<noteq> crc_ref bs"
proof
  let ?pre = "take i bs" and ?post = "drop (Suc i) bs"
  assume "crc_ref (bs[i := b]) = crc_ref bs"
  moreover have "bs = ?pre @ bs ! i # ?post" using assms(1) by (simp add: id_take_nth_drop)
  moreover have "bs[i := b] = ?pre @ b # ?post" using assms(1) by (simp add: upd_conv_take_nth_drop)
  ultimately have "crc_ref (?pre @ b # ?post) = crc_ref (?pre @ bs ! i # ?post)" by metis
  then have "crc_byte b (crc_ref ?pre) = crc_byte (bs ! i) (crc_ref ?pre)"
    by (auto simp: crc_ref_def dest: fold_crc_inj)
  then show False using crc_byte_inj_byte assms(2) by blast
qed

section \<open>Properties\<close>

text \<open>
  C5: the table-driven CRC routine computes the bit-serial CRC-16 with polynomial \<open>0xA001\<close> and initial
  value \<open>0xFFFF\<close>.
\<close>

theorem table_crc_is_bit_serial_crc:
  assumes "unat usLen \<le> length pucFrame"
  shows "usMBCRC16 pucFrame usLen = Some (fold (\<lambda>b c. (crc_bit ^^ 8) (c XOR ucast b)) (take (unat usLen) pucFrame) 0xFFFF)"
proof -
  have "crc_byte = (\<lambda>b c. (crc_bit ^^ 8) (c XOR ucast b))" by (simp add: fun_eq_iff crc_byte_def)
  then show ?thesis using usMBCRC16_ref [OF assms] by (simp add: crc_ref_def)
qed

theorem table_crc_is_bit_serial_crc_witness:
  "usMBCRC16 [1, 3, 0, 0] 4 = Some (fold (\<lambda>(b :: u8) c. (crc_bit ^^ 8) (c XOR ucast b)) [1, 3, 0, 0] 0xFFFF)"
  using table_crc_is_bit_serial_crc [of 4 "[1, 3, 0, 0]"] by simp

text \<open>
  Over a frame with a two-byte trailer the routine returns zero exactly when the trailer is the
  frame's CRC, low byte first.
\<close>

lemma crc_zero_iff_trailer:
  assumes "length bs + 2 < 65536"
  shows "usMBCRC16 (bs @ [a, b]) (of_nat (length bs + 2)) = Some 0 \<longleftrightarrow>
    (\<exists>c. usMBCRC16 bs (of_nat (length bs)) = Some c \<and> a = lo8 c \<and> b = hi8 c)"
proof -
  have u: "unat (of_nat (length bs + 2) :: u16) = length (bs @ [a, b])"
    "unat (of_nat (length bs) :: u16) = length bs"
  proof -
    have "unat (of_nat m :: u16) = m" if "m < 65536" for m using that by (simp add: unat_of_nat)
    from this [OF assms] this [of "length bs"] assms
    show "unat (of_nat (length bs + 2) :: u16) = length (bs @ [a, b])"
      "unat (of_nat (length bs) :: u16) = length bs" by simp_all
  qed
  show ?thesis
    using usMBCRC16_ref [of "of_nat (length bs + 2)" "bs @ [a, b]"] usMBCRC16_ref [of "of_nat (length bs)" bs] u
    by (simp add: crc_trailer)
qed

end
