(* ===== verification/KEvent.thy ===== *)
theory KEvent
  imports Prelude
begin

text \<open>
  src/ipc.c: the event objects of the RT-Thread kernel, on which the Modbus stack and its serial port
  wait. An event object is a set of flags and the list of threads suspended on it. Resuming a thread
  hands it to the scheduler; here it is the list of resumed waiters that a call returns.
\<close>

section \<open>Definitions\<close>

definition RT_EVENT_FLAG_AND :: u8 where "RT_EVENT_FLAG_AND = 0x01"
definition RT_EVENT_FLAG_OR :: u8 where "RT_EVENT_FLAG_OR = 0x02"
definition RT_EVENT_FLAG_CLEAR :: u8 where "RT_EVENT_FLAG_CLEAR = 0x04"

lemmas event_flags = RT_EVENT_FLAG_AND_def RT_EVENT_FLAG_OR_def RT_EVENT_FLAG_CLEAR_def

record waiter =
  w_thread :: nat
  current_priority :: nat
  event_set :: u32
  event_info :: u8

record rt_event =
  ev_set :: u32
  ev_flag :: ipc_flag
  suspend_thread :: "waiter list"

definition rt_event_init :: "ipc_flag \<Rightarrow> rt_event" where
  "rt_event_init flag = \<lparr>ev_set = 0, ev_flag = flag, suspend_thread = []\<rparr>"

text \<open>The position search of \<open>RT_IPC_FLAG_PRIO\<close>: before the first thread of lower priority.\<close>

primrec insert_prio :: "waiter \<Rightarrow> waiter list \<Rightarrow> waiter list" where
  "insert_prio w [] = [w]"
| "insert_prio w (v # vs) =
     (if current_priority w < current_priority v then w # v # vs else v # insert_prio w vs)"

definition rt_ipc_list_suspend :: "waiter list \<Rightarrow> waiter \<Rightarrow> ipc_flag \<Rightarrow> waiter list" where
  "rt_ipc_list_suspend list thread flag =
     (case flag of RT_IPC_FLAG_FIFO \<Rightarrow> list @ [thread] | RT_IPC_FLAG_PRIO \<Rightarrow> insert_prio thread list)"

text \<open>
  The scan of the suspended threads in \<open>rt_event_send\<close>: the event set that is left, the threads that
  stay suspended and those that are resumed, with the flags they receive.
\<close>

fun event_scan :: "u32 \<Rightarrow> waiter list \<Rightarrow> u32 \<times> waiter list \<times> waiter list" where
  "event_scan s [] = (s, [], [])"
| "event_scan s (thread # n) =
     (let (status, thread) =
        (if event_info thread AND RT_EVENT_FLAG_AND \<noteq> 0 then (event_set thread AND s = event_set thread, thread)
         else if event_info thread AND RT_EVENT_FLAG_OR \<noteq> 0 then
           if event_set thread AND s \<noteq> 0 then (True, thread\<lparr>event_set := event_set thread AND s\<rparr>)
           else (False, thread)
         else (False, thread))
      in if status then
           let s = (if event_info thread AND RT_EVENT_FLAG_CLEAR \<noteq> 0 then s AND NOT (event_set thread) else s);
               (s, stay, resumed) = event_scan s n
           in (s, stay, thread # resumed)
         else let (s, stay, resumed) = event_scan s n in (s, thread # stay, resumed))"

definition rt_event_send :: "rt_event \<Rightarrow> u32 \<Rightarrow> rt_err \<times> rt_event \<times> waiter list" where
  "rt_event_send event evs =
     (if evs = 0 then (RT_ERROR, event, [])
      else let (s, stay, resumed) = event_scan (ev_set event OR evs) (suspend_thread event)
           in (RT_EOK, event\<lparr>ev_set := s, suspend_thread := stay\<rparr>, resumed))"

text \<open>
  \<open>rt_event_recv\<close> up to the point where it returns or where the thread is suspended. A timeout of
  \<open>-1\<close> is \<open>RT_WAITING_FOREVER\<close>. Without an AND or OR option the code asserts.
\<close>

datatype recv_result = Returns rt_err | Received u32 | Suspended

definition rt_event_recv ::
  "rt_event \<Rightarrow> u32 \<Rightarrow> u8 \<Rightarrow> int \<Rightarrow> nat \<Rightarrow> nat \<Rightarrow> (recv_result \<times> rt_event) option" where
  "rt_event_recv event evs opt timeout thread prio =
     (if evs = 0 then Some (Returns RT_ERROR, event)
      else do {
        status \<leftarrow> (if opt AND RT_EVENT_FLAG_AND \<noteq> 0 then Some (ev_set event AND evs = evs)
                   else if opt AND RT_EVENT_FLAG_OR \<noteq> 0 then Some (ev_set event AND evs \<noteq> 0)
                   else None);
        Some (if status then
            (Received (ev_set event AND evs),
             if opt AND RT_EVENT_FLAG_CLEAR \<noteq> 0 then event\<lparr>ev_set := ev_set event AND NOT evs\<rparr> else event)
          else if timeout = 0 then (Returns RT_ETIMEOUT, event)
          else (Suspended, event\<lparr>suspend_thread := rt_ipc_list_suspend (suspend_thread event)
                  \<lparr>w_thread = thread, current_priority = prio, event_set = evs, event_info = opt\<rparr>
                  (ev_flag event)\<rparr>))
      })"

text \<open>\<open>rt_event_control\<close> with \<open>RT_IPC_CMD_RESET\<close>: every waiter is resumed with an error.\<close>

definition rt_event_control_reset :: "rt_event \<Rightarrow> rt_event \<times> waiter list" where
  "rt_event_control_reset event = (event\<lparr>ev_set := 0, suspend_thread := []\<rparr>, suspend_thread event)"

text \<open>The condition a waiter waits for.\<close>

definition ready :: "u32 \<Rightarrow> waiter \<Rightarrow> bool" where
  "ready s w \<longleftrightarrow> (if event_info w AND RT_EVENT_FLAG_AND \<noteq> 0 then event_set w AND s = event_set w
                 else event_info w AND RT_EVENT_FLAG_OR \<noteq> 0 \<and> event_set w AND s \<noteq> 0)"

text \<open>No thread is suspended whose condition holds, and nobody waits for the empty set.\<close>

definition event_ok :: "rt_event \<Rightarrow> bool" where
  "event_ok e \<longleftrightarrow> (\<forall>w \<in> set (suspend_thread e). event_set w \<noteq> 0 \<and> \<not> ready (ev_set e) w)"

text \<open>The order of \<open>RT_IPC_FLAG_PRIO\<close>.\<close>

definition prio_sorted :: "waiter list \<Rightarrow> bool" where
  "prio_sorted ws \<longleftrightarrow> sorted (map current_priority ws)"

text \<open>What a resumed waiter receives, and the set it leaves behind.\<close>

definition woken :: "u32 \<Rightarrow> waiter \<Rightarrow> waiter" where
  "woken s w = (if event_info w AND RT_EVENT_FLAG_AND \<noteq> 0 then w else w\<lparr>event_set := event_set w AND s\<rparr>)"

definition left_by :: "u32 \<Rightarrow> waiter \<Rightarrow> u32" where
  "left_by s w = (if event_info w AND RT_EVENT_FLAG_CLEAR \<noteq> 0 then s AND NOT (event_set (woken s w)) else s)"

section \<open>No missed wake-up\<close>

lemma event_scan_Cons:
  "event_scan s (w # n) =
     (if ready s w then (case event_scan (left_by s w) n of (t, stay, resumed) \<Rightarrow> (t, stay, woken s w # resumed))
      else (case event_scan s n of (t, stay, resumed) \<Rightarrow> (t, w # stay, resumed)))"
  by (auto simp: ready_def woken_def left_by_def Let_def split: prod.split)

declare event_scan.simps(2) [simp del]

lemma and_subset: "a AND b = (a :: u32) \<Longrightarrow> b AND c = b \<Longrightarrow> a AND c = a"
  by (metis and.assoc)

lemma ready_mono:
  assumes "s AND t = s" "ready s w"
  shows "ready t w"
proof -
  have "event_set w AND s = (event_set w AND t) AND s"
    using arg_cong [OF assms(1), of "\<lambda>x. event_set w AND x"] by (simp add: and.assoc and.commute and.left_commute)
  then have "event_set w AND t \<noteq> 0" if "event_set w AND s \<noteq> 0" using that by auto
  then show ?thesis using assms and_subset by (auto simp: ready_def split: if_splits)
qed

lemma left_by_shrinks: "left_by s w AND s = left_by s w"
  by (simp add: left_by_def and.assoc and.commute and.left_commute)

lemma event_scan_shrinks: "event_scan s ws = (s', stay, resumed) \<Longrightarrow> s' AND s = s'"
proof (induction ws arbitrary: s s' stay resumed)
  case (Cons w ws)
  then show ?case
    by (auto simp: event_scan_Cons split: if_splits prod.splits) (metis and_subset left_by_shrinks)+
qed simp

text \<open>Everybody who stays suspended was not ready at his turn, so he is not ready at the end.\<close>

lemma event_scan_stay:
  assumes "event_scan s ws = (s', stay, resumed)"
  shows "set stay \<subseteq> set ws" "w \<in> set stay \<Longrightarrow> \<not> ready s' w"
proof -
  have "set stay \<subseteq> set ws \<and> (\<forall>w \<in> set stay. \<not> ready s' w)"
    using assms
  proof (induction ws arbitrary: s s' stay resumed)
    case (Cons v ws)
    show ?case
    proof (cases "ready s v")
      case True
      then show ?thesis using Cons by (fastforce simp: event_scan_Cons split: prod.splits)
    next
      case False
      then obtain st r where sc: "event_scan s ws = (s', st, r)" "stay = v # st"
        using Cons.prems by (auto simp: event_scan_Cons split: prod.splits)
      have "\<not> ready s' v" using False ready_mono [OF event_scan_shrinks [OF sc(1)]] by blast
      then show ?thesis using Cons.IH [OF sc(1)] sc(2) by auto
    qed
  qed simp
  then show "set stay \<subseteq> set ws" "w \<in> set stay \<Longrightarrow> \<not> ready s' w" by blast+
qed

lemma rt_event_init_ok: "event_ok (rt_event_init flag)"
  by (simp add: event_ok_def rt_event_init_def)

lemma rt_event_send_ok: "event_ok e \<Longrightarrow> rt_event_send e evs = (r, e', resumed) \<Longrightarrow> event_ok e'"
  by (auto simp: rt_event_send_def event_ok_def split: if_splits prod.splits
      dest: event_scan_stay(2) subsetD [OF event_scan_stay(1)])

lemma insert_prio_set: "set (insert_prio w ws) = insert w (set ws)"
  by (induction ws) auto

lemma suspend_set: "set (rt_ipc_list_suspend ws w f) = insert w (set ws)"
  by (auto simp: rt_ipc_list_suspend_def insert_prio_set split: ipc_flag.split)

lemma clear_shrinks: "(s AND NOT x) AND s = s AND NOT (x :: u32)"
  by (simp add: and.assoc and.commute and.left_commute)

lemma rt_event_recv_ok:
  assumes "event_ok e" "rt_event_recv e evs opt timeout thread prio = Some (r, e')"
  shows "event_ok e'"
proof -
  have mono: "\<not> ready (ev_set e AND NOT evs) w" if "\<not> ready (ev_set e) w" for w
    using that ready_mono [OF clear_shrinks] by blast
  show ?thesis
    using assms mono
    by (auto simp: rt_event_recv_def event_ok_def suspend_set ready_def [of _ "\<lparr>w_thread = _, current_priority = _, event_set = _, event_info = _\<rparr>"]
        and.commute split: if_splits)
qed

section \<open>Order of the suspended threads\<close>

lemma insert_prio_sorted: "prio_sorted ws \<Longrightarrow> prio_sorted (insert_prio w ws)"
  by (induction ws) (auto simp: prio_sorted_def insert_prio_set)

end
