(* ===== verification/MbPort.thy ===== *)
theory MbPort
  imports KEvent MbUtil
begin

text \<open>
  components/net/freemodbus/port: the event, serial and timer ports of the slave (portevent.c,
  portserial.c, porttimer.c). The UART is outside the program: \<open>uart_in\<close> are the bytes it holds for the
  receive interrupt, \<open>uart_out\<close> the bytes handed to it. Whether the device exists and opens is a
  parameter. The board does not define \<open>RT_MODBUS_SLAVE_USE_CONTROL_PIN\<close>.
\<close>

section \<open>Definitions\<close>

datatype eMBEventType = EV_READY | EV_FRAME_RECEIVED | EV_EXECUTE | EV_FRAME_SENT

fun event_bit :: "eMBEventType \<Rightarrow> u32" where
  "event_bit EV_READY = 1"
| "event_bit EV_FRAME_RECEIVED = 2"
| "event_bit EV_EXECUTE = 4"
| "event_bit EV_FRAME_SENT = 8"

datatype eMBParity = MB_PAR_NONE | MB_PAR_ODD | MB_PAR_EVEN

record serial_config =
  baud_rate :: u32
  data_bits :: nat
  parity :: eMBParity
  stop_bits :: nat

record mb_port =
  xSlaveOsEvent :: rt_event
  event_serial :: rt_event
  ser_config :: serial_config
  rx_int :: bool
  timer_ticks :: nat
  timer_on :: bool
  uart_in :: "u8 list"
  uart_out :: "u8 list"

definition EVENT_SERIAL_TRANS_START :: u32 where "EVENT_SERIAL_TRANS_START = 1"
definition RT_TICK_PER_SECOND :: nat where "RT_TICK_PER_SECOND = 1000"

subsection \<open>Events\<close>

definition xMBPortEventInit :: "mb_port \<Rightarrow> bool \<times> mb_port" where
  "xMBPortEventInit p = (True, p\<lparr>xSlaveOsEvent := rt_event_init RT_IPC_FLAG_PRIO\<rparr>)"

definition xMBPortEventPost :: "eMBEventType \<Rightarrow> mb_port \<Rightarrow> bool \<times> mb_port" where
  "xMBPortEventPost eEvent p = (True, p\<lparr>xSlaveOsEvent := fst (snd (rt_event_send (xSlaveOsEvent p) (event_bit eEvent)))\<rparr>)"

text \<open>
  The receive call of the poll thread, which is the only receiver. When no event is pending the
  thread blocks, and when several are pending no case of the \<open>switch\<close> matches and \<open>*eEvent\<close> stays
  unset; both are \<^term>\<open>None\<close>, the second after the events were consumed.
\<close>

definition decode_event :: "u32 \<Rightarrow> eMBEventType option" where
  "decode_event recvedEvent =
     (if recvedEvent = 1 then Some EV_READY
      else if recvedEvent = 2 then Some EV_FRAME_RECEIVED
      else if recvedEvent = 4 then Some EV_EXECUTE
      else if recvedEvent = 8 then Some EV_FRAME_SENT
      else None)"

definition xMBPortEventGet :: "mb_port \<Rightarrow> (eMBEventType \<times> mb_port) option" where
  "xMBPortEventGet p = do {
     (r, e) \<leftarrow> rt_event_recv (xSlaveOsEvent p) 15 (RT_EVENT_FLAG_OR OR RT_EVENT_FLAG_CLEAR) (-1) 0 0;
     case r of
       Received v \<Rightarrow> do { ev \<leftarrow> decode_event v; Some (ev, p\<lparr>xSlaveOsEvent := e\<rparr>) }
     | _ \<Rightarrow> None
   }"

subsection \<open>Serial\<close>

definition xMBPortSerialInit ::
  "bool \<Rightarrow> bool \<Rightarrow> u8 \<Rightarrow> u32 \<Rightarrow> u8 \<Rightarrow> eMBParity \<Rightarrow> mb_port \<Rightarrow> bool \<times> mb_port" where
  "xMBPortSerialInit dev_found dev_opens ucPORT ulBaudRate ucDataBits eParity p =
     (if \<not> dev_found then (False, p)
      else let cfg = \<lparr>baud_rate = ulBaudRate,
                  data_bits = (case eParity of MB_PAR_NONE \<Rightarrow> 8 | MB_PAR_ODD \<Rightarrow> 9 | MB_PAR_EVEN \<Rightarrow> 9),
                  parity = eParity, stop_bits = 1\<rparr>;
               p = p\<lparr>ser_config := cfg\<rparr>
           in if dev_opens then (True, p\<lparr>event_serial := rt_event_init RT_IPC_FLAG_PRIO\<rparr>) else (False, p))"

definition vMBPortSerialEnable :: "bool \<Rightarrow> bool \<Rightarrow> mb_port \<Rightarrow> mb_port" where
  "vMBPortSerialEnable xRxEnable xTxEnable p =
     (let p = p\<lparr>rx_int := xRxEnable\<rparr>
      in if xTxEnable then p\<lparr>event_serial := fst (snd (rt_event_send (event_serial p) EVENT_SERIAL_TRANS_START))\<rparr>
         else (case rt_event_recv (event_serial p) EVENT_SERIAL_TRANS_START
                 (RT_EVENT_FLAG_OR OR RT_EVENT_FLAG_CLEAR) 0 0 0 of
                 Some (_, e) \<Rightarrow> p\<lparr>event_serial := e\<rparr>
               | None \<Rightarrow> p))"

definition xMBPortSerialPutByte :: "u8 \<Rightarrow> mb_port \<Rightarrow> mb_port" where
  "xMBPortSerialPutByte ucByte p = p\<lparr>uart_out := uart_out p @ [ucByte]\<rparr>"

definition xMBPortSerialGetByte :: "mb_port \<Rightarrow> (u8 \<times> mb_port) option" where
  "xMBPortSerialGetByte p =
     (case uart_in p of [] \<Rightarrow> None | b # bs \<Rightarrow> Some (b, p\<lparr>uart_in := bs\<rparr>))"

text \<open>The soft transmit interrupt thread waits for this flag without clearing it.\<close>

definition tx_requested :: "mb_port \<Rightarrow> bool" where
  "tx_requested p = (ev_set (event_serial p) AND EVENT_SERIAL_TRANS_START \<noteq> 0)"

subsection \<open>Timer\<close>

definition xMBPortTimersInit :: "u16 \<Rightarrow> mb_port \<Rightarrow> bool \<times> mb_port" where
  "xMBPortTimersInit usTim1Timerout50us p =
     (True, p\<lparr>timer_ticks := 50 * unat usTim1Timerout50us div (1000 * 1000 div RT_TICK_PER_SECOND) + 1, timer_on := False\<rparr>)"

definition vMBPortTimersEnable :: "mb_port \<Rightarrow> mb_port" where
  "vMBPortTimersEnable p = p\<lparr>timer_on := True\<rparr>"

definition vMBPortTimersDisable :: "mb_port \<Rightarrow> mb_port" where
  "vMBPortTimersDisable p = p\<lparr>timer_on := False\<rparr>"

text \<open>The port as the protocol stack finds it: nobody is suspended on its events.\<close>

definition port_ok :: "mb_port \<Rightarrow> bool" where
  "port_ok p \<longleftrightarrow> suspend_thread (xSlaveOsEvent p) = [] \<and> suspend_thread (event_serial p) = []"

section \<open>Behaviour of the ports\<close>

lemma post_simps:
  assumes "port_ok p"
  shows "snd (xMBPortEventPost ev p) =
    p\<lparr>xSlaveOsEvent := (xSlaveOsEvent p)\<lparr>ev_set := ev_set (xSlaveOsEvent p) OR event_bit ev\<rparr>\<rparr>"
  using assms by (cases ev) (simp_all add: xMBPortEventPost_def rt_event_send_def port_ok_def)

lemma serial_enable_simps:
  assumes "port_ok p"
  shows "vMBPortSerialEnable r True p =
      p\<lparr>rx_int := r, event_serial := (event_serial p)\<lparr>ev_set := ev_set (event_serial p) OR 1\<rparr>\<rparr>"
    and "vMBPortSerialEnable r False p =
      p\<lparr>rx_int := r, event_serial := (event_serial p)\<lparr>ev_set := ev_set (event_serial p) AND NOT 1\<rparr>\<rparr>"
proof -
  show "vMBPortSerialEnable r True p =
      p\<lparr>rx_int := r, event_serial := (event_serial p)\<lparr>ev_set := ev_set (event_serial p) OR 1\<rparr>\<rparr>"
    using assms by (simp add: vMBPortSerialEnable_def rt_event_send_def port_ok_def EVENT_SERIAL_TRANS_START_def)
  have "s AND NOT 1 = s" if "s AND 1 = 0" for s :: u32
  proof -
    have "\<not> bit s 0" using that by (simp add: and_one_eq bit_0 mod2_eq_if split: if_splits)
    then show ?thesis by (intro bit_eqI) (auto simp: bit_simps intro: gr0I)
  qed
  then show "vMBPortSerialEnable r False p =
      p\<lparr>rx_int := r, event_serial := (event_serial p)\<lparr>ev_set := ev_set (event_serial p) AND NOT 1\<rparr>\<rparr>"
    by (auto simp: vMBPortSerialEnable_def rt_event_recv_def EVENT_SERIAL_TRANS_START_def event_flags Let_def)
qed

lemma port_kept [simp]:
  "port_ok (vMBPortTimersEnable p) = port_ok p" "port_ok (vMBPortTimersDisable p) = port_ok p"
  "port_ok (xMBPortSerialPutByte b p) = port_ok p"
  "tx_requested (vMBPortTimersEnable p) = tx_requested p" "tx_requested (vMBPortTimersDisable p) = tx_requested p"
  "tx_requested (xMBPortSerialPutByte b p) = tx_requested p"
  "rx_int (vMBPortTimersEnable p) = rx_int p" "rx_int (vMBPortTimersDisable p) = rx_int p"
  "rx_int (xMBPortSerialPutByte b p) = rx_int p"
  "timer_on (vMBPortTimersEnable p)" "\<not> timer_on (vMBPortTimersDisable p)"
  "timer_on (xMBPortSerialPutByte b p) = timer_on p"
  "port_ok (p\<lparr>uart_in := x\<rparr>) = port_ok p" "port_ok (p\<lparr>uart_out := x\<rparr>) = port_ok p"
  by (simp_all add: port_ok_def tx_requested_def vMBPortTimersEnable_def vMBPortTimersDisable_def
      xMBPortSerialPutByte_def)

lemma post_kept:
  assumes "port_ok p"
  shows "port_ok (snd (xMBPortEventPost ev p))" "tx_requested (snd (xMBPortEventPost ev p)) = tx_requested p"
    "rx_int (snd (xMBPortEventPost ev p)) = rx_int p" "timer_on (snd (xMBPortEventPost ev p)) = timer_on p"
  using assms by (simp_all add: post_simps) (simp_all add: port_ok_def tx_requested_def)

lemma enable_kept:
  assumes "port_ok p"
  shows "port_ok (vMBPortSerialEnable r t p)" "tx_requested (vMBPortSerialEnable r t p) = t"
    "rx_int (vMBPortSerialEnable r t p) = r" "timer_on (vMBPortSerialEnable r t p) = timer_on p"
proof -
  have "(s OR 1) AND 1 = 1" "(s AND NOT 1) AND 1 = 0" for s :: u32
    unfolding bit_eq_iff by (auto simp: bit_simps)
  then show "port_ok (vMBPortSerialEnable r t p)" "tx_requested (vMBPortSerialEnable r t p) = t"
    "rx_int (vMBPortSerialEnable r t p) = r" "timer_on (vMBPortSerialEnable r t p) = timer_on p"
    using assms serial_enable_simps [OF assms]
    by (cases t; simp add: port_ok_def tx_requested_def EVENT_SERIAL_TRANS_START_def)+
qed

lemma get_kept:
  assumes "xMBPortEventGet p = Some (ev, p')" "port_ok p"
  shows "port_ok p'" "tx_requested p' = tx_requested p" "rx_int p' = rx_int p" "timer_on p' = timer_on p"
  using assms
  by (auto simp: xMBPortEventGet_def rt_event_recv_def port_ok_def tx_requested_def bind_eq_Some_conv event_flags
      split: if_splits recv_result.splits)

text \<open>A single pending event is delivered and consumed.\<close>

lemma get_single:
  assumes "ev_set (xSlaveOsEvent p) = event_bit ev"
  shows "xMBPortEventGet p = Some (ev, p\<lparr>xSlaveOsEvent := (xSlaveOsEvent p)\<lparr>ev_set := 0\<rparr>\<rparr>)"
  using assms by (cases ev) (simp_all add: xMBPortEventGet_def rt_event_recv_def event_flags decode_event_def)

end
