(* ===== verification/MbRtu.thy ===== *)
theory MbRtu
  imports MbCrc MbPort
begin

text \<open>
  components/net/freemodbus/modbus/rtu/mbrtu.c: the RTU framing of the slave. Three state machines run
  in it: the receiver, driven by received characters and by the 3.5-character timer, and the
  transmitter, driven by the soft transmit interrupt. \<open>RT_ASSERT\<close> failures and accesses outside
  \<open>ucRTUBuf\<close> are \<^term>\<open>None\<close>.
\<close>

section \<open>Definitions\<close>

definition MB_SER_PDU_SIZE_MIN :: nat where "MB_SER_PDU_SIZE_MIN = 4"
definition MB_SER_PDU_SIZE_MAX :: nat where "MB_SER_PDU_SIZE_MAX = 256"
definition MB_SER_PDU_SIZE_CRC :: nat where "MB_SER_PDU_SIZE_CRC = 2"
definition MB_SER_PDU_ADDR_OFF :: nat where "MB_SER_PDU_ADDR_OFF = 0"
definition MB_SER_PDU_PDU_OFF :: nat where "MB_SER_PDU_PDU_OFF = 1"

lemmas ser_defs = MB_SER_PDU_SIZE_MIN_def MB_SER_PDU_SIZE_MAX_def MB_SER_PDU_SIZE_CRC_def
  MB_SER_PDU_ADDR_OFF_def MB_SER_PDU_PDU_OFF_def

datatype eMBRcvState = STATE_RX_INIT | STATE_RX_IDLE | STATE_RX_RCV | STATE_RX_ERROR
datatype eMBSndState = STATE_TX_IDLE | STATE_TX_XMIT

text \<open>\<open>pucSndBufferCur\<close> is an index into \<open>ucRTUBuf\<close>.\<close>

record rtu =
  eSndState :: eMBSndState
  eRcvState :: eMBRcvState
  ucRTUBuf :: "u8 list"
  pucSndBufferCur :: nat
  usSndBufferCount :: u16
  usRcvBufferPos :: u16
  port :: mb_port

text \<open>The reload value of the 3.5-character timer in units of 50 us.\<close>

definition t35_50us :: "u32 \<Rightarrow> u32 option" where
  "t35_50us ulBaudRate =
     (if ulBaudRate > 19200 then Some 35
      else do { c_assert (2 * ulBaudRate \<noteq> 0); Some ((7 * 220000) div (2 * ulBaudRate)) })"

definition eMBRTUInit :: "bool \<Rightarrow> bool \<Rightarrow> u8 \<Rightarrow> u8 \<Rightarrow> u32 \<Rightarrow> eMBParity \<Rightarrow> rtu \<Rightarrow> (eMBErrorCode \<times> rtu) option" where
  "eMBRTUInit dev_found dev_opens ucSlaveAddress ucPort ulBaudRate eParity s =
     (let (ok, p) = xMBPortSerialInit dev_found dev_opens ucPort ulBaudRate 8 eParity (port s)
      in if \<not> ok then Some (MB_EPORTERR, s\<lparr>port := p\<rparr>)
         else do {
           usTimerT35_50us \<leftarrow> t35_50us ulBaudRate;
           let (ok, p) = xMBPortTimersInit (ucast usTimerT35_50us) p;
           Some (if \<not> ok then MB_EPORTERR else MB_ENOERR, s\<lparr>port := p\<rparr>)
         })"

definition eMBRTUStart :: "rtu \<Rightarrow> rtu" where
  "eMBRTUStart s = s\<lparr>eRcvState := STATE_RX_INIT,
     port := vMBPortTimersEnable (vMBPortSerialEnable True False (port s))\<rparr>"

definition eMBRTUStop :: "rtu \<Rightarrow> rtu" where
  "eMBRTUStop s = s\<lparr>port := vMBPortTimersDisable (vMBPortSerialEnable False False (port s))\<rparr>"

text \<open>
  Result: the status, and on success the address, the start of the PDU in \<open>ucRTUBuf\<close> and its length.
\<close>

definition eMBRTUReceive :: "rtu \<Rightarrow> (eMBErrorCode \<times> (u8 \<times> nat \<times> u16) option) option" where
  "eMBRTUReceive s = do {
     c_assert (unat (usRcvBufferPos s) \<le> MB_SER_PDU_SIZE_MAX);
     if unat (usRcvBufferPos s) \<ge> MB_SER_PDU_SIZE_MIN then do {
       crc \<leftarrow> usMBCRC16 (ucRTUBuf s) (usRcvBufferPos s);
       if crc = 0 then do {
         addr \<leftarrow> rd (ucRTUBuf s) MB_SER_PDU_ADDR_OFF;
         Some (MB_ENOERR, Some (addr, MB_SER_PDU_PDU_OFF,
           usRcvBufferPos s - of_nat MB_SER_PDU_PDU_OFF - of_nat MB_SER_PDU_SIZE_CRC))
       } else Some (MB_EIO, None)
     } else Some (MB_EIO, None)
   }"

definition eMBRTUSend :: "u8 \<Rightarrow> nat \<Rightarrow> u16 \<Rightarrow> rtu \<Rightarrow> (eMBErrorCode \<times> rtu) option" where
  "eMBRTUSend ucSlaveAddress pucFrame usLength s =
     (if eRcvState s = STATE_RX_IDLE then do {
        c_assert (1 \<le> pucFrame);
        let cur = pucFrame - 1;
        buf \<leftarrow> wr (ucRTUBuf s) (cur + MB_SER_PDU_ADDR_OFF) ucSlaveAddress;
        let cnt = 1 + usLength;
        usCRC16 \<leftarrow> usMBCRC16 (drop cur buf) cnt;
        buf \<leftarrow> wr buf (unat cnt) (ucast (usCRC16 AND 0xFF));
        let cnt = cnt + 1;
        buf \<leftarrow> wr buf (unat cnt) (ucast (drop_bit 8 usCRC16));
        let cnt = cnt + 1;
        Some (MB_ENOERR, s\<lparr>ucRTUBuf := buf, pucSndBufferCur := cur, usSndBufferCount := cnt,
          eSndState := STATE_TX_XMIT, port := vMBPortSerialEnable False True (port s)\<rparr>)
      } else Some (MB_EIO, s))"

definition xMBRTUReceiveFSM :: "rtu \<Rightarrow> rtu option" where
  "xMBRTUReceiveFSM s = do {
     c_assert (eSndState s = STATE_TX_IDLE);
     (ucByte, p) \<leftarrow> xMBPortSerialGetByte (port s);
     let s = s\<lparr>port := p\<rparr>;
     case eRcvState s of
       STATE_RX_INIT \<Rightarrow> Some (s\<lparr>port := vMBPortTimersEnable p\<rparr>)
     | STATE_RX_ERROR \<Rightarrow> Some (s\<lparr>port := vMBPortTimersEnable p\<rparr>)
     | STATE_RX_IDLE \<Rightarrow> do {
         buf \<leftarrow> wr (ucRTUBuf s) 0 ucByte;
         Some (s\<lparr>ucRTUBuf := buf, usRcvBufferPos := 1, eRcvState := STATE_RX_RCV, port := vMBPortTimersEnable p\<rparr>)
       }
     | STATE_RX_RCV \<Rightarrow> do {
         s \<leftarrow> (if unat (usRcvBufferPos s) < MB_SER_PDU_SIZE_MAX then do {
                 buf \<leftarrow> wr (ucRTUBuf s) (unat (usRcvBufferPos s)) ucByte;
                 Some (s\<lparr>ucRTUBuf := buf, usRcvBufferPos := usRcvBufferPos s + 1\<rparr>)
               } else Some (s\<lparr>eRcvState := STATE_RX_ERROR\<rparr>));
         Some (s\<lparr>port := vMBPortTimersEnable p\<rparr>)
       }
   }"

definition xMBRTUTransmitFSM :: "rtu \<Rightarrow> rtu option" where
  "xMBRTUTransmitFSM s = do {
     c_assert (eRcvState s = STATE_RX_IDLE);
     case eSndState s of
       STATE_TX_IDLE \<Rightarrow> Some (s\<lparr>port := vMBPortSerialEnable True False (port s)\<rparr>)
     | STATE_TX_XMIT \<Rightarrow>
         if usSndBufferCount s \<noteq> 0 then do {
           b \<leftarrow> rd (ucRTUBuf s) (pucSndBufferCur s);
           Some (s\<lparr>port := xMBPortSerialPutByte b (port s), pucSndBufferCur := pucSndBufferCur s + 1,
                   usSndBufferCount := usSndBufferCount s - 1\<rparr>)
         } else
           (let p = snd (xMBPortEventPost EV_FRAME_SENT (port s))
            in Some (s\<lparr>port := vMBPortSerialEnable True False p, eSndState := STATE_TX_IDLE\<rparr>))
   }"

definition xMBRTUTimerT35Expired :: "rtu \<Rightarrow> rtu option" where
  "xMBRTUTimerT35Expired s = do {
     p \<leftarrow> (case eRcvState s of
             STATE_RX_INIT \<Rightarrow> Some (snd (xMBPortEventPost EV_READY (port s)))
           | STATE_RX_RCV \<Rightarrow> Some (snd (xMBPortEventPost EV_FRAME_RECEIVED (port s)))
           | STATE_RX_ERROR \<Rightarrow> Some (port s)
           | STATE_RX_IDLE \<Rightarrow> None);
     Some (s\<lparr>port := vMBPortTimersDisable p, eRcvState := STATE_RX_IDLE\<rparr>)
   }"

subsection \<open>Interrupts and threads around the framing\<close>

text \<open>
  A received character raises the receive interrupt while it is enabled; the timer fires while it
  runs; the transmit thread runs while its flag is set; the poll thread sends a response of at most
  253 bytes from the PDU in the frame buffer.
\<close>

inductive rtu_step :: "rtu \<Rightarrow> rtu option \<Rightarrow> bool" where
  Rx: "rx_int (port s) \<Longrightarrow> rtu_step s (xMBRTUReceiveFSM (s\<lparr>port := (port s)\<lparr>uart_in := [b]\<rparr>\<rparr>))"
| Timer: "timer_on (port s) \<Longrightarrow> rtu_step s (xMBRTUTimerT35Expired s)"
| Tx: "tx_requested (port s) \<Longrightarrow> rtu_step s (xMBRTUTransmitFSM s)"
| Send: "usLength \<le> 253 \<Longrightarrow>
    rtu_step s (map_option snd (eMBRTUSend addr 1 usLength s))"
| Event: "xMBPortEventGet (port s) = Some (ev, p) \<Longrightarrow> rtu_step s (Some (s\<lparr>port := p\<rparr>))"
| Post: "rtu_step s (Some (s\<lparr>port := snd (xMBPortEventPost EV_EXECUTE (port s))\<rparr>))"

inductive rtu_run :: "rtu \<Rightarrow> rtu \<Rightarrow> bool" where
  Stop: "rtu_run s s"
| Go: "rtu_run s s' \<Longrightarrow> rtu_step s' (Some s'') \<Longrightarrow> rtu_run s s''"

text \<open>One transmit interrupt.\<close>

definition xmit :: "rtu option \<Rightarrow> rtu option" where
  "xmit so = Option.bind so xMBRTUTransmitFSM"

text \<open>The framing after reset.\<close>

definition demo_rtu :: rtu where
  "demo_rtu = \<lparr>eSndState = STATE_TX_IDLE, eRcvState = STATE_RX_INIT, ucRTUBuf = replicate 256 0,
     pucSndBufferCur = 0, usSndBufferCount = 0, usRcvBufferPos = 0,
     port = \<lparr>xSlaveOsEvent = rt_event_init RT_IPC_FLAG_PRIO, event_serial = rt_event_init RT_IPC_FLAG_PRIO,
       ser_config = \<lparr>baud_rate = 9600, data_bits = 8, parity = MB_PAR_NONE, stop_bits = 1\<rparr>,
       rx_int = False, timer_ticks = 0, timer_on = False, uart_in = [], uart_out = []\<rparr>\<rparr>"

text \<open>One receive interrupt with the character \<open>b\<close>.\<close>

definition receive_char :: "u8 \<Rightarrow> rtu \<Rightarrow> rtu option" where
  "receive_char b s = xMBRTUReceiveFSM (s\<lparr>port := (port s)\<lparr>uart_in := [b]\<rparr>\<rparr>)"

definition rtu_ok :: "rtu \<Rightarrow> bool" where
  "rtu_ok s \<longleftrightarrow> length (ucRTUBuf s) = MB_SER_PDU_SIZE_MAX
     \<and> unat (usRcvBufferPos s) \<le> MB_SER_PDU_SIZE_MAX
     \<and> port_ok (port s)
     \<and> (timer_on (port s) \<longleftrightarrow> eRcvState s \<noteq> STATE_RX_IDLE)
     \<and> (tx_requested (port s) \<longleftrightarrow> eSndState s = STATE_TX_XMIT)
     \<and> (eSndState s = STATE_TX_XMIT \<longrightarrow> eRcvState s = STATE_RX_IDLE \<and> \<not> rx_int (port s)
         \<and> pucSndBufferCur s + unat (usSndBufferCount s) \<le> MB_SER_PDU_SIZE_MAX)"

section \<open>Safety of the state machines\<close>

lemma rx_safe:
  assumes "rtu_ok s" "rx_int (port s)"
  shows "\<exists>s'. xMBRTUReceiveFSM (s\<lparr>port := (port s)\<lparr>uart_in := [b]\<rparr>\<rparr>) = Some s' \<and> rtu_ok s'"
proof -
  have idle: "eSndState s = STATE_TX_IDLE" using assms by (cases "eSndState s") (auto simp: rtu_ok_def)
  have p: "port_ok (port s\<lparr>uart_in := x\<rparr>) = port_ok (port s)" "tx_requested (port s\<lparr>uart_in := x\<rparr>) = tx_requested (port s)" for x
    by (simp_all add: port_ok_def tx_requested_def)
  have pos: "unat (usRcvBufferPos s + 1) \<le> 256" if "unat (usRcvBufferPos s) < 256"
    using that by (simp add: unat_word_ariths)
  show ?thesis
    using assms idle pos
    by (cases "eRcvState s")
      (auto simp: xMBRTUReceiveFSM_def xMBPortSerialGetByte_def rtu_ok_def ser_defs p Let_def)
qed

lemma timer_safe:
  assumes "rtu_ok s" "timer_on (port s)"
  shows "\<exists>s'. xMBRTUTimerT35Expired s = Some s' \<and> rtu_ok s'"
  using assms by (cases "eRcvState s") (auto simp: xMBRTUTimerT35Expired_def rtu_ok_def post_kept)

lemma tx_safe:
  assumes "rtu_ok s" "tx_requested (port s)"
  shows "\<exists>s'. xMBRTUTransmitFSM s = Some s' \<and> rtu_ok s'"
proof -
  have x: "eSndState s = STATE_TX_XMIT" "eRcvState s = STATE_RX_IDLE" using assms by (auto simp: rtu_ok_def)
  show ?thesis
  proof (cases "usSndBufferCount s = 0")
    case True
    then show ?thesis
      using assms x by (simp add: xMBRTUTransmitFSM_def rtu_ok_def post_kept enable_kept)
  next
    case False
    then have "unat (usSndBufferCount s - 1) = unat (usSndBufferCount s) - 1" "0 < unat (usSndBufferCount s)"
      by (simp_all add: unat_minus_one unat_gt_0)
    then show ?thesis
      using assms x False by (auto simp: xMBRTUTransmitFSM_def rtu_ok_def ser_defs)
  qed
qed

lemma send_count:
  assumes "usLength \<le> (253 :: u16)"
  shows "unat (1 + usLength) = 1 + unat usLength" "unat (1 + usLength + 1) = 2 + unat usLength"
    "unat (1 + usLength + 1 + 1) = 3 + unat usLength" "unat usLength \<le> 253"
proof -
  show "unat usLength \<le> 253" using assms by (simp add: word_le_nat_alt)
  then show "unat (1 + usLength) = 1 + unat usLength" "unat (1 + usLength + 1) = 2 + unat usLength"
    "unat (1 + usLength + 1 + 1) = 3 + unat usLength" by (simp_all add: unat_word_ariths)
qed

lemma send_result:
  fixes addr :: u8
  assumes "length (ucRTUBuf s) = 256" "eRcvState s = STATE_RX_IDLE" "usLength \<le> 253"
  defines "body \<equiv> addr # take (unat usLength) (drop 1 (ucRTUBuf s))"
  shows "\<exists>buf. eMBRTUSend addr 1 usLength s = Some (MB_ENOERR, s\<lparr>ucRTUBuf := buf, pucSndBufferCur := 0,
        usSndBufferCount := 3 + usLength, eSndState := STATE_TX_XMIT, port := vMBPortSerialEnable False True (port s)\<rparr>)
     \<and> length buf = 256 \<and> take (3 + unat usLength) buf = body @ [lo8 (crc_ref body), hi8 (crc_ref body)]"
proof -
  note c = send_count [OF assms(3)]
  define b0 where "b0 = (ucRTUBuf s)[0 := addr]"
  define crc where "crc = crc_ref (take (1 + unat usLength) b0)"
  define buf where "buf = b0[1 + unat usLength := lo8 crc, 2 + unat usLength := hi8 crc]"
  have l0: "length b0 = 256" using assms(1) by (simp add: b0_def)
  have body: "take (1 + unat usLength) b0 = body"
  proof -
    obtain x xs where "ucRTUBuf s = x # xs" using assms(1) by (cases "ucRTUBuf s") auto
    then show ?thesis by (simp add: b0_def body_def)
  qed
  have m: "usMBCRC16 b0 (1 + usLength) = Some crc"
    using usMBCRC16_ref [of "1 + usLength" b0] c(1,4) l0 by (simp add: crc_def)
  have "eMBRTUSend addr 1 usLength s = Some (MB_ENOERR, s\<lparr>ucRTUBuf := buf, pucSndBufferCur := 0,
      usSndBufferCount := 3 + usLength, eSndState := STATE_TX_XMIT, port := vMBPortSerialEnable False True (port s)\<rparr>)"
    using assms(1,2) c(1,2,4) m l0
    by (simp add: eMBRTUSend_def ser_defs b0_def [symmetric] buf_def lo8_def hi8_def add.assoc)
  moreover have "take (3 + unat usLength) buf = body @ [lo8 crc, hi8 crc]"
  proof -
    have "take (3 + unat usLength) buf = take (1 + unat usLength) b0 @ [lo8 crc, hi8 crc]"
      using c(4) l0 by (intro nth_equalityI) (auto simp: buf_def nth_append nth_list_update less_Suc_eq nth_Cons split: nat.split)
    then show ?thesis by (simp only: body)
  qed
  ultimately show ?thesis using l0 unfolding crc_def body by (auto simp: buf_def)
qed

lemma send_safe:
  assumes "rtu_ok s" "usLength \<le> 253"
  shows "\<exists>e s'. eMBRTUSend addr 1 usLength s = Some (e, s') \<and> rtu_ok s'"
proof (cases "eRcvState s = STATE_RX_IDLE")
  case False
  then show ?thesis using assms by (simp add: eMBRTUSend_def)
next
  case True
  have "unat (3 + usLength) \<le> 256" using send_count [OF assms(2)] by (simp add: unat_word_ariths)
  then show ?thesis
    using send_result [of s usLength addr] assms True by (auto simp: rtu_ok_def ser_defs enable_kept)
qed

lemma rtu_step_safe: "rtu_step s r \<Longrightarrow> rtu_ok s \<Longrightarrow> \<exists>s'. r = Some s' \<and> rtu_ok s'"
proof (induction rule: rtu_step.induct)
  case (Send usLength s addr)
  then show ?case using send_safe [of s usLength addr] by auto
next
  case (Event s ev p)
  then show ?case by (simp add: rtu_ok_def get_kept)
next
  case (Post s)
  then show ?case by (simp add: rtu_ok_def post_kept)
qed (auto intro: rx_safe timer_safe tx_safe)

section \<open>Receiving and sending a frame\<close>

text \<open>The receive interrupts of a sequence of characters.\<close>

lemma receive_byte:
  assumes "eSndState s = STATE_TX_IDLE" "eRcvState s = STATE_RX_RCV" "length (ucRTUBuf s) = 256"
    "unat (usRcvBufferPos s) < 256"
  shows "receive_char b s = Some (s\<lparr>ucRTUBuf := (ucRTUBuf s)[unat (usRcvBufferPos s) := b],
     usRcvBufferPos := usRcvBufferPos s + 1, port := vMBPortTimersEnable ((port s)\<lparr>uart_in := []\<rparr>)\<rparr>)"
  using assms by (simp add: receive_char_def xMBRTUReceiveFSM_def xMBPortSerialGetByte_def ser_defs Let_def)

lemma receive_rest:
  assumes "eSndState s = STATE_TX_IDLE" "eRcvState s = STATE_RX_RCV" "length (ucRTUBuf s) = 256"
    "unat (usRcvBufferPos s) + length bs \<le> 256"
  shows "\<exists>s'. foldM receive_char bs s = Some s' \<and> eSndState s' = STATE_TX_IDLE \<and> eRcvState s' = STATE_RX_RCV
     \<and> length (ucRTUBuf s') = 256 \<and> unat (usRcvBufferPos s') = unat (usRcvBufferPos s) + length bs
     \<and> take (unat (usRcvBufferPos s')) (ucRTUBuf s') = take (unat (usRcvBufferPos s)) (ucRTUBuf s) @ bs
     \<and> port s' = (if bs = [] then port s else vMBPortTimersEnable ((port s)\<lparr>uart_in := []\<rparr>))"
  using assms
proof (induction bs arbitrary: s)
  case (Cons b bs)
  let ?n = "unat (usRcvBufferPos s)"
  let ?s = "s\<lparr>ucRTUBuf := (ucRTUBuf s)[?n := b], usRcvBufferPos := usRcvBufferPos s + 1,
      port := vMBPortTimersEnable ((port s)\<lparr>uart_in := []\<rparr>)\<rparr>"
  have n: "?n < 256" using Cons.prems(4) by simp
  have u: "unat (usRcvBufferPos s + 1) = Suc ?n" using n by (simp add: unat_word_ariths)
  have step: "receive_char b s = Some ?s" by (rule receive_byte [OF Cons.prems(1-3) n])
  have "take (Suc ?n) ((ucRTUBuf s)[?n := b]) = take ?n (ucRTUBuf s) @ [b]"
    using n Cons.prems(3) by (simp add: take_Suc_conv_app_nth)
  moreover have "vMBPortTimersEnable ((port ?s)\<lparr>uart_in := []\<rparr>) = port ?s"
    by (simp add: vMBPortTimersEnable_def)
  ultimately show ?case using Cons.IH [of ?s] Cons.prems u step by (cases "bs = []") simp_all
qed simp

lemma receive_frame:
  assumes "eSndState s = STATE_TX_IDLE" "eRcvState s = STATE_RX_IDLE" "length (ucRTUBuf s) = 256"
    "bs \<noteq> []" "length bs \<le> 256"
  shows "\<exists>s'. foldM receive_char bs s = Some s' \<and> eSndState s' = STATE_TX_IDLE \<and> eRcvState s' = STATE_RX_RCV
     \<and> length (ucRTUBuf s') = 256 \<and> unat (usRcvBufferPos s') = length bs
     \<and> take (length bs) (ucRTUBuf s') = bs \<and> port s' = vMBPortTimersEnable ((port s)\<lparr>uart_in := []\<rparr>)"
proof -
  obtain b cs where bs: "bs = b # cs" using assms(4) by (cases bs) auto
  let ?s = "s\<lparr>ucRTUBuf := (ucRTUBuf s)[0 := b], usRcvBufferPos := 1, eRcvState := STATE_RX_RCV,
      port := vMBPortTimersEnable ((port s)\<lparr>uart_in := []\<rparr>)\<rparr>"
  have step: "receive_char b s = Some ?s"
    using assms(1-3) by (simp add: receive_char_def xMBRTUReceiveFSM_def xMBPortSerialGetByte_def Let_def)
  have "take 1 ((ucRTUBuf s)[0 := b]) = [b]" using assms(3) by (cases "ucRTUBuf s") auto
  moreover have "vMBPortTimersEnable ((port ?s)\<lparr>uart_in := []\<rparr>) = port ?s"
    by (simp add: vMBPortTimersEnable_def)
  ultimately show ?thesis
    using receive_rest [of ?s cs] assms step by (auto simp: bs)
qed

text \<open>What the stack makes of the characters between two pauses on the line.\<close>

lemma receive_verdict:
  assumes "length (ucRTUBuf s) = 256" "unat (usRcvBufferPos s) = length bs" "length bs \<le> 256"
    "take (length bs) (ucRTUBuf s) = bs"
  shows "eMBRTUReceive s =
    Some (if 4 \<le> length bs \<and> crc_ref bs = 0 then (MB_ENOERR, Some (bs ! 0, 1, of_nat (length bs - 3)))
          else (MB_EIO, None))"
proof -
  have crc: "usMBCRC16 (ucRTUBuf s) (usRcvBufferPos s) = Some (crc_ref bs)"
    using usMBCRC16_ref [of "usRcvBufferPos s" "ucRTUBuf s"] assms by simp
  have "usRcvBufferPos s = of_nat (length bs)" using assms(2) by (metis of_nat_unat ucast_id)
  then have len: "usRcvBufferPos s - 1 - 2 = of_nat (length bs - 3)" if "4 \<le> length bs"
    using that by (simp add: of_nat_diff)
  have "ucRTUBuf s ! 0 = bs ! 0" if "4 \<le> length bs"
  proof -
    have "0 < length bs" using that by auto
    then show ?thesis using assms(4) by (metis nth_take)
  qed
  then show ?thesis
    using assms(1-3) crc len by (auto simp: eMBRTUReceive_def ser_defs)
qed

text \<open>The transmit interrupts of a frame.\<close>

lemma transmit_loop:
  assumes "eSndState s = STATE_TX_XMIT" "eRcvState s = STATE_RX_IDLE" "length (ucRTUBuf s) = 256"
    "unat (usSndBufferCount s) = n" "pucSndBufferCur s + n \<le> 256"
  shows "(xmit ^^ n) (Some s) = Some (s\<lparr>usSndBufferCount := 0, pucSndBufferCur := pucSndBufferCur s + n,
     port := (port s)\<lparr>uart_out := uart_out (port s) @ take n (drop (pucSndBufferCur s) (ucRTUBuf s))\<rparr>\<rparr>)"
  using assms
proof (induction n arbitrary: s)
  case 0
  then have "usSndBufferCount s = 0" by (simp add: unat_eq_zero)
  then show ?case by simp
next
  case (Suc n)
  let ?c = "pucSndBufferCur s"
  let ?s = "s\<lparr>port := xMBPortSerialPutByte (ucRTUBuf s ! ?c) (port s), pucSndBufferCur := ?c + 1,
      usSndBufferCount := usSndBufferCount s - 1\<rparr>"
  have nz: "usSndBufferCount s \<noteq> 0" using Suc.prems(4) by auto
  then have "xmit (Some s) = Some ?s"
    using Suc.prems by (simp add: xmit_def xMBRTUTransmitFSM_def)
  moreover have "unat (usSndBufferCount s - 1) = n" using nz Suc.prems(4) by (simp add: unat_minus_one)
  moreover have "take (Suc n) (drop ?c (ucRTUBuf s)) = ucRTUBuf s ! ?c # take n (drop (Suc ?c) (ucRTUBuf s))"
  proof -
    have "?c < length (ucRTUBuf s)" using Suc.prems by simp
    then show ?thesis by (simp add: Cons_nth_drop_Suc [symmetric])
  qed
  ultimately show ?case
    using Suc.IH [of ?s] Suc.prems
    by (simp add: funpow_Suc_right xMBPortSerialPutByte_def del: funpow.simps)
qed

lemma transmit_frame:
  assumes "eSndState s = STATE_TX_XMIT" "eRcvState s = STATE_RX_IDLE" "length (ucRTUBuf s) = 256"
    "unat (usSndBufferCount s) = n" "pucSndBufferCur s + n \<le> 256" "port_ok (port s)"
  shows "\<exists>s'. (xmit ^^ Suc n) (Some s) = Some s' \<and> eSndState s' = STATE_TX_IDLE \<and> rx_int (port s')
     \<and> uart_out (port s') = uart_out (port s) @ take n (drop (pucSndBufferCur s) (ucRTUBuf s))
     \<and> bit (ev_set (xSlaveOsEvent (port s'))) 3"
proof -
  let ?s = "s\<lparr>usSndBufferCount := 0, pucSndBufferCur := pucSndBufferCur s + n,
     port := (port s)\<lparr>uart_out := uart_out (port s) @ take n (drop (pucSndBufferCur s) (ucRTUBuf s))\<rparr>\<rparr>"
  have "(xmit ^^ Suc n) (Some s) = xmit (Some ?s)" using transmit_loop [OF assms(1-5)] by simp
  moreover have "port_ok (snd (xMBPortEventPost EV_FRAME_SENT (port ?s)))"
    using post_kept(1) [of "port ?s"] assms(6) by simp
  ultimately show ?thesis
    using assms(1,2,6)
    by (simp add: xmit_def xMBRTUTransmitFSM_def enable_kept serial_enable_simps)
      (simp add: post_simps bit_simps bit_numeral_rec)
qed

section \<open>Properties\<close>



text \<open>
  C13: a response that the slave sends arrives: after the transmit interrupts of its bytes the line
  carries address, PDU and CRC, and an idle receiver that gets these characters accepts them as a frame
  of that address with that PDU.
\<close>

theorem sent_frame_is_received:
  assumes "rtu_ok s" "eRcvState s = STATE_RX_IDLE" "1 \<le> n" "n \<le> 253" "uart_out (port s) = []"
    and "rtu_ok t" "eRcvState t = STATE_RX_IDLE" "eSndState t = STATE_TX_IDLE"
  defines "pdu \<equiv> take (unat n) (drop 1 (ucRTUBuf s))"
  shows "\<exists>s1 s2 t1. eMBRTUSend addr 1 n s = Some (MB_ENOERR, s1)
     \<and> (xmit ^^ (unat n + 4)) (Some s1) = Some s2 \<and> eSndState s2 = STATE_TX_IDLE
     \<and> foldM receive_char (uart_out (port s2)) t = Some t1
     \<and> eMBRTUReceive t1 = Some (MB_ENOERR, Some (addr, 1, n))
     \<and> take (unat n) (drop 1 (ucRTUBuf t1)) = pdu"
proof -
  note c = send_count [OF assms(4)]
  define body where "body = addr # pdu"
  define bs where "bs = body @ [lo8 (crc_ref body), hi8 (crc_ref body)]"
  have lb: "length (ucRTUBuf s) = 256" "length (ucRTUBuf t) = 256" "port_ok (port s)"
    using assms(1,6) by (simp_all add: rtu_ok_def ser_defs)
  have pl: "length pdu = unat n" using lb c(4) by (simp add: pdu_def)
  then have bl: "length bs = 3 + unat n" by (simp add: bs_def body_def)
  obtain buf where snd: "eMBRTUSend addr 1 n s = Some (MB_ENOERR, s\<lparr>ucRTUBuf := buf, pucSndBufferCur := 0,
        usSndBufferCount := 3 + n, eSndState := STATE_TX_XMIT, port := vMBPortSerialEnable False True (port s)\<rparr>)"
      (is "_ = Some (_, ?s1)") "length buf = 256" "take (3 + unat n) buf = bs"
    using send_result [OF lb(1) assms(2,4), of addr] by (auto simp: bs_def body_def pdu_def)
  have cnt: "unat (usSndBufferCount ?s1) = 3 + unat n" using c by (simp add: unat_word_ariths)
  have out: "uart_out (port ?s1) = []" using assms(5) serial_enable_simps [OF lb(3)] by simp
  obtain s2 where s2: "(xmit ^^ Suc (3 + unat n)) (Some ?s1) = Some s2" "eSndState s2 = STATE_TX_IDLE"
      "uart_out (port s2) = bs"
    using transmit_frame [OF _ _ _ cnt] assms(2) snd(2,3) c(4) enable_kept(1) [OF lb(3)] out by auto
  obtain t1 where t1: "foldM receive_char bs t = Some t1" "length (ucRTUBuf t1) = 256"
      "unat (usRcvBufferPos t1) = length bs" "take (length bs) (ucRTUBuf t1) = bs"
    using receive_frame [OF assms(8,7) lb(2), of bs] bl c(4) by (auto simp: bs_def)
  have "crc_ref bs = 0" unfolding bs_def by (simp add: crc_trailer)
  moreover have "4 \<le> length bs" using assms(3) bl by (simp add: word_le_nat_alt)
  ultimately have "eMBRTUReceive t1 = Some (MB_ENOERR, Some (addr, 1, n))"
    using receive_verdict [OF t1(2,3) _ t1(4)] bl c(4) by (simp add: bs_def body_def)
  moreover have "take (unat n) (drop 1 (ucRTUBuf t1)) = pdu"
  proof -
    have "take (unat n) (drop 1 (ucRTUBuf t1)) = take (unat n) (drop 1 (take (length bs) (ucRTUBuf t1)))"
      using bl by (simp add: drop_take min_def)
    then show ?thesis using t1(4) pl by (simp add: bs_def body_def)
  qed
  ultimately show ?thesis using snd(1) s2 t1(1) by (auto simp: add.commute numeral_eq_Suc)
qed

lemma demo_idle_ok: "rtu_ok (demo_rtu\<lparr>eRcvState := STATE_RX_IDLE\<rparr>)"
  by (simp add: rtu_ok_def demo_rtu_def port_ok_def rt_event_init_def ser_defs tx_requested_def)

theorem sent_frame_is_received_witness:
  "\<exists>s1 s2 t1. eMBRTUSend 9 1 3 (demo_rtu\<lparr>eRcvState := STATE_RX_IDLE\<rparr>) = Some (MB_ENOERR, s1)
     \<and> (xmit ^^ 7) (Some s1) = Some s2 \<and> eSndState s2 = STATE_TX_IDLE
     \<and> foldM receive_char (uart_out (port s2)) (demo_rtu\<lparr>eRcvState := STATE_RX_IDLE\<rparr>) = Some t1
     \<and> eMBRTUReceive t1 = Some (MB_ENOERR, Some (9, 1, 3))
     \<and> take 3 (drop 1 (ucRTUBuf t1)) = [0, 0, 0]"
proof -
  have t: "take 3 (drop 1 (ucRTUBuf demo_rtu)) = [0, 0, 0]"
    by (simp add: demo_rtu_def) (simp add: numeral_eq_Suc)
  show ?thesis
    using sent_frame_is_received [OF demo_idle_ok _ _ _ _ demo_idle_ok, of 3 9] t
    by (simp add: demo_rtu_def)
qed

text \<open>
  C16: a frame with one wrong character never reaches the function handlers: the receive routine
  answers with an I/O error.
\<close>

theorem corrupted_frame_rejected:
  assumes "rtu_ok t" "eRcvState t = STATE_RX_IDLE" "eSndState t = STATE_TX_IDLE"
    and "4 \<le> length bs" "length bs \<le> 256" "crc_ref bs = 0" "i < length bs" "b \<noteq> bs ! i"
  shows "\<exists>t1. foldM receive_char (bs[i := b]) t = Some t1 \<and> eMBRTUReceive t1 = Some (MB_EIO, None)"
proof -
  have lb: "length (ucRTUBuf t) = 256" using assms(1) by (simp add: rtu_ok_def ser_defs)
  obtain t1 where t1: "foldM receive_char (bs[i := b]) t = Some t1" "length (ucRTUBuf t1) = 256"
      "unat (usRcvBufferPos t1) = length (bs[i := b])" "take (length (bs[i := b])) (ucRTUBuf t1) = bs[i := b]"
    using receive_frame [OF assms(3,2) lb, of "bs[i := b]"] assms(5,7) by fastforce
  have "crc_ref (bs[i := b]) \<noteq> 0" using crc_detects_byte [OF assms(7,8)] assms(6) by simp
  then show ?thesis using t1 receive_verdict [OF t1(2,3) _ t1(4)] assms(5) by auto
qed

theorem corrupted_frame_rejected_witness:
  "\<exists>t1. foldM receive_char (([1, 3, 0, 0, 0, 1]
        @ [lo8 (crc_ref [1, 3, 0, 0, 0, 1]), hi8 (crc_ref [1, 3, 0, 0, 0, 1])])[2 := 7])
       (demo_rtu\<lparr>eRcvState := STATE_RX_IDLE\<rparr>) = Some t1
     \<and> eMBRTUReceive t1 = Some (MB_EIO, None)"
proof -
  have "crc_ref ([1, 3, 0, 0, 0, 1] @ [lo8 (crc_ref [1, 3, 0, 0, 0, 1]), hi8 (crc_ref [1, 3, 0, 0, 0, 1])]) = 0"
    unfolding crc_trailer by simp
  from corrupted_frame_rejected [OF demo_idle_ok _ _ _ _ this, of 2 7] show ?thesis
    by (simp add: demo_rtu_def)
qed

end
