(* ===== verification/MbPoll.thy ===== *)
theory MbPoll
  imports MbFunc MbRtu
begin

text \<open>
  components/net/freemodbus/modbus/mb.c: the state machine of the slave stack. \<open>eMBPoll\<close> takes one event of
  the port and either checks a received frame or executes its function and sends the response. The PDU
  pointer \<open>ucMBFrame\<close> is an index into the frame buffer of the RTU framing. Only RTU is compiled in.
\<close>

section \<open>Definitions\<close>

definition MB_ADDRESS_BROADCAST :: u8 where "MB_ADDRESS_BROADCAST = 0"
definition MB_ADDRESS_MIN :: u8 where "MB_ADDRESS_MIN = 1"
definition MB_ADDRESS_MAX :: u8 where "MB_ADDRESS_MAX = 247"
definition MB_FUNC_HANDLERS_MAX :: nat where "MB_FUNC_HANDLERS_MAX = 16"

datatype eMBMode = MB_RTU | MB_ASCII | MB_TCP
datatype mb_state = STATE_ENABLED | STATE_DISABLED | STATE_NOT_INITIALIZED

text \<open>The handler functions a table entry can point to.\<close>

datatype mb_fn = F_ReportSlaveID | F_ReadInputRegister | F_ReadHoldingRegister
  | F_WriteMultipleHoldingRegister | F_WriteHoldingRegister | F_ReadWriteMultipleHoldingRegister
  | F_ReadCoils | F_WriteCoil | F_WriteMultipleCoils | F_ReadDiscreteInputs

fun call_handler :: "mb_fn \<Rightarrow> u8 list \<Rightarrow> u16 \<Rightarrow> mb_data \<Rightarrow> mb_reply option" where
  "call_handler F_ReportSlaveID = eMBFuncReportSlaveID"
| "call_handler F_ReadInputRegister = eMBFuncReadInputRegister"
| "call_handler F_ReadHoldingRegister = eMBFuncReadHoldingRegister"
| "call_handler F_WriteMultipleHoldingRegister = eMBFuncWriteMultipleHoldingRegister"
| "call_handler F_WriteHoldingRegister = eMBFuncWriteHoldingRegister"
| "call_handler F_ReadWriteMultipleHoldingRegister = eMBFuncReadWriteMultipleHoldingRegister"
| "call_handler F_ReadCoils = eMBFuncReadCoils"
| "call_handler F_WriteCoil = eMBFuncWriteCoil"
| "call_handler F_WriteMultipleCoils = eMBFuncWriteMultipleCoils"
| "call_handler F_ReadDiscreteInputs = eMBFuncReadDiscreteInputs"

type_synonym handler_table = "(u8 \<times> mb_fn option) list"

definition xFuncHandlers_init :: handler_table where
  "xFuncHandlers_init =
     [(MB_FUNC_OTHER_REPORT_SLAVEID, Some F_ReportSlaveID),
      (MB_FUNC_READ_INPUT_REGISTER, Some F_ReadInputRegister),
      (MB_FUNC_READ_HOLDING_REGISTER, Some F_ReadHoldingRegister),
      (MB_FUNC_WRITE_MULTIPLE_REGISTERS, Some F_WriteMultipleHoldingRegister),
      (MB_FUNC_WRITE_REGISTER, Some F_WriteHoldingRegister),
      (MB_FUNC_READWRITE_MULTIPLE_REGISTERS, Some F_ReadWriteMultipleHoldingRegister),
      (MB_FUNC_READ_COILS, Some F_ReadCoils),
      (MB_FUNC_WRITE_SINGLE_COIL, Some F_WriteCoil),
      (MB_FUNC_WRITE_MULTIPLE_COILS, Some F_WriteMultipleCoils),
      (MB_FUNC_READ_DISCRETE_INPUTS, Some F_ReadDiscreteInputs)] @ replicate 6 (0, None)"

record mb =
  ucMBAddress :: u8
  eMBCurrentMode :: eMBMode
  eMBState :: mb_state
  xFuncHandlers :: handler_table
  ucMBFrame :: nat
  ucRcvAddress :: u8
  ucFunctionCode :: u8
  usLength :: u16
  eException :: eMBException
  framing :: rtu
  areas :: mb_data

subsection \<open>Starting and stopping\<close>

definition eMBInit ::
  "bool \<Rightarrow> bool \<Rightarrow> eMBMode \<Rightarrow> u8 \<Rightarrow> u8 \<Rightarrow> u32 \<Rightarrow> eMBParity \<Rightarrow> mb \<Rightarrow> (eMBErrorCode \<times> mb) option" where
  "eMBInit dev_found dev_opens eMode ucSlaveAddress ucPort ulBaudRate eParity s =
     (if ucSlaveAddress = MB_ADDRESS_BROADCAST \<or> ucSlaveAddress < MB_ADDRESS_MIN \<or> ucSlaveAddress > MB_ADDRESS_MAX
      then Some (MB_EINVAL, s)
      else do {
        let s = s\<lparr>ucMBAddress := ucSlaveAddress\<rparr>;
        (eStatus, r) \<leftarrow> (case eMode of
            MB_RTU \<Rightarrow> eMBRTUInit dev_found dev_opens (ucMBAddress s) ucPort ulBaudRate eParity (framing s)
          | _ \<Rightarrow> Some (MB_EINVAL, framing s));
        let s = s\<lparr>framing := r\<rparr>;
        if eStatus = MB_ENOERR then
          (let (ok, p) = xMBPortEventInit (port (framing s)); s = s\<lparr>framing := (framing s)\<lparr>port := p\<rparr>\<rparr>
           in if \<not> ok then Some (MB_EPORTERR, s)
              else Some (MB_ENOERR, s\<lparr>eMBCurrentMode := eMode, eMBState := STATE_DISABLED\<rparr>))
        else Some (eStatus, s)
      })"

definition eMBEnable :: "mb \<Rightarrow> eMBErrorCode \<times> mb" where
  "eMBEnable s =
     (if eMBState s = STATE_DISABLED
      then (MB_ENOERR, s\<lparr>framing := eMBRTUStart (framing s), eMBState := STATE_ENABLED\<rparr>)
      else (MB_EILLSTATE, s))"

definition eMBDisable :: "mb \<Rightarrow> eMBErrorCode \<times> mb" where
  "eMBDisable s =
     (if eMBState s = STATE_ENABLED
      then (MB_ENOERR, s\<lparr>framing := eMBRTUStop (framing s), eMBState := STATE_DISABLED\<rparr>)
      else if eMBState s = STATE_DISABLED then (MB_ENOERR, s)
      else (MB_EILLSTATE, s))"

text \<open>\<open>MB_PORT_HAS_CLOSE\<close> is 0, so the close pointer is \<open>NULL\<close>.\<close>

definition eMBClose :: "mb \<Rightarrow> eMBErrorCode \<times> mb" where
  "eMBClose s = (if eMBState s = STATE_DISABLED then (MB_ENOERR, s) else (MB_EILLSTATE, s))"

subsection \<open>The handler table\<close>

primrec set_handler :: "handler_table \<Rightarrow> u8 \<Rightarrow> mb_fn \<Rightarrow> handler_table option" where
  "set_handler [] c h = None"
| "set_handler (e # es) c h =
     (if snd e = None \<or> snd e = Some h then Some ((c, Some h) # es)
      else do { es \<leftarrow> set_handler es c h; Some (e # es) })"

primrec clear_handler :: "handler_table \<Rightarrow> u8 \<Rightarrow> handler_table" where
  "clear_handler [] c = []"
| "clear_handler (e # es) c = (if fst e = c then (0, None) # es else e # clear_handler es c)"

definition eMBRegisterCB :: "u8 \<Rightarrow> mb_fn option \<Rightarrow> mb \<Rightarrow> eMBErrorCode \<times> mb" where
  "eMBRegisterCB code pxHandler s =
     (if 0 < code \<and> code \<le> 127 then
        (case pxHandler of
           Some h \<Rightarrow> (case set_handler (xFuncHandlers s) code h of
               Some t \<Rightarrow> (MB_ENOERR, s\<lparr>xFuncHandlers := t\<rparr>)
             | None \<Rightarrow> (MB_ENORES, s))
         | None \<Rightarrow> (MB_ENOERR, s\<lparr>xFuncHandlers := clear_handler (xFuncHandlers s) code\<rparr>))
      else (MB_EINVAL, s))"

text \<open>The search loop of \<open>EV_EXECUTE\<close>: it stops at the first free entry.\<close>

primrec find_handler :: "handler_table \<Rightarrow> u8 \<Rightarrow> mb_fn option option" where
  "find_handler [] code = None"
| "find_handler (e # es) code =
     (if fst e = 0 then None else if fst e = code then Some (snd e) else find_handler es code)"

subsection \<open>Polling\<close>

text \<open>The pointer \<open>ucMBFrame\<close> as the list of the bytes from it on.\<close>

definition frame_of :: "mb \<Rightarrow> u8 list" where
  "frame_of s = drop (ucMBFrame s) (ucRTUBuf (framing s))"

definition set_frame :: "u8 list \<Rightarrow> mb \<Rightarrow> mb" where
  "set_frame f s = s\<lparr>framing := (framing s)\<lparr>ucRTUBuf := take (ucMBFrame s) (ucRTUBuf (framing s)) @ f\<rparr>\<rparr>"

text \<open>Looking up and running the handler.\<close>

definition execute_handler :: "mb \<Rightarrow> mb option" where
  "execute_handler s = do {
     code \<leftarrow> rd (frame_of s) MB_PDU_FUNC_OFF;
     let s = s\<lparr>ucFunctionCode := code, eException := MB_EX_ILLEGAL_FUNCTION\<rparr>;
     case find_handler (xFuncHandlers s) code of
       None \<Rightarrow> Some s
     | Some None \<Rightarrow> None
     | Some (Some h) \<Rightarrow> do {
         (e, f, n, d) \<leftarrow> call_handler h (frame_of s) (usLength s) (areas s);
         Some ((set_frame f s)\<lparr>eException := e, usLength := n, areas := d\<rparr>)
       }
   }"

text \<open>Building the exception response and sending.\<close>

definition send_response :: "mb \<Rightarrow> mb option" where
  "send_response s =
     (if ucRcvAddress s \<noteq> MB_ADDRESS_BROADCAST then do {
        s \<leftarrow> (if eException s \<noteq> MB_EX_NONE then do {
                f \<leftarrow> wr (frame_of s) 0 (ucFunctionCode s OR MB_FUNC_ERROR);
                f \<leftarrow> wr f 1 (exception_code (eException s));
                Some ((set_frame f s)\<lparr>usLength := 2\<rparr>)
              } else Some s);
        (_, r) \<leftarrow> eMBRTUSend (ucMBAddress s) (ucMBFrame s) (usLength s) (framing s);
        Some (s\<lparr>framing := r\<rparr>)
      } else Some s)"

definition eMBPoll :: "mb \<Rightarrow> (eMBErrorCode \<times> mb) option" where
  "eMBPoll s =
     (if eMBState s \<noteq> STATE_ENABLED then Some (MB_EILLSTATE, s)
      else do {
        (eEvent, p) \<leftarrow> xMBPortEventGet (port (framing s));
        let s = s\<lparr>framing := (framing s)\<lparr>port := p\<rparr>\<rparr>;
        s \<leftarrow> (case eEvent of
            EV_READY \<Rightarrow> Some s
          | EV_FRAME_RECEIVED \<Rightarrow> do {
              (eStatus, r) \<leftarrow> eMBRTUReceive (framing s);
              case r of
                None \<Rightarrow> Some s
              | Some (addr, frame, len) \<Rightarrow>
                  let s = s\<lparr>ucRcvAddress := addr, ucMBFrame := frame, usLength := len\<rparr>
                  in if addr = ucMBAddress s \<or> addr = MB_ADDRESS_BROADCAST
                     then Some (s\<lparr>framing := (framing s)\<lparr>port := snd (xMBPortEventPost EV_EXECUTE (port (framing s)))\<rparr>\<rparr>)
                     else Some s
            }
          | EV_EXECUTE \<Rightarrow> do { s \<leftarrow> execute_handler s; send_response s }
          | EV_FRAME_SENT \<Rightarrow> Some s);
        Some (MB_ENOERR, s)
      })"

subsection \<open>The slave on the line\<close>

text \<open>
  A frame arrives on the line: its characters, the pause, and the two polls that check and execute it.
\<close>

definition serve :: "u8 list \<Rightarrow> mb \<Rightarrow> mb option" where
  "serve bs s = do {
     r \<leftarrow> foldM receive_char bs (framing s);
     r \<leftarrow> xMBRTUTimerT35Expired r;
     (_, s) \<leftarrow> eMBPoll (s\<lparr>framing := r\<rparr>);
     (_, s) \<leftarrow> eMBPoll s;
     Some s
   }"

text \<open>A frame on the line: address, PDU and CRC.\<close>

definition line_frame :: "u8 \<Rightarrow> u8 list \<Rightarrow> u8 list" where
  "line_frame addr pdu = (addr # pdu) @ [lo8 (crc_ref (addr # pdu)), hi8 (crc_ref (addr # pdu))]"

definition mb_ok :: "mb \<Rightarrow> bool" where
  "mb_ok s \<longleftrightarrow> rtu_ok (framing s) \<and> data_ok (areas s) \<and> ucMBFrame s = 1 \<and> usLength s \<le> 253
     \<and> length (xFuncHandlers s) = MB_FUNC_HANDLERS_MAX
     \<and> (\<forall>e \<in> set (xFuncHandlers s). fst e \<noteq> 0 \<longrightarrow> snd e \<noteq> None)"

text \<open>Enabled, between two frames, no event pending.\<close>

definition quiet :: "mb \<Rightarrow> bool" where
  "quiet s \<longleftrightarrow> eMBState s = STATE_ENABLED \<and> eRcvState (framing s) = STATE_RX_IDLE
     \<and> eSndState (framing s) = STATE_TX_IDLE \<and> ev_set (xSlaveOsEvent (port (framing s))) = 0"

text \<open>A slave with address 5 after its start-up pause.\<close>

definition demo_mb :: mb where
  "demo_mb = \<lparr>ucMBAddress = 5, eMBCurrentMode = MB_RTU, eMBState = STATE_ENABLED, xFuncHandlers = xFuncHandlers_init,
     ucMBFrame = 1, ucRcvAddress = 0, ucFunctionCode = 0, usLength = 0, eException = MB_EX_NONE,
     framing = demo_rtu\<lparr>eRcvState := STATE_RX_IDLE\<rparr>, areas = demo_data\<rparr>"

section \<open>Receiving a request\<close>

lemma receive_and_pause:
  assumes "eSndState r = STATE_TX_IDLE" "eRcvState r = STATE_RX_IDLE" "length (ucRTUBuf r) = 256"
    "port_ok (port r)" "bs \<noteq> []" "length bs \<le> 256" "ev_set (xSlaveOsEvent (port r)) = 0"
  shows "\<exists>r1 r2. foldM receive_char bs r = Some r1 \<and> xMBRTUTimerT35Expired r1 = Some r2
     \<and> eSndState r2 = STATE_TX_IDLE \<and> eRcvState r2 = STATE_RX_IDLE \<and> length (ucRTUBuf r2) = 256
     \<and> unat (usRcvBufferPos r2) = length bs \<and> take (length bs) (ucRTUBuf r2) = bs
     \<and> port r2 = (port r)\<lparr>uart_in := [], timer_on := False,
          xSlaveOsEvent := (xSlaveOsEvent (port r))\<lparr>ev_set := 2\<rparr>\<rparr>"
proof -
  obtain r1 where r1: "foldM receive_char bs r = Some r1" "eSndState r1 = STATE_TX_IDLE" "eRcvState r1 = STATE_RX_RCV"
      "length (ucRTUBuf r1) = 256" "unat (usRcvBufferPos r1) = length bs" "take (length bs) (ucRTUBuf r1) = bs"
      "port r1 = vMBPortTimersEnable ((port r)\<lparr>uart_in := []\<rparr>)"
    using receive_frame [OF assms(1-3,5,6)] by blast
  have "port_ok (port r1)" using assms(4) by (simp add: r1(7))
  then show ?thesis
    using r1 assms(7)
    by (simp add: xMBRTUTimerT35Expired_def post_simps) (simp add: vMBPortTimersEnable_def vMBPortTimersDisable_def)
qed

lemma line_frame_facts:
  "length (line_frame addr pdu) = length pdu + 3" "crc_ref (line_frame addr pdu) = 0"
  "line_frame addr pdu ! 0 = addr" "line_frame addr pdu \<noteq> []"
  unfolding line_frame_def crc_trailer by simp_all

text \<open>
  The first poll hands a well-formed frame for this slave to the second, which executes it.
\<close>

lemma serve_executes:
  assumes "mb_ok s" "quiet s" "1 \<le> length pdu" "length pdu \<le> 253"
    and "addr = ucMBAddress s \<or> addr = MB_ADDRESS_BROADCAST"
  shows "\<exists>rest r1. serve (line_frame addr pdu) s = Option.bind (execute_handler
         (s\<lparr>ucRcvAddress := addr, ucMBFrame := 1, usLength := of_nat (length pdu), framing := r1\<rparr>)) send_response
     \<and> ucRTUBuf r1 = addr # pdu @ rest \<and> length rest = 255 - length pdu \<and> rtu_ok r1
     \<and> eRcvState r1 = STATE_RX_IDLE \<and> eSndState r1 = STATE_TX_IDLE
     \<and> uart_out (port r1) = uart_out (port (framing s)) \<and> ev_set (xSlaveOsEvent (port r1)) = 0"
proof -
  let ?bs = "line_frame addr pdu"
  have ok: "eSndState (framing s) = STATE_TX_IDLE" "eRcvState (framing s) = STATE_RX_IDLE"
    "length (ucRTUBuf (framing s)) = 256" "port_ok (port (framing s))" "?bs \<noteq> []" "length ?bs \<le> 256"
    "ev_set (xSlaveOsEvent (port (framing s))) = 0" "\<not> tx_requested (port (framing s))"
    using assms(1-4) by (auto simp: mb_ok_def quiet_def rtu_ok_def ser_defs line_frame_facts)
  obtain r1 r2 where r: "foldM receive_char ?bs (framing s) = Some r1" "xMBRTUTimerT35Expired r1 = Some r2"
      "eSndState r2 = STATE_TX_IDLE" "eRcvState r2 = STATE_RX_IDLE" "length (ucRTUBuf r2) = 256"
      "unat (usRcvBufferPos r2) = length ?bs" "take (length ?bs) (ucRTUBuf r2) = ?bs"
      "port r2 = (port (framing s))\<lparr>uart_in := [], timer_on := False,
          xSlaveOsEvent := (xSlaveOsEvent (port (framing s)))\<lparr>ev_set := 2\<rparr>\<rparr>"
    using receive_and_pause [OF ok(1-7)] by blast
  let ?p1 = "(port r2)\<lparr>xSlaveOsEvent := (xSlaveOsEvent (port r2))\<lparr>ev_set := 0\<rparr>\<rparr>"
  have g1: "xMBPortEventGet (port r2) = Some (EV_FRAME_RECEIVED, ?p1)"
    by (rule get_single) (simp add: r(8))
  have v: "eMBRTUReceive (r2\<lparr>port := ?p1\<rparr>) = Some (MB_ENOERR, Some (addr, 1, of_nat (length pdu)))"
    using receive_verdict [of "r2\<lparr>port := ?p1\<rparr>" ?bs] r(5-7) ok(6) assms(3) by (simp add: line_frame_facts)
  have p1: "port_ok ?p1" using ok(4) by (simp add: r(8) port_ok_def)
  let ?p2 = "?p1\<lparr>xSlaveOsEvent := (xSlaveOsEvent ?p1)\<lparr>ev_set := 4\<rparr>\<rparr>"
  have post: "snd (xMBPortEventPost EV_EXECUTE ?p1) = ?p2" using post_simps [OF p1, of EV_EXECUTE] by simp
  let ?p3 = "?p2\<lparr>xSlaveOsEvent := (xSlaveOsEvent ?p2)\<lparr>ev_set := 0\<rparr>\<rparr>"
  have g2: "xMBPortEventGet ?p2 = Some (EV_EXECUTE, ?p3)" by (rule get_single) simp
  let ?s1 = "s\<lparr>ucRcvAddress := addr, ucMBFrame := 1, usLength := of_nat (length pdu), framing := r2\<lparr>port := ?p2\<rparr>\<rparr>"
  let ?s2 = "s\<lparr>ucRcvAddress := addr, ucMBFrame := 1, usLength := of_nat (length pdu), framing := r2\<lparr>port := ?p3\<rparr>\<rparr>"
  have en: "eMBState s = STATE_ENABLED" using assms(2) by (simp add: quiet_def)
  have "eMBPoll (s\<lparr>framing := r2\<rparr>) = Some (MB_ENOERR, ?s1)"
    using assms(5) en g1 v post by (auto simp: eMBPoll_def Let_def)
  moreover have "eMBPoll ?s1 = Option.bind (execute_handler ?s2) (\<lambda>s. Option.bind (send_response s) (\<lambda>s. Some (MB_ENOERR, s)))"
    using en g2 by (simp add: eMBPoll_def Let_def)
  ultimately have "serve ?bs s = Option.bind (execute_handler ?s2) send_response"
    using r(1,2) by (simp add: serve_def)
  moreover obtain rest where "ucRTUBuf r2 = addr # pdu @ rest" "length rest = 255 - length pdu"
  proof
    have "take (1 + length pdu) (ucRTUBuf r2) = take (1 + length pdu) (take (length ?bs) (ucRTUBuf r2))"
      by (simp add: line_frame_facts min_def)
    then have "take (1 + length pdu) (ucRTUBuf r2) = addr # pdu" unfolding r(7) by (simp add: line_frame_def)
    then show "ucRTUBuf r2 = addr # pdu @ drop (1 + length pdu) (ucRTUBuf r2)"
      by (metis append_take_drop_id append_Cons)
    show "length (drop (1 + length pdu) (ucRTUBuf r2)) = 255 - length pdu" using r(5) by simp
  qed
  moreover have "rtu_ok (r2\<lparr>port := ?p3\<rparr>)"
    using r(3-6,8) ok(4,6,8) by (simp add: rtu_ok_def ser_defs port_ok_def tx_requested_def)
  ultimately show ?thesis
    using r(3,4,8) by (intro exI [of _ rest] exI [of _ "r2\<lparr>port := ?p3\<rparr>"]) simp
qed

section \<open>Responding\<close>

lemma send_on_line:
  assumes "rtu_ok (framing s)" "eRcvState (framing s) = STATE_RX_IDLE" "uart_out (port (framing s)) = []"
    and "ucMBFrame s = 1" "usLength s \<le> 253" "ucRcvAddress s \<noteq> 0" "eException s = MB_EX_NONE"
  shows "\<exists>s' r. send_response s = Some s' \<and> areas s' = areas s
     \<and> (xmit ^^ (unat (usLength s) + 4)) (Some (framing s')) = Some r \<and> eSndState r = STATE_TX_IDLE
     \<and> uart_out (port r) = line_frame (ucMBAddress s) (take (unat (usLength s)) (frame_of s))"
proof -
  note c = send_count [OF assms(5)]
  have lb: "length (ucRTUBuf (framing s)) = 256" "port_ok (port (framing s))"
    using assms(1) by (simp_all add: rtu_ok_def ser_defs)
  obtain buf where snd: "eMBRTUSend (ucMBAddress s) 1 (usLength s) (framing s) = Some (MB_ENOERR,
      (framing s)\<lparr>ucRTUBuf := buf, pucSndBufferCur := 0, usSndBufferCount := 3 + usLength s,
        eSndState := STATE_TX_XMIT, port := vMBPortSerialEnable False True (port (framing s))\<rparr>)" (is "_ = Some (_, ?r)")
      "length buf = 256" "take (3 + unat (usLength s)) buf = line_frame (ucMBAddress s) (take (unat (usLength s)) (frame_of s))"
    using send_result [OF lb(1) assms(2,5), of "ucMBAddress s"] by (auto simp: line_frame_def frame_of_def assms(4))
  have cnt: "unat (usSndBufferCount ?r) = 3 + unat (usLength s)" using c by (simp add: unat_word_ariths)
  have out: "uart_out (port ?r) = []" using assms(3) serial_enable_simps [OF lb(2)] by simp
  have "\<exists>r. (xmit ^^ Suc (3 + unat (usLength s))) (Some ?r) = Some r \<and> eSndState r = STATE_TX_IDLE
      \<and> uart_out (port r) = line_frame (ucMBAddress s) (take (unat (usLength s)) (frame_of s))"
    using transmit_frame [OF _ _ _ cnt] assms(2) snd(2,3) c(4) enable_kept(1) [OF lb(2)] out by auto
  moreover have "Suc (3 + unat (usLength s)) = unat (usLength s) + 4" by simp
  ultimately obtain r where "(xmit ^^ (unat (usLength s) + 4)) (Some ?r) = Some r" "eSndState r = STATE_TX_IDLE"
      "uart_out (port r) = line_frame (ucMBAddress s) (take (unat (usLength s)) (frame_of s))"
    by metis
  moreover have "send_response s = Some (s\<lparr>framing := ?r\<rparr>)"
    using assms(4,6,7) snd(1) by (simp add: send_response_def MB_ADDRESS_BROADCAST_def)
  ultimately show ?thesis by (intro exI conjI) (assumption | simp)+
qed

text \<open>An exception is reported with the function code marked and the exception code.\<close>

lemma exception_on_line:
  assumes "rtu_ok (framing s)" "eRcvState (framing s) = STATE_RX_IDLE" "uart_out (port (framing s)) = []"
    and "ucMBFrame s = 1" "ucRcvAddress s \<noteq> 0" "eException s \<noteq> MB_EX_NONE"
  shows "\<exists>s' r. send_response s = Some s' \<and> areas s' = areas s
     \<and> (xmit ^^ 6) (Some (framing s')) = Some r \<and> eSndState r = STATE_TX_IDLE
     \<and> uart_out (port r) = line_frame (ucMBAddress s) [ucFunctionCode s OR MB_FUNC_ERROR, exception_code (eException s)]"
proof -
  have lb: "length (ucRTUBuf (framing s)) = 256" using assms(1) by (simp add: rtu_ok_def ser_defs)
  define f where "f = (frame_of s)[0 := ucFunctionCode s OR MB_FUNC_ERROR, 1 := exception_code (eException s)]"
  define t where "t = (set_frame f s)\<lparr>usLength := 2, eException := MB_EX_NONE\<rparr>"
  have fl: "length (frame_of s) = 255" using lb assms(4) by (simp add: frame_of_def)
  have tk: "take 2 f = [ucFunctionCode s OR MB_FUNC_ERROR, exception_code (eException s)]"
    using fl by (cases "frame_of s"; cases "tl (frame_of s)") (auto simp: f_def)
  have fr: "frame_of t = f" using lb assms(4) by (simp add: t_def frame_of_def set_frame_def)
  have ok: "rtu_ok (framing t)"
    using assms(1) lb assms(4) fl by (simp add: t_def set_frame_def rtu_ok_def ser_defs f_def)
  have "\<exists>s' r. send_response t = Some s' \<and> areas s' = areas t
     \<and> (xmit ^^ (unat (usLength t) + 4)) (Some (framing s')) = Some r \<and> eSndState r = STATE_TX_IDLE
     \<and> uart_out (port r) = line_frame (ucMBAddress t) (take (unat (usLength t)) (frame_of t))"
    by (rule send_on_line [OF ok]) (use assms in \<open>simp_all add: t_def set_frame_def\<close>)
  then obtain t' r where t': "send_response t = Some t'" "areas t' = areas t" "(xmit ^^ 6) (Some (framing t')) = Some r"
      "eSndState r = STATE_TX_IDLE" "uart_out (port r) = line_frame (ucMBAddress s) (take 2 f)"
    unfolding fr by (auto simp: t_def set_frame_def)
  have "send_response s = map_option (\<lambda>x. x\<lparr>eException := eException s\<rparr>) (send_response t)"
    using assms(4-6) fl
    by (simp add: send_response_def MB_ADDRESS_BROADCAST_def f_def t_def set_frame_def split: bind_splits)
  then show ?thesis
    using t' by (intro exI [of _ "t'\<lparr>eException := eException s\<rparr>"] exI [of _ r]) (simp add: tk t_def set_frame_def)
qed

section \<open>The invariant of the stack\<close>

text \<open>Every entry of the table meets the contract.\<close>

lemma call_handler_contract: "pdu_handler (call_handler h)"
  by (cases h) (simp_all add: fReport.pdu_handler_axioms fReadInput.pdu_handler_axioms fReadHolding.pdu_handler_axioms
      fWriteMultiple.pdu_handler_axioms fWriteHolding.pdu_handler_axioms fReadWrite.pdu_handler_axioms
      fReadCoils.pdu_handler_axioms fWriteCoil.pdu_handler_axioms fWriteCoils.pdu_handler_axioms
      fReadDiscrete.pdu_handler_axioms)

lemma call_handler_keeps:
  assumes "call_handler h f n d = Some (e, f', n', d')" "length f = 255" "data_ok d" "n \<le> 253"
  shows "length f' = 255" "data_ok d'" "n' \<le> 253"
  using pdu_handler.handler_keeps [OF call_handler_contract assms] by blast+

lemma find_handler_table:
  "find_handler t c = Some h \<Longrightarrow> (c, h) \<in> set t \<and> c \<noteq> 0"
  by (induction t) (auto split: if_splits)

lemma execute_handler_ok:
  assumes "mb_ok s" "execute_handler s = Some s'"
  shows "mb_ok s'" "eRcvState (framing s') = eRcvState (framing s)" "port (framing s') = port (framing s)"
    "eSndState (framing s') = eSndState (framing s)" "ucMBAddress s' = ucMBAddress s" "eMBState s' = eMBState s"
    "ucRcvAddress s' = ucRcvAddress s"
proof -
  have len: "length (ucRTUBuf (framing s)) = 256" "ucMBFrame s = 1" using assms(1) by (simp_all add: mb_ok_def rtu_ok_def ser_defs)
  have fl: "length (frame_of s) = 255" using len by (simp add: frame_of_def)
  have fr: "frame_of (s\<lparr>ucFunctionCode := c, eException := e\<rparr>) = frame_of s" for c e by (simp add: frame_of_def)
  have "mb_ok s' \<and> eRcvState (framing s') = eRcvState (framing s) \<and> port (framing s') = port (framing s)
    \<and> eSndState (framing s') = eSndState (framing s) \<and> ucMBAddress s' = ucMBAddress s \<and> eMBState s' = eMBState s
    \<and> ucRcvAddress s' = ucRcvAddress s"
  proof (cases "find_handler (xFuncHandlers s) (frame_of s ! 0)")
    case None
    then show ?thesis using assms fl by (auto simp: execute_handler_def pdu_defs mb_ok_def)
  next
    case (Some h)
    then obtain k e f n d where k: "h = Some k" "call_handler k (frame_of s) (usLength s) (areas s) = Some (e, f, n, d)"
        "s' = (set_frame f (s\<lparr>ucFunctionCode := frame_of s ! 0, eException := MB_EX_ILLEGAL_FUNCTION\<rparr>))\<lparr>eException := e, usLength := n, areas := d\<rparr>"
      using assms(2) fl by (auto simp: execute_handler_def pdu_defs fr bind_eq_Some_conv Let_def split: option.splits)
    have "data_ok (areas s)" "usLength s \<le> 253" using assms(1) by (simp_all add: mb_ok_def)
    note kept = call_handler_keeps [OF k(2) fl this]
    show ?thesis using assms(1) kept len by (simp add: k(3) set_frame_def mb_ok_def rtu_ok_def ser_defs)
  qed
  then show "mb_ok s'" "eRcvState (framing s') = eRcvState (framing s)" "port (framing s') = port (framing s)"
    "eSndState (framing s') = eSndState (framing s)" "ucMBAddress s' = ucMBAddress s" "eMBState s' = eMBState s"
    "ucRcvAddress s' = ucRcvAddress s" by blast+
qed

lemma execute_handler_run:
  assumes "rd (frame_of s) 0 = Some c" "find_handler (xFuncHandlers s) c = Some (Some h)"
    "call_handler h (frame_of s) (usLength s) (areas s) = Some (e, f, n, d)"
  shows "execute_handler s = Some ((set_frame f (s\<lparr>ucFunctionCode := c, eException := MB_EX_ILLEGAL_FUNCTION\<rparr>))
     \<lparr>eException := e, usLength := n, areas := d\<rparr>)"
proof -
  have "frame_of (s\<lparr>ucFunctionCode := c, eException := x\<rparr>) = frame_of s" for x by (simp add: frame_of_def)
  then show ?thesis using assms by (simp add: execute_handler_def pdu_defs)
qed

lemma send_response_ok:
  assumes "mb_ok s" "send_response s = Some s'"
  shows "mb_ok s'"
proof (cases "ucRcvAddress s = 0")
  case True
  then show ?thesis using assms by (simp add: send_response_def MB_ADDRESS_BROADCAST_def)
next
  case False
  have len: "length (ucRTUBuf (framing s)) = 256" "ucMBFrame s = 1" using assms(1) by (simp_all add: mb_ok_def rtu_ok_def ser_defs)
  then have fl: "length (frame_of s) = 255" by (simp add: frame_of_def)
  define t where "t = (if eException s \<noteq> MB_EX_NONE
     then (set_frame ((frame_of s)[0 := ucFunctionCode s OR MB_FUNC_ERROR, 1 := exception_code (eException s)]) s)\<lparr>usLength := 2\<rparr> else s)"
  have t: "mb_ok t" using assms(1) len fl by (simp add: t_def set_frame_def mb_ok_def rtu_ok_def ser_defs)
  obtain e r where r: "eMBRTUSend (ucMBAddress t) (ucMBFrame t) (usLength t) (framing t) = Some (e, r)" "s' = t\<lparr>framing := r\<rparr>"
    using assms(2) False fl
    by (auto simp: send_response_def MB_ADDRESS_BROADCAST_def t_def bind_eq_Some_conv split: if_splits)
  have "rtu_ok r" using send_safe [of "framing t" "usLength t" "ucMBAddress t"] t r(1) by (auto simp: mb_ok_def)
  then show ?thesis using t r(2) by (simp add: mb_ok_def)
qed

lemma receive_length:
  assumes "eMBRTUReceive r = Some (e, Some (addr, frame, len))" "rtu_ok r"
  shows "frame = 1" "len \<le> 253"
proof -
  have p: "4 \<le> unat (usRcvBufferPos r)" "unat (usRcvBufferPos r) \<le> 256" "frame = 1" "len = usRcvBufferPos r - 1 - 2"
    using assms by (auto simp: eMBRTUReceive_def ser_defs bind_eq_Some_conv split: if_splits)
  have "3 \<le> usRcvBufferPos r" using p(1) by (simp add: word_le_nat_alt)
  then have "unat (usRcvBufferPos r - 3) = unat (usRcvBufferPos r) - 3" by (simp add: unat_sub)
  then show "frame = 1" "len \<le> 253" using p by (simp_all add: word_le_nat_alt)
qed

lemma eMBPoll_ok:
  assumes "mb_ok s" "eMBPoll s = Some (e, s')"
  shows "mb_ok s'"
proof (cases "eMBState s = STATE_ENABLED")
  case False
  then show ?thesis using assms by (simp add: eMBPoll_def)
next
  case True
  then obtain ev p where g: "xMBPortEventGet (port (framing s)) = Some (ev, p)"
    using assms(2) by (auto simp: eMBPoll_def bind_eq_Some_conv)
  let ?s = "s\<lparr>framing := (framing s)\<lparr>port := p\<rparr>\<rparr>"
  have ok: "mb_ok ?s" using assms(1) get_kept [OF g] by (simp add: mb_ok_def rtu_ok_def)
  then have r: "rtu_ok ((framing s)\<lparr>port := p\<rparr>)" "port_ok p" by (simp_all add: mb_ok_def rtu_ok_def)
  show ?thesis
  proof (cases ev)
    case EV_READY
    then show ?thesis using assms(2) True g ok by (simp add: eMBPoll_def)
  next
    case EV_FRAME_SENT
    then show ?thesis using assms(2) True g ok by (simp add: eMBPoll_def)
  next
    case EV_EXECUTE
    then obtain s1 where "execute_handler ?s = Some s1" "send_response s1 = Some s'"
      using assms(2) True g by (auto simp: eMBPoll_def bind_eq_Some_conv)
    then show ?thesis using execute_handler_ok(1) [OF ok] send_response_ok by blast
  next
    case EV_FRAME_RECEIVED
    then obtain es ro where rc: "eMBRTUReceive ((framing s)\<lparr>port := p\<rparr>) = Some (es, ro)"
      using assms(2) True g by (auto simp: eMBPoll_def bind_eq_Some_conv Let_def)
    show ?thesis
    proof (cases ro)
      case None
      then show ?thesis using assms(2) True g ok rc EV_FRAME_RECEIVED by (simp add: eMBPoll_def)
    next
      case (Some x)
      obtain addr frame len where x: "x = (addr, frame, len)" by (cases x)
      from receive_length [OF rc [unfolded Some x] r(1)] have "frame = 1" "len \<le> 253" .
      then show ?thesis
        using assms(2) True g ok rc EV_FRAME_RECEIVED Some x r(2)
        by (auto simp: eMBPoll_def mb_ok_def rtu_ok_def post_kept Let_def split: if_splits)
    qed
  qed
qed

lemma demo_mb_facts: "mb_ok demo_mb" "quiet demo_mb"
proof -
  have "rtu_ok (framing demo_mb)" using demo_idle_ok by (simp add: demo_mb_def)
  moreover have "data_ok (areas demo_mb)" using demo_data_ok by (simp add: demo_mb_def)
  ultimately show "mb_ok demo_mb" by (simp add: mb_ok_def demo_mb_def xFuncHandlers_init_def MB_FUNC_HANDLERS_MAX_def)
  show "quiet demo_mb" by (simp add: quiet_def demo_mb_def demo_rtu_def rt_event_init_def)
qed

lemma read_request_served:
  assumes "mb_ok s" "quiet s" "uart_out (port (framing s)) = []" "xFuncHandlers s = xFuncHandlers_init"
    and "ucMBAddress s \<noteq> 0" "1 \<le> n" "n \<le> 125" "unat a + unat n \<le> S_REG_HOLDING_NREGS"
  shows "\<exists>s' r. serve (line_frame (ucMBAddress s) [MB_FUNC_READ_HOLDING_REGISTER, hi8 a, lo8 a, hi8 n, lo8 n]) s = Some s'
     \<and> areas s' = areas s
     \<and> (xmit ^^ (2 * unat n + 6)) (Some (framing s')) = Some r \<and> eSndState r = STATE_TX_IDLE
     \<and> uart_out (port r) = line_frame (ucMBAddress s) (MB_FUNC_READ_HOLDING_REGISTER # ucast (n * 2)
          # regs_bytes (take (unat n) (drop (unat a) (usSRegHoldBuf (areas s)))))"
proof -
  let ?pdu = "[MB_FUNC_READ_HOLDING_REGISTER, hi8 a, lo8 a, hi8 n, lo8 n]"
  let ?regs = "regs_bytes (take (unat n) (drop (unat a) (usSRegHoldBuf (areas s))))"
  have pl: "1 \<le> length ?pdu" "length ?pdu \<le> 253" by simp_all
  obtain rest r1 where r1: "serve (line_frame (ucMBAddress s) ?pdu) s = Option.bind (execute_handler
         (s\<lparr>ucRcvAddress := ucMBAddress s, ucMBFrame := 1, usLength := of_nat (length ?pdu), framing := r1\<rparr>)) send_response"
      (is "_ = Option.bind (execute_handler ?s1) _")
      "ucRTUBuf r1 = ucMBAddress s # ?pdu @ rest" "length rest = 255 - length ?pdu" "rtu_ok r1"
      "eRcvState r1 = STATE_RX_IDLE" "uart_out (port r1) = uart_out (port (framing s))"
    using serve_executes [OF assms(1,2) pl, of "ucMBAddress s"] by blast
  have d: "data_ok (areas s)" using assms(1) by (simp add: mb_ok_def)
  have rl: "length rest = 250" using r1(3) by simp
  have frame: "frame_of ?s1 = read_request MB_FUNC_READ_HOLDING_REGISTER a n rest"
    by (simp add: frame_of_def r1(2) read_request_def)
  have fh: "find_handler xFuncHandlers_init MB_FUNC_READ_HOLDING_REGISTER = Some (Some F_ReadHoldingRegister)"
    by (simp add: xFuncHandlers_init_def func_codes)
  define f where "f = [MB_FUNC_READ_HOLDING_REGISTER, ucast (n * 2)] @ splice_at 0 ?regs (lo8 a # hi8 n # lo8 n # rest)"
  have hd: "call_handler F_ReadHoldingRegister (read_request MB_FUNC_READ_HOLDING_REGISTER a n rest) 5 (areas s)
      = Some (MB_EX_NONE, f, 2 + n * 2, areas s)"
    using read_holding_valid [OF d rl assms(6-8)] by (simp add: f_def)
  let ?s2 = "(set_frame f (?s1\<lparr>ucFunctionCode := MB_FUNC_READ_HOLDING_REGISTER, eException := MB_EX_ILLEGAL_FUNCTION\<rparr>))
      \<lparr>eException := MB_EX_NONE, usLength := 2 + n * 2, areas := areas s\<rparr>"
  have "rd (frame_of ?s1) 0 = Some MB_FUNC_READ_HOLDING_REGISTER" unfolding frame by (simp add: read_request_def)
  then have ex: "execute_handler ?s1 = Some ?s2"
    by (rule execute_handler_run [where h = F_ReadHoldingRegister]) (use assms(4) fh hd in \<open>simp_all add: frame [simplified]\<close>)
  have lr: "length ?regs = 2 * unat n" using d assms(8) by (auto simp: data_ok_def regs_ok_def min_def)
  have un: "unat (2 + n * 2) = 2 + 2 * unat n" using assms(7) by (simp add: word_le_nat_alt unat_word_ariths)
  have lf: "length f = 255" using lr assms(7) rl by (simp add: f_def splice_at_def word_le_nat_alt)
  have s2: "framing ?s2 = r1\<lparr>ucRTUBuf := ucMBAddress s # f\<rparr>" "frame_of ?s2 = f"
    by (simp_all add: set_frame_def frame_of_def r1(2))
  have "rtu_ok (framing ?s2)" unfolding s2(1) using r1(4) lf by (simp add: rtu_ok_def ser_defs)
  moreover have "2 + n * 2 \<le> 253" by (rule count_bound(1) [OF assms(7)])
  ultimately obtain s' r where "send_response ?s2 = Some s'" "areas s' = areas s"
      "(xmit ^^ (unat (2 + n * 2) + 4)) (Some (framing s')) = Some r" "eSndState r = STATE_TX_IDLE"
      "uart_out (port r) = line_frame (ucMBAddress s) (take (unat (2 + n * 2)) f)"
    using send_on_line [of ?s2] assms(3,5) r1(5,6) s2 by (auto simp: set_frame_def)
  moreover have "take (unat (2 + n * 2)) f = MB_FUNC_READ_HOLDING_REGISTER # ucast (n * 2) # ?regs"
    unfolding un f_def by (rule take_reply [OF lr])
  moreover have "unat (2 + n * 2) + 4 = 2 * unat n + 6" using un by simp
  ultimately show ?thesis using r1(1) ex by auto
qed

section \<open>Properties\<close>

text \<open>
  C2: a host that sends a correct read request for a block of the table on the line gets back, on the
  line, a frame of the slave with the registers of that block and a correct CRC; the request changes no
  data.
\<close>

theorem read_request_answered:
  assumes "mb_ok s" "quiet s" "uart_out (port (framing s)) = []" "xFuncHandlers s = xFuncHandlers_init"
    and "ucMBAddress s \<noteq> 0" "1 \<le> n" "n \<le> 125" "unat a + unat n \<le> S_REG_HOLDING_NREGS"
  shows "\<exists>s' r. serve (line_frame (ucMBAddress s) [MB_FUNC_READ_HOLDING_REGISTER, hi8 a, lo8 a, hi8 n, lo8 n]) s = Some s'
     \<and> areas s' = areas s
     \<and> (xmit ^^ (2 * unat n + 6)) (Some (framing s')) = Some r \<and> eSndState r = STATE_TX_IDLE
     \<and> uart_out (port r) = line_frame (ucMBAddress s) (MB_FUNC_READ_HOLDING_REGISTER # ucast (n * 2)
          # regs_bytes (take (unat n) (drop (unat a) (usSRegHoldBuf (areas s)))))"
  by (rule read_request_served [OF assms])

theorem read_request_answered_witness:
  "\<exists>s' r. serve (line_frame 5 [MB_FUNC_READ_HOLDING_REGISTER, hi8 8, lo8 8, hi8 2, lo8 2]) demo_mb = Some s'
     \<and> (xmit ^^ 10) (Some (framing s')) = Some r
     \<and> uart_out (port r) = line_frame 5 [MB_FUNC_READ_HOLDING_REGISTER, 4, 0, 0, 0, 0]"
proof -
  have z: "regs_bytes (take 2 (drop 8 (usSRegHoldBuf (areas demo_mb)))) = [0, 0, 0, 0]"
    by (simp add: demo_mb_def demo_data_def numeral_2_eq_2 hi8_def lo8_def)
  show ?thesis
    using read_request_answered [OF demo_mb_facts, of 2 8]
    by (simp add: demo_mb_def demo_rtu_def S_REG_HOLDING_NREGS_def z [unfolded demo_mb_def, simplified]) blast
qed

text \<open>
  C17: a frame with a function code the slave has no handler for is answered with the exception
  \<open>ILLEGAL FUNCTION\<close>: the code with its top bit set, followed by 1. No data changes.
\<close>

theorem unknown_function_refused:
  assumes "mb_ok s" "quiet s" "uart_out (port (framing s)) = []" "ucMBAddress s \<noteq> 0"
    and "find_handler (xFuncHandlers s) c = None" "length xs \<le> 252"
  shows "\<exists>s' r. serve (line_frame (ucMBAddress s) (c # xs)) s = Some s' \<and> areas s' = areas s
     \<and> (xmit ^^ 6) (Some (framing s')) = Some r
     \<and> uart_out (port r) = line_frame (ucMBAddress s) [c OR MB_FUNC_ERROR, 1]"
proof -
  have pl: "1 \<le> length (c # xs)" "length (c # xs) \<le> 253" using assms(6) by simp_all
  obtain rest r1 where r1: "serve (line_frame (ucMBAddress s) (c # xs)) s = Option.bind (execute_handler
         (s\<lparr>ucRcvAddress := ucMBAddress s, ucMBFrame := 1, usLength := of_nat (length (c # xs)), framing := r1\<rparr>)) send_response"
      (is "_ = Option.bind (execute_handler ?s1) _")
      "ucRTUBuf r1 = ucMBAddress s # (c # xs) @ rest" "rtu_ok r1"
      "eRcvState r1 = STATE_RX_IDLE" "uart_out (port r1) = uart_out (port (framing s))"
    using serve_executes [OF assms(1,2) pl, of "ucMBAddress s"] by blast
  let ?s2 = "?s1\<lparr>ucFunctionCode := c, eException := MB_EX_ILLEGAL_FUNCTION\<rparr>"
  have ex: "execute_handler ?s1 = Some ?s2"
    using assms(5) by (simp add: execute_handler_def frame_of_def r1(2) pdu_defs)
  obtain s' r where "send_response ?s2 = Some s'" "areas s' = areas s"
      "(xmit ^^ 6) (Some (framing s')) = Some r"
      "uart_out (port r) = line_frame (ucMBAddress s) [c OR MB_FUNC_ERROR, 1]"
    using exception_on_line [of ?s2] r1(3-5) assms(3,4) by auto
  then show ?thesis using r1(1) ex by auto
qed

theorem unknown_function_refused_witness:
  "\<exists>s' r. serve (line_frame 5 [43, 14]) demo_mb = Some s' \<and> (xmit ^^ 6) (Some (framing s')) = Some r
     \<and> uart_out (port r) = line_frame 5 [0xAB, 1]"
proof -
  have "find_handler (xFuncHandlers demo_mb) 43 = None"
    by (simp add: demo_mb_def xFuncHandlers_init_def func_codes) (simp add: numeral_eq_Suc)
  from unknown_function_refused [OF demo_mb_facts _ _ this, of "[14]"] show ?thesis
    by (auto simp: demo_mb_def demo_rtu_def MB_FUNC_ERROR_def)
qed

text \<open>
  A broadcast request is executed but not answered: whatever the handler did, nothing is put on
  the line and the transmitter stays idle.
\<close>

lemma broadcast_not_answered:
  assumes "mb_ok s" "quiet s" "1 \<le> length pdu" "length pdu \<le> 253"
    and "serve (line_frame MB_ADDRESS_BROADCAST pdu) s = Some s'"
  shows "uart_out (port (framing s')) = uart_out (port (framing s)) \<and> eSndState (framing s') = STATE_TX_IDLE \<and> mb_ok s'"
proof -
  obtain rest r1 where r1: "serve (line_frame MB_ADDRESS_BROADCAST pdu) s = Option.bind (execute_handler
         (s\<lparr>ucRcvAddress := MB_ADDRESS_BROADCAST, ucMBFrame := 1, usLength := of_nat (length pdu), framing := r1\<rparr>)) send_response"
      (is "_ = Option.bind (execute_handler ?s1) _") "rtu_ok r1" "eSndState r1 = STATE_TX_IDLE"
      "uart_out (port r1) = uart_out (port (framing s))"
    using serve_executes [OF assms(1-4), of MB_ADDRESS_BROADCAST] by blast
  have "unat (of_nat (length pdu) :: u16) = length pdu" using assms(4) by (simp add: unat_of_nat)
  then have ok: "mb_ok ?s1" using assms(1,4) r1(2) by (simp add: mb_ok_def word_le_nat_alt)
  obtain s2 where s2: "execute_handler ?s1 = Some s2" "send_response s2 = Some s'"
    using assms(5) r1(1) by (auto simp: bind_eq_Some_conv)
  note k = execute_handler_ok [OF ok s2(1)]
  then have "s' = s2" using s2(2) by (simp add: send_response_def)
  then show ?thesis using k r1(3,4) by simp
qed



end
