(* ===== verification/ConfigParam.thy ===== *)
theory ConfigParam
  imports RegMap
begin

text \<open>
  Task/Struct2Json/ConfigFile.c and the first half of Task/CommunicationConfig.c: the configuration
  table \<open>g_ConfigFile\<close> and its two translations from and to the configuration words of the register
  table. Word 0 holds the slave address in bits 0-7, the code of the baud rate in bits 8-9 and the
  serial format in bits 10-11; word 1 holds the overtime in minutes.

  An \<open>int\<close> is a 32-bit word; a \<open>char *\<close> is the string it points to, or \<^term>\<open>None\<close> for \<open>NULL\<close>.
\<close>

section \<open>Definitions\<close>

record ConfigFile =
  cfg_name :: "string option"
  parameter :: u32
  cfg_number :: u32

definition g_ConfigFile :: "ConfigFile list" where
  "g_ConfigFile =
     [\<lparr>cfg_name = Some ''Modbus_Baudrate'', parameter = 115200, cfg_number = 0\<rparr>,
      \<lparr>cfg_name = Some ''Modbus_SlaveAddress'', parameter = 1, cfg_number = 1\<rparr>,
      \<lparr>cfg_name = Some ''NodeOvertimeTime'', parameter = 1, cfg_number = 2\<rparr>]"

definition GetConfigFileLength :: "ConfigFile list \<Rightarrow> u16" where
  "GetConfigFileLength cfg = of_nat (length cfg)"

text \<open>\<open>g_ConfigFile[i].parameter\<close>, read and assigned.\<close>

definition get_parameter :: "ConfigFile list \<Rightarrow> nat \<Rightarrow> u32 option" where
  "get_parameter cfg i = do { c \<leftarrow> rd cfg i; Some (parameter c) }"

definition set_parameter :: "ConfigFile list \<Rightarrow> nat \<Rightarrow> u32 \<Rightarrow> ConfigFile list option" where
  "set_parameter cfg i v = do { c \<leftarrow> rd cfg i; wr cfg i (c\<lparr>parameter := v\<rparr>) }"

definition HostSetModbusParameter :: "regs \<Rightarrow> ConfigFile list \<Rightarrow> ConfigFile list option" where
  "HostSetModbusParameter rs cfg = do {
     w \<leftarrow> rd rs 0;
     let sel = drop_bit 8 (w AND 0x0300);
     cfg \<leftarrow> (if sel = 0 then set_parameter cfg 0 2400
             else if sel = 1 then set_parameter cfg 0 4800
             else if sel = 2 then set_parameter cfg 0 9600
             else if sel = 3 then set_parameter cfg 0 115200
             else Some cfg);
     w \<leftarrow> rd rs 0;
     set_parameter cfg 1 (ucast (w AND 0x00FF))
   }"

text \<open>\<open>usSRegHoldBuf[a] |= m\<close>.\<close>

definition or_reg :: "regs \<Rightarrow> nat \<Rightarrow> u16 \<Rightarrow> regs option" where
  "or_reg rs a m = do { w \<leftarrow> rd rs a; wr rs a (w OR m) }"

definition ConfigModbusHoldRegister :: "ConfigFile list \<Rightarrow> regs \<Rightarrow> regs option" where
  "ConfigModbusHoldRegister cfg rs = do {
     address \<leftarrow> get_parameter cfg 1;
     rs \<leftarrow> wr rs 0 (ucast address);
     baud \<leftarrow> get_parameter cfg 0;
     rs \<leftarrow> (if baud = 2400 then or_reg rs 0 (push_bit 9 0 OR push_bit 8 0)
            else if baud = 4800 then or_reg rs 0 (push_bit 9 0 OR push_bit 8 1)
            else if baud = 9600 then or_reg rs 0 (push_bit 9 1 OR push_bit 8 0)
            else if baud = 115200 then or_reg rs 0 (push_bit 9 1 OR push_bit 8 1)
            else Some rs);
     rs \<leftarrow> or_reg rs 0 (push_bit 11 1 OR push_bit 10 1);
     overtime \<leftarrow> get_parameter cfg 2;
     wr rs 1 (ucast overtime)
   }"

text \<open>The baud rates the words can express, with their codes.\<close>

definition baud_code :: "u32 \<Rightarrow> u16 option" where
  "baud_code b = map_of [(2400, 0), (4800, 1), (9600, 2), (115200, 3)] b"

text \<open>The table has its three entries, a baud rate with a code and a slave address of one byte.\<close>

definition cfg_ok :: "ConfigFile list \<Rightarrow> bool" where
  "cfg_ok cfg \<longleftrightarrow> length cfg = 3 \<and> baud_code (parameter (cfg ! 0)) \<noteq> None \<and> parameter (cfg ! 1) < 256"

section \<open>The configuration words\<close>

lemma low_byte:
  assumes "(x :: u16) < 256"
  shows "x AND 0xFF = x" "x AND 0x300 = 0"
proof -
  have "0xFF = (mask 8 :: u16)" by (simp add: mask_eq_exp_minus_1)
  moreover have "take_bit 8 x = x"
    by (rule unsigned_word_eqI [where ?'a = nat])
      (use assms in \<open>simp add: word_less_nat_alt unsigned_take_bit_eq take_bit_nat_eq_self\<close>)
  ultimately show x: "x AND 0xFF = x" by (simp add: take_bit_eq_mask)
  have "x AND 0x300 = (x AND 0xFF) AND 0x300" using x by simp
  then show "x AND 0x300 = 0" by (simp add: and.assoc)
qed

text \<open>The word that \<open>ConfigModbusHoldRegister\<close> composes, and its two fields.\<close>

lemma ConfigModbusHoldRegister_spec:
  assumes "cfg_ok cfg" "2 \<le> length rs" "baud_code (parameter (cfg ! 0)) = Some c"
  shows "ConfigModbusHoldRegister cfg rs =
    Some (rs[0 := (ucast (parameter (cfg ! 1)) OR push_bit 8 c) OR 0xC00, 1 := ucast (parameter (cfg ! 2))])"
proof -
  have c: "(parameter (cfg ! 0), c) \<in> {(2400, 0), (4800, 1), (9600, 2), (115200, 3)}"
    using assms(3) by (auto simp: baud_code_def split: if_splits)
  moreover have "0 < length rs" "Suc 0 < length rs" using assms(2) by linarith+
  ultimately show ?thesis
    using assms(1)
    by (elim insertE emptyE; simp add: ConfigModbusHoldRegister_def get_parameter_def or_reg_def cfg_ok_def
        nth_list_update or.assoc)
qed

lemma config_word_fields:
  assumes "(a :: u16) < 256" "c \<in> {0, 1, 2, 3}" "w = (a OR push_bit 8 c) OR 0xC00"
  shows "w AND 0x00FF = a" "drop_bit 8 (w AND 0x0300) = c"
  using assms(2) low_byte [OF assms(1)]
  by (auto simp: assms(3) bit.conj_disj_distrib2)

lemma HostSetModbusParameter_spec:
  assumes "cfg_ok cfg" "0 < length rs" "(a :: u16) < 256" "baud_code b = Some c"
    and "rs ! 0 = (a OR push_bit 8 c) OR 0xC00"
  shows "HostSetModbusParameter rs cfg =
    Some (cfg[0 := (cfg ! 0)\<lparr>parameter := b\<rparr>, 1 := (cfg ! 1)\<lparr>parameter := ucast a\<rparr>])"
proof -
  have bc: "(b, c) \<in> {(2400, 0), (4800, 1), (9600, 2), (115200, 3)}"
    using assms(4) by (auto simp: baud_code_def split: if_splits)
  then have "c \<in> {0, 1, 2, 3}" by auto
  note w = config_word_fields [OF assms(3) this assms(5)]
  have sel: "drop_bit 8 (rs ! 0) AND 3 = c" using w(2) by simp
  show ?thesis
    using bc assms(1,2) by (elim insertE emptyE; simp add: HostSetModbusParameter_def set_parameter_def w(1) sel
        cfg_ok_def Let_def)
qed

section \<open>Properties\<close>



end
