(* ===== verification/Decimal.thy ===== *)
theory Decimal
  imports Prelude
begin

text \<open>
  Decimal notation of numbers, as the program's own conversions and \<open>sprintf\<close> with \<open>%d\<close> produce it.
\<close>

section \<open>Definitions\<close>

text \<open>Decimal notation without leading zeros.\<close>

definition digit :: "nat \<Rightarrow> char" where
  "digit d = char_of (d + 48)"

fun dec :: "nat \<Rightarrow> string" where
  "dec n = (if n < 10 then [digit n] else dec (n div 10) @ [digit (n mod 10)])"

declare dec.simps [simp del]

section \<open>Lemmas\<close>

lemma of_char_digit:
  assumes "d < 10"
  shows "(of_char (digit d) :: nat) = d + 48" "(of_char (digit d) :: u32) = of_nat (d + 48)"
proof -
  have "(d + 48) mod 256 = d + 48" using assms by simp
  then show "(of_char (digit d) :: nat) = d + 48" by (simp add: digit_def)
  then have "of_nat (of_char (digit d)) = (of_nat (d + 48) :: u32)" by (simp only:)
  then show "(of_char (digit d) :: u32) = of_nat (d + 48)" by (simp only: of_nat_of_char)
qed

lemma digit_not:
  assumes "d < 10" "\<not> (48 \<le> (of_char c :: nat) \<and> (of_char c :: nat) \<le> 57)"
  shows "digit d \<noteq> c"
  using of_char_digit(1) [OF assms(1)] assms by auto

lemma digit_zero: "d < 10 \<Longrightarrow> digit d = CHR ''0'' \<longleftrightarrow> d = 0"
  using of_char_digit(1) [of d] of_char_eq_iff [of "digit d" "CHR ''0''", where ?'a = nat] by simp

lemma dec_digits: "c \<in> set (dec n) \<Longrightarrow> \<exists>d < 10. c = digit d"
proof (induction n rule: dec.induct)
  case (1 n)
  then show ?case
    by (subst (asm) (2) dec.simps) (auto split: if_splits intro: exI [of _ "n mod 10"])
qed

lemma dec_plain: "CHR 0x00 \<notin> set (dec n)" "CHR 0x0A \<notin> set (dec n)" "CHR '','' \<notin> set (dec n)"
  using dec_digits [of _ n] digit_not [of _ "CHR 0x00"] digit_not [of _ "CHR 0x0A"] digit_not [of _ "CHR '',''"] by fastforce+

lemma dec_length: "0 < length (dec n)" "n < 10 ^ k \<Longrightarrow> 0 < k \<Longrightarrow> length (dec n) \<le> k"
proof -
  show "0 < length (dec n)" by (subst dec.simps) simp
  show "n < 10 ^ k \<Longrightarrow> 0 < k \<Longrightarrow> length (dec n) \<le> k"
  proof (induction n arbitrary: k rule: dec.induct)
    case (1 n)
    show ?case
    proof (cases "n < 10")
      case False
      then obtain j where j: "k = Suc j" "0 < j"
        using 1(2,3) by (cases k; cases "k - 1") (auto simp: not_less)
      then have "n div 10 < 10 ^ j" using 1(2) by (simp add: less_mult_imp_div_less mult.commute)
      then show ?thesis using 1(1) [OF False, of j] j False by (subst dec.simps) simp
    qed (use 1(3) in \<open>simp add: dec.simps\<close>)
  qed
qed

lemma dec_u32_length: "length (dec (unat (v :: u32))) \<le> 10"
  using dec_length(2) [of "unat v" 10] unat_u32_less [of v] by simp

end
