(* ===== verification/FatFile.thy ===== *)
theory FatFile
  imports Prelude
begin

text \<open>
  The file interface of the FatFs library (components/dfs/filesystems/elmfat/ff.c) as the
  configuration code uses it, and what that code depends on in its target.

  A volume maps paths to contents; \<open>f_open\<close>, \<open>f_read\<close>, \<open>f_write\<close> and \<open>f_close\<close> are given at that
  level (the FAT itself, sector caching and power loss are not modelled): they fail as documented on a
  volume that is not mounted, on a missing file and on a file object that is not open. The string
  functions \<open>f_gets\<close>, \<open>f_putc\<close> and \<open>f_puts\<close> are translated from their bodies for the settings
  \<open>_LFN_UNICODE = 0\<close> and \<open>_USE_STRFUNC = 1\<close>.

  A \<open>target\<close> says what the code gets from the platform: whether a store through a null pointer is
  survived (on the STM32F4 address 0 is an alias of the locked flash), what C string is read there, and
  the block that \<open>rt_malloc\<close> returns for a size.
\<close>

section \<open>Definitions\<close>

record target =
  null_store :: bool
  null_text :: "string option"
  heap :: "nat \<Rightarrow> string option"

text \<open>\<open>rt_malloc\<close>: \<open>NULL\<close> for size 0, otherwise a block of that size with arbitrary contents.\<close>

definition heap_ok :: "target \<Rightarrow> bool" where
  "heap_ok t \<longleftrightarrow> heap t 0 = None \<and> (\<forall>n > 0. \<exists>b. heap t n = Some b \<and> length b = n)"

abbreviation NUL :: char where "NUL \<equiv> CHR 0x00"
abbreviation LF :: char where "LF \<equiv> CHR 0x0A"

text \<open>The C string in a buffer; without a terminator the scan leaves the buffer.\<close>

definition c_str :: "string \<Rightarrow> string option" where
  "c_str buf = (if NUL \<in> set buf then Some (takeWhile (\<lambda>c. c \<noteq> NUL) buf) else None)"

record disk =
  mounted :: bool
  files :: "string \<rightharpoonup> string"

record FIL =
  fil_path :: "string option"
  objsize :: nat
  fptr :: nat

definition FR_OK :: u8 where "FR_OK = 0"
definition FR_NO_FILE :: u8 where "FR_NO_FILE = 4"
definition FR_INVALID_OBJECT :: u8 where "FR_INVALID_OBJECT = 9"
definition FR_NOT_ENABLED :: u8 where "FR_NOT_ENABLED = 12"

text \<open>\<open>f_open\<close> with \<open>FA_CREATE_ALWAYS | FA_WRITE | FA_READ\<close> and with \<open>FA_READ\<close>.\<close>

definition f_open_create :: "string \<Rightarrow> FIL \<Rightarrow> disk \<Rightarrow> u8 \<times> FIL \<times> disk" where
  "f_open_create path fil d =
     (if \<not> mounted d then (FR_NOT_ENABLED, fil\<lparr>fil_path := None\<rparr>, d)
      else (FR_OK, \<lparr>fil_path = Some path, objsize = 0, fptr = 0\<rparr>, d\<lparr>files := (files d)(path \<mapsto> [])\<rparr>))"

definition f_open_read :: "string \<Rightarrow> FIL \<Rightarrow> disk \<Rightarrow> u8 \<times> FIL" where
  "f_open_read path fil d =
     (if \<not> mounted d then (FR_NOT_ENABLED, fil\<lparr>fil_path := None\<rparr>)
      else case files d path of
        None \<Rightarrow> (FR_NO_FILE, fil\<lparr>fil_path := None\<rparr>)
      | Some text \<Rightarrow> (FR_OK, \<lparr>fil_path = Some path, objsize = length text, fptr = 0\<rparr>))"

definition f_close :: "FIL \<Rightarrow> u8 \<times> FIL" where
  "f_close fil = (if fil_path fil = None then (FR_INVALID_OBJECT, fil) else (FR_OK, fil\<lparr>fil_path := None\<rparr>))"

text \<open>The open file's contents.\<close>

definition contents :: "FIL \<Rightarrow> disk \<Rightarrow> string option" where
  "contents fil d = do { p \<leftarrow> fil_path fil; files d p }"

text \<open>\<open>f_write\<close> returns the result code and the number of bytes written.\<close>

definition f_write :: "string \<Rightarrow> FIL \<Rightarrow> disk \<Rightarrow> u8 \<times> nat \<times> FIL \<times> disk" where
  "f_write bs fil d =
     (case (fil_path fil, contents fil d) of
        (Some p, Some text) \<Rightarrow>
          let text' = take (fptr fil) text @ bs @ drop (fptr fil + length bs) text
          in (FR_OK, length bs, fil\<lparr>fptr := fptr fil + length bs, objsize := length text'\<rparr>,
              d\<lparr>files := (files d)(p \<mapsto> text')\<rparr>)
      | _ \<Rightarrow> (FR_INVALID_OBJECT, 0, fil, d))"

text \<open>\<open>f_read\<close> returns the result code and the bytes that were read.\<close>

definition f_read :: "nat \<Rightarrow> FIL \<Rightarrow> disk \<Rightarrow> u8 \<times> string \<times> FIL" where
  "f_read btr fil d =
     (case contents fil d of
        None \<Rightarrow> (FR_INVALID_OBJECT, [], fil)
      | Some text \<Rightarrow> let bs = take btr (drop (fptr fil) text)
          in (FR_OK, bs, fil\<lparr>fptr := fptr fil + length bs\<rparr>))"

subsection \<open>String functions\<close>

text \<open>\<open>*p = c\<close> at offset \<open>n\<close> of a buffer that may be \<open>NULL\<close>.\<close>

definition store_at :: "target \<Rightarrow> string option \<Rightarrow> nat \<Rightarrow> char \<Rightarrow> string option option" where
  "store_at t buf n c =
     (case buf of None \<Rightarrow> if null_store t then Some None else None
      | Some b \<Rightarrow> map_option Some (wr b n c))"

text \<open>The loop of \<open>f_gets\<close> with \<open>k = len - 1 - n\<close> characters to go.\<close>

primrec gets_loop :: "nat \<Rightarrow> target \<Rightarrow> disk \<Rightarrow> FIL \<Rightarrow> string option \<Rightarrow> nat
    \<Rightarrow> (nat \<times> string option \<times> FIL) option" where
  "gets_loop 0 t d fil buf n = Some (n, buf, fil)"
| "gets_loop (Suc k) t d fil buf n =
     (case f_read 1 fil d of (_, s, fil) \<Rightarrow>
        if length s \<noteq> 1 then Some (n, buf, fil)
        else do {
          buf \<leftarrow> store_at t buf n (hd s);
          if hd s = LF then Some (n + 1, buf, fil) else gets_loop k t d fil buf (n + 1)
        })"

text \<open>It returns the buffer, or \<open>NULL\<close> when no character was read.\<close>

definition f_gets :: "target \<Rightarrow> string option \<Rightarrow> nat \<Rightarrow> FIL \<Rightarrow> disk \<Rightarrow> (string option \<times> FIL) option" where
  "f_gets t buff len fil d = do {
     (n, buf, fil) \<leftarrow> gets_loop (len - 1) t d fil buff 0;
     buf \<leftarrow> store_at t buf n NUL;
     Some (if n \<noteq> 0 then buf else None, fil)
   }"

definition EOF :: int where "EOF = - 1"

text \<open>The write buffer of \<open>f_putc\<close> and \<open>f_puts\<close>: 64 bytes, flushed when fewer than 4 are free.\<close>

record putbuff =
  pb_fp :: FIL
  pb_idx :: int
  pb_nchr :: int
  pb_buf :: string

definition putc_bfd :: "char \<Rightarrow> putbuff \<times> disk \<Rightarrow> putbuff \<times> disk" where
  "putc_bfd c = (\<lambda>(pb, d).
     if pb_idx pb < 0 then (pb, d)
     else let buf = pb_buf pb @ [c]; i = pb_idx pb + 1
       in if i \<ge> 64 - 3 then
            (case f_write buf (pb_fp pb) d of (_, bw, fil, d) \<Rightarrow>
               (pb\<lparr>pb_fp := fil, pb_buf := [], pb_idx := if int bw = i then 0 else -1, pb_nchr := pb_nchr pb + 1\<rparr>, d))
          else (pb\<lparr>pb_buf := buf, pb_idx := i, pb_nchr := pb_nchr pb + 1\<rparr>, d))"

definition putc_flush :: "putbuff \<times> disk \<Rightarrow> int \<times> FIL \<times> disk" where
  "putc_flush = (\<lambda>(pb, d).
     if pb_idx pb \<ge> 0 then
       (case f_write (pb_buf pb) (pb_fp pb) d of (res, nw, fil, d) \<Rightarrow>
          (if res = FR_OK \<and> pb_idx pb = int nw then pb_nchr pb else EOF, fil, d))
     else (EOF, pb_fp pb, d))"

definition putc_init :: "FIL \<Rightarrow> putbuff" where
  "putc_init fil = \<lparr>pb_fp = fil, pb_idx = 0, pb_nchr = 0, pb_buf = []\<rparr>"

definition f_putc :: "char \<Rightarrow> FIL \<Rightarrow> disk \<Rightarrow> int \<times> FIL \<times> disk" where
  "f_putc c fil d = putc_flush (putc_bfd c (putc_init fil, d))"

definition f_puts :: "string \<Rightarrow> FIL \<Rightarrow> disk \<Rightarrow> int \<times> FIL \<times> disk" where
  "f_puts str fil d = putc_flush (fold putc_bfd str (putc_init fil, d))"

text \<open>A file object open at the end of its file, and the disk with \<open>text\<close> in that file.\<close>

definition at_end :: "string \<Rightarrow> string \<Rightarrow> FIL \<Rightarrow> disk \<Rightarrow> bool" where
  "at_end path text fil d \<longleftrightarrow> fil = \<lparr>fil_path = Some path, objsize = length text, fptr = length text\<rparr>
     \<and> files d path = Some text \<and> mounted d"

text \<open>
  The buffering is not visible: what is in the file together with what is in the buffer is the text
  written so far.
\<close>

definition buffered :: "string \<Rightarrow> string \<Rightarrow> disk \<Rightarrow> putbuff \<times> disk \<Rightarrow> bool" where
  "buffered path text d0 s \<longleftrightarrow> (case s of (pb, d) \<Rightarrow>
     \<exists>tx. at_end path tx (pb_fp pb) d \<and> text = tx @ pb_buf pb \<and> pb_idx pb = int (length (pb_buf pb))
       \<and> (\<forall>p. p \<noteq> path \<longrightarrow> files d p = files d0 p))"

text \<open>What is still to be read of an open file.\<close>

definition unread :: "FIL \<Rightarrow> disk \<Rightarrow> string \<Rightarrow> bool" where
  "unread fil d rest \<longleftrightarrow> (\<exists>text. contents fil d = Some text \<and> drop (fptr fil) text = rest)"

section \<open>Writing\<close>

lemma contents_at_end: "at_end path text fil d \<Longrightarrow> contents fil d = Some text"
  by (simp add: at_end_def contents_def)

lemma f_write_at_end:
  assumes "at_end path text fil d"
  shows "\<exists>fil' d'. f_write bs fil d = (FR_OK, length bs, fil', d') \<and> at_end path (text @ bs) fil' d'
    \<and> (\<forall>p. p \<noteq> path \<longrightarrow> files d' p = files d p)"
  using assms by (auto simp: f_write_def contents_def at_end_def)

lemma f_write_nil:
  assumes "at_end path text fil d"
  shows "f_write [] fil d = (FR_OK, 0, fil, d)"
  using assms by (auto simp: f_write_def contents_def at_end_def fun_upd_idem)

lemma buffered_putc_bfd:
  assumes "buffered path text d0 s"
  shows "buffered path (text @ [c]) d0 (putc_bfd c s)"
proof -
  obtain pb d where s: "s = (pb, d)" by (cases s)
  from assms s obtain tx where b: "at_end path tx (pb_fp pb) d" "text = tx @ pb_buf pb"
      "pb_idx pb = int (length (pb_buf pb))" "\<And>p. p \<noteq> path \<Longrightarrow> files d p = files d0 p"
    by (auto simp: buffered_def)
  from f_write_at_end [OF b(1), of "pb_buf pb @ [c]"] obtain fil' d' where
    w: "f_write (pb_buf pb @ [c]) (pb_fp pb) d = (FR_OK, length (pb_buf pb @ [c]), fil', d')"
      "at_end path (tx @ pb_buf pb @ [c]) fil' d'" "\<And>p. p \<noteq> path \<Longrightarrow> files d' p = files d p"
    by blast
  show ?thesis
    using b w by (auto simp: s buffered_def putc_bfd_def Let_def)
qed

lemma buffered_fold:
  "buffered path str0 d0 s \<Longrightarrow> buffered path (str0 @ cs) d0 (fold putc_bfd cs s)"
proof (induction cs arbitrary: str0 s)
  case (Cons c cs)
  from Cons.IH [OF buffered_putc_bfd [OF Cons.prems], of c] show ?case by simp
qed simp

text \<open>\<open>f_puts\<close> and \<open>f_putc\<close> append to the file and touch no other.\<close>

lemma f_puts_at_end:
  assumes "at_end path text fil d"
  shows "\<exists>r fil' d'. f_puts str fil d = (r, fil', d') \<and> at_end path (text @ str) fil' d'
    \<and> (\<forall>p. p \<noteq> path \<longrightarrow> files d' p = files d p)"
proof -
  have "buffered path text d (putc_init fil, d)"
    using assms by (auto simp: buffered_def putc_init_def)
  from buffered_fold [OF this, of str] obtain pb d1 tx where
    s: "fold putc_bfd str (putc_init fil, d) = (pb, d1)" and
    b: "at_end path tx (pb_fp pb) d1" "text @ str = tx @ pb_buf pb" "pb_idx pb = int (length (pb_buf pb))"
      "\<And>p. p \<noteq> path \<Longrightarrow> files d1 p = files d p"
    by (cases "fold putc_bfd str (putc_init fil, d)") (auto simp: buffered_def)
  from f_write_at_end [OF b(1), of "pb_buf pb"] b show ?thesis
    by (auto simp: f_puts_def s putc_flush_def)
qed

lemma f_putc_puts: "f_putc c fil d = f_puts [c] fil d"
  by (simp add: f_putc_def f_puts_def)

section \<open>Reading\<close>

lemma contents_fptr [simp]: "contents (fil\<lparr>fptr := n\<rparr>) d = contents fil d"
  by (simp add: contents_def)

lemma f_read_Cons:
  assumes "unread fil d (c # rest)"
  shows "f_read 1 fil d = (FR_OK, [c], fil\<lparr>fptr := fptr fil + 1\<rparr>)" "unread (fil\<lparr>fptr := fptr fil + 1\<rparr>) d rest"
proof -
  from assms obtain bs where t: "contents fil d = Some bs" "drop (fptr fil) bs = c # rest"
    by (auto simp: unread_def)
  then show "f_read 1 fil d = (FR_OK, [c], fil\<lparr>fptr := fptr fil + 1\<rparr>)" by (simp add: f_read_def Let_def)
  from t(2) have "drop (fptr fil + 1) bs = rest" by (metis drop_drop drop0 drop_Suc_Cons One_nat_def add.commute)
  with t(1) show "unread (fil\<lparr>fptr := fptr fil + 1\<rparr>) d rest" by (simp add: unread_def)
qed

lemma f_read_eof: "unread fil d [] \<Longrightarrow> f_read 1 fil d = (FR_OK, [], fil)"
  by (auto simp: unread_def f_read_def Let_def)

lemma gets_loop_line:
  assumes "unread fil d (l @ LF # rest)" "LF \<notin> set l" "length l < k" "n + length l < length b"
  shows "\<exists>fil'. gets_loop k t d fil (Some b) n =
      Some (n + length l + 1, Some (take n b @ l @ LF # drop (n + length l + 1) b), fil')
    \<and> unread fil' d rest \<and> fil_path fil' = fil_path fil"
  using assms
proof (induction l arbitrary: k n b fil)
  case Nil
  then obtain k' where k: "k = Suc k'" by (cases k) auto
  show ?case
    using f_read_Cons [of fil d LF rest] Nil k by (auto simp: store_at_def upd_conv_take_nth_drop)
next
  case (Cons c l)
  then obtain k' where k: "k = Suc k'" by (cases k) auto
  note r = f_read_Cons [of fil d c "l @ LF # rest"]
  have u: "unread (fil\<lparr>fptr := fptr fil + 1\<rparr>) d (l @ LF # rest)" using r(2) Cons.prems(1) by simp
  have nb: "n < length b" using Cons.prems(4) by simp
  from Cons.IH [OF u, of k' "Suc n" "b[n := c]"] Cons.prems k obtain fil' where
    "gets_loop k' t d (fil\<lparr>fptr := fptr fil + 1\<rparr>) (Some (b[n := c])) (Suc n) =
      Some (Suc n + length l + 1, Some (take (Suc n) (b[n := c]) @ l @ LF # drop (Suc n + length l + 1) (b[n := c])), fil')"
    "unread fil' d rest" "fil_path fil' = fil_path fil"
    by auto
  moreover have "take (Suc n) (b[n := c]) = take n b @ [c]" using nb by (simp add: take_Suc_conv_app_nth)
  ultimately show ?case
    using r(1) Cons.prems(1,2) k nb by (auto simp: store_at_def)
qed

lemma f_gets_line:
  assumes "unread fil d (l @ LF # rest)" "LF \<notin> set l" "NUL \<notin> set l" "length l + 1 < len" "len \<le> length b"
  shows "\<exists>b' fil'. f_gets t (Some b) len fil d = Some (Some b', fil') \<and> c_str b' = Some (l @ [LF])
    \<and> length b' = length b \<and> unread fil' d rest \<and> fil_path fil' = fil_path fil"
proof -
  from gets_loop_line [OF assms(1,2), of "len - 1" 0 b t] assms(4,5) obtain fil' where
    g: "gets_loop (len - 1) t d fil (Some b) 0 =
      Some (length l + 1, Some (l @ LF # drop (length l + 1) b), fil')"
    "unread fil' d rest" "fil_path fil' = fil_path fil"
    by (auto simp: less_diff_conv)
  let ?b = "l @ LF # drop (length l + 1) b"
  have len: "length ?b = length b" "length l + 1 < length ?b" using assms(4,5) by auto
  let ?c = "?b[length l + 1 := NUL]"
  have "length l + 1 < length b" using len by simp
  then have "drop (length l + 1) b = b ! (length l + 1) # drop (length l + 2) b"
    by (metis Cons_nth_drop_Suc add_2_eq_Suc' Suc_eq_plus1)
  then have c: "?c = (l @ [LF]) @ NUL # drop (length l + 2) b"
    by (simp add: list_update_append)
  have "c_str ?c = Some (l @ [LF])"
    using assms(3) unfolding c by (auto simp: c_str_def takeWhile_append)
  then show ?thesis
    using g len by (auto simp: f_gets_def store_at_def)
qed

lemma f_gets_eof:
  assumes "unread fil d []" "0 < length b"
  shows "f_gets t (Some b) len fil d = Some (None, fil)"
proof -
  have "gets_loop k t d fil (Some b) 0 = Some (0, Some b, fil)" for k
    using f_read_eof [OF assms(1)] by (cases k) auto
  then show ?thesis using assms(2) by (simp add: f_gets_def store_at_def)
qed

end
