(* ===== verification/CJson.thy ===== *)
theory CJson
  imports CFloat Decimal FatFile
begin

text \<open>
  Task/Struct2Json/cJSON.c: the JSON library of the configuration file, as far as the program uses it:
  parsing, printing without a print buffer, building and searching of items.

  An item's list of children is a list; \<open>prev\<close> and \<open>next\<close> are its order. The text to parse is the memory
  from the current position to the end of its block: a read behind it is not survived. Every parse
  routine returns \<^term>\<open>Some None\<close> where the code returns 0. The heap is taken to be large enough for
  the items. The recursion of the parser carries fuel; \<open>cJSON_Parse\<close> starts it with more than the
  parser can use (lemma \<open>parse_fuel\<close>). \<open>pw e\<close> is the library's \<open>pow(10.0, e)\<close> and \<open>fm\<close> the text of a
  number that is not an integer.
\<close>

section \<open>Definitions\<close>

datatype json_type = cJSON_False | cJSON_True | cJSON_NULL | cJSON_Number | cJSON_String | cJSON_Array | cJSON_Object

datatype cJSON = JItem (jtype: json_type) (child: "cJSON list") (valuestring: "string option")
  (valueint: int) (valuedouble: cfp) (jstring: "string option")

type_synonym parsed = "(cJSON \<times> string) option option"

definition plain_item :: "json_type \<Rightarrow> int \<Rightarrow> cJSON" where
  "plain_item ty v = JItem ty [] None v (Fin 0 0) None"

fun set_string :: "string \<Rightarrow> cJSON \<Rightarrow> cJSON" where
  "set_string s (JItem ty ch vs vi vd st) = JItem ty ch vs vi vd (Some s)"

definition peek :: "string \<Rightarrow> char option" where
  "peek s = (case s of [] \<Rightarrow> None | c # _ \<Rightarrow> Some c)"

abbreviation code :: "char \<Rightarrow> nat" where "code c \<equiv> of_char c"

definition is_digit :: "char \<Rightarrow> bool" where
  "is_digit c \<longleftrightarrow> 48 \<le> code c \<and> code c \<le> 57"

subsection \<open>Numbers\<close>

text \<open>\<open>do n = (n * 10.0) + (*num++ - '0'); while (digit)\<close>, with the number of digits.\<close>

fun acc_digits :: "cfp \<Rightarrow> nat \<Rightarrow> string \<Rightarrow> (cfp \<times> nat \<times> string) option" where
  "acc_digits n k [] = None"
| "acc_digits n k (c # s) =
     (if is_digit c
      then acc_digits (f_add 53 (f_mul 53 n (f_of_int 10)) (f_of_int (int (code c) - 48))) (k + 1) s
      else Some (n, k, c # s))"

text \<open>The exponent, an \<open>int\<close> whose overflow is undefined.\<close>

fun acc_exp :: "int \<Rightarrow> string \<Rightarrow> (int \<times> string) option" where
  "acc_exp e [] = None"
| "acc_exp e (c # s) =
     (if is_digit c
      then let e' = e * 10 + (int (code c) - 48) in if e' < 2 ^ 31 then acc_exp e' s else None
      else Some (e, c # s))"

fun f_to_s32 :: "cfp \<Rightarrow> int option" where
  "f_to_s32 (Fin m e) = (let t = trunc_int m e in if - (2 ^ 31) \<le> t \<and> t < 2 ^ 31 then Some t else None)"
| "f_to_s32 NaN = None"

text \<open>The four parts of a number: sign, digits before the point, digits behind it, exponent.\<close>

definition number_sign :: "string \<Rightarrow> (int \<times> string) option" where
  "number_sign s = do { c \<leftarrow> peek s; Some (if c = CHR ''-'' then (-1, tl s) else (1, s)) }"

definition number_whole :: "string \<Rightarrow> (cfp \<times> string) option" where
  "number_whole s = do {
     c \<leftarrow> peek s;
     let s = (if c = CHR ''0'' then tl s else s);
     c \<leftarrow> peek s;
     if is_digit c \<and> c \<noteq> CHR ''0'' then do { (n, _, s) \<leftarrow> acc_digits (Fin 0 0) 0 s; Some (n, s) }
     else Some (Fin 0 0, s)
   }"

definition number_fraction :: "cfp \<Rightarrow> string \<Rightarrow> (cfp \<times> nat \<times> string) option" where
  "number_fraction n s = do {
     c \<leftarrow> peek s;
     if c = CHR ''.'' then do {
       c1 \<leftarrow> peek (tl s);
       if is_digit c1 then acc_digits n 0 (tl s) else Some (n, 0, s)
     } else Some (n, 0, s)
   }"

definition number_exponent :: "string \<Rightarrow> (int \<times> int \<times> string) option" where
  "number_exponent s = do {
     c \<leftarrow> peek s;
     if c = CHR ''e'' \<or> c = CHR ''E'' then do {
       c \<leftarrow> peek (tl s);
       let (sg, s) = (if c = CHR ''+'' then (1, tl (tl s)) else if c = CHR ''-'' then (-1, tl (tl s)) else (1, tl s));
       (e, s) \<leftarrow> acc_exp 0 s;
       Some (e, sg, s)
     } else Some (0, 1, s)
   }"

definition parse_number :: "(int \<Rightarrow> cfp) \<Rightarrow> string \<Rightarrow> parsed" where
  "parse_number pw s = do {
     (sign, s) \<leftarrow> number_sign s;
     (n, s) \<leftarrow> number_whole s;
     (n, scale, s) \<leftarrow> number_fraction n s;
     (subscale, signsubscale, s) \<leftarrow> number_exponent s;
     let n = f_mul 53 (f_mul 53 (f_of_int sign) n) (pw (subscale * signsubscale - int scale));
     i \<leftarrow> f_to_s32 n;
     Some (Some (JItem cJSON_Number [] None i n None, s))
   }"

text \<open>\<open>sprintf("%d")\<close>, the comparison of two numbers and \<open>DBL_EPSILON\<close>.\<close>

definition dec_int :: "int \<Rightarrow> string" where
  "dec_int i = (if i < 0 then CHR ''-'' # dec (nat (- i)) else dec (nat i))"

fun f_le :: "cfp \<Rightarrow> cfp \<Rightarrow> bool" where
  "f_le (Fin m e) (Fin m' e') \<longleftrightarrow> (let f = min e e' in m * 2 ^ nat (e - f) \<le> m' * 2 ^ nat (e' - f))"
| "f_le _ _ \<longleftrightarrow> False"

fun f_abs :: "cfp \<Rightarrow> cfp" where
  "f_abs (Fin m e) = Fin \<bar>m\<bar> e"
| "f_abs NaN = NaN"

definition DBL_EPSILON :: cfp where "DBL_EPSILON = Fin 1 (- 52)"

definition print_number :: "(cfp \<Rightarrow> string) \<Rightarrow> cJSON \<Rightarrow> string" where
  "print_number fm item =
     (let d = valuedouble item in
      if f_le d (Fin 0 0) \<and> f_le (Fin 0 0) d then ''0''
      else if f_le (f_abs (f_sub 53 (f_of_int (valueint item)) d)) DBL_EPSILON
           \<and> f_le d (f_of_int 2147483647) \<and> f_le (f_of_int (- 2147483648)) d then dec_int (valueint item)
      else fm d)"

subsection \<open>Strings\<close>

definition hex_digit :: "char \<Rightarrow> nat option" where
  "hex_digit c = (if is_digit c then Some (code c - 48)
     else if 65 \<le> code c \<and> code c \<le> 70 then Some (code c - 55)
     else if 97 \<le> code c \<and> code c \<le> 102 then Some (code c - 87) else None)"

text \<open>\<open>parse_hex4\<close>: 0 at the first character that is no hexadecimal digit.\<close>

fun hex_scan :: "nat \<Rightarrow> nat \<Rightarrow> string \<Rightarrow> nat option" where
  "hex_scan 0 h s = Some h"
| "hex_scan (Suc k) h [] = None"
| "hex_scan (Suc k) h (c # s) =
     (case hex_digit c of None \<Rightarrow> Some 0 | Some v \<Rightarrow> hex_scan k (16 * h + v) s)"

definition parse_hex4 :: "string \<Rightarrow> nat option" where
  "parse_hex4 s = hex_scan 4 0 s"

text \<open>The UTF-8 bytes of a code point, by the fall-through switch over its length.\<close>

definition utf8 :: "nat \<Rightarrow> string" where
  "utf8 uc =
     (let tail = (\<lambda>k. char_of (128 + uc div 64 ^ k mod 64)) in
      if uc < 0x80 then [char_of uc]
      else if uc < 0x800 then [char_of (0xC0 + uc div 64), tail 0]
      else if uc < 0x10000 then [char_of (0xE0 + uc div 64 ^ 2), tail 1, tail 0]
      else [char_of (0xF0 + uc div 64 ^ 3), tail 2, tail 1, tail 0])"

text \<open>The first pass of \<open>parse_string\<close>, which counts the room for the result.\<close>

fun string_room :: "string \<Rightarrow> nat \<Rightarrow> nat option" where
  "string_room [] n = None"
| "string_room (c # s) n =
     (if c = CHR 0x22 \<or> c = NUL then Some n
      else if c = CHR 0x5C then (case s of [] \<Rightarrow> None | _ # s \<Rightarrow> string_room s (n + 1))
      else string_room s (n + 1))"

text \<open>\<open>*ptr2++ = c\<close> in a block with room for \<open>cap\<close> characters and the terminator.\<close>

definition push_char :: "nat \<Rightarrow> string \<Rightarrow> string \<Rightarrow> string option" where
  "push_char cap out cs = (if length out + length cs \<le> cap then Some (out @ cs) else None)"

definition simple_escape :: "char \<Rightarrow> char" where
  "simple_escape e = (if e = CHR ''b'' then CHR 0x08 else if e = CHR ''f'' then CHR 0x0C
     else if e = CHR ''n'' then CHR 0x0A else if e = CHR ''r'' then CHR 0x0D
     else if e = CHR ''t'' then CHR 0x09 else e)"

text \<open>The case \<open>'u'\<close>: the bytes it gives and how far behind the \<open>u\<close> it ends.\<close>

definition unicode_escape :: "string \<Rightarrow> (string \<times> nat) option" where
  "unicode_escape s = do {
     uc \<leftarrow> parse_hex4 s;
     if (0xDC00 \<le> uc \<and> uc \<le> 0xDFFF) \<or> uc = 0 then Some ([], 4)
     else if 0xD800 \<le> uc \<and> uc \<le> 0xDBFF then do {
       c1 \<leftarrow> rd s 4;
       if c1 \<noteq> CHR 0x5C then Some ([], 4)
       else do {
         c2 \<leftarrow> rd s 5;
         if c2 \<noteq> CHR ''u'' then Some ([], 4)
         else do {
           uc2 \<leftarrow> parse_hex4 (drop 6 s);
           if uc2 < 0xDC00 \<or> uc2 > 0xDFFF then Some ([], 10)
           else Some (utf8 (0x10000 + ((uc mod 1024) * 1024 + uc2 mod 1024)), 10)
         }
       }
     }
     else Some (utf8 uc, 4)
   }"

function decode_string :: "nat \<Rightarrow> string \<Rightarrow> string \<Rightarrow> (string \<times> string) option" where
  "decode_string cap out s =
     (case s of [] \<Rightarrow> None
      | c # s' \<Rightarrow>
        if c = CHR 0x22 then Some (out, s')
        else if c = NUL then Some (out, s)
        else if c \<noteq> CHR 0x5C then
          (case push_char cap out [c] of None \<Rightarrow> None | Some out \<Rightarrow> decode_string cap out s')
        else (case s' of [] \<Rightarrow> None
          | e # s'' \<Rightarrow>
            if e = CHR ''u'' then
              (case unicode_escape s'' of None \<Rightarrow> None
               | Some (cs, k) \<Rightarrow>
                 (case push_char cap out cs of None \<Rightarrow> None | Some out \<Rightarrow> decode_string cap out (drop k s'')))
            else (case push_char cap out [simple_escape e] of None \<Rightarrow> None | Some out \<Rightarrow> decode_string cap out s'')))"
  by pat_completeness auto
termination
  by (relation "measure (\<lambda>(_, _, s). length s)") auto

definition parse_string :: "string \<Rightarrow> (string \<times> string) option option" where
  "parse_string s = do {
     c \<leftarrow> peek s;
     if c \<noteq> CHR 0x22 then Some None
     else do {
       cap \<leftarrow> string_room (tl s) 0;
       r \<leftarrow> decode_string cap [] (tl s);
       Some (Some r)
     }
   }"

text \<open>
  The second pass of \<open>print_string_ptr\<close>, which counts the room for an escaped string: \<open>s\<close> is the string
  from \<open>ptr\<close> on. In this copy of the library the pointer moves on only in the branch of the control
  characters.
\<close>

definition short_escapes :: "char set" where
  "short_escapes = {CHR 0x22, CHR 0x5C, CHR 0x08, CHR 0x0C, CHR 0x0A, CHR 0x0D, CHR 0x09}"

partial_function (option) escape_room :: "char \<Rightarrow> string \<Rightarrow> int \<Rightarrow> int option" where
  "escape_room token s len =
     (if token = NUL then Some len
      else let len = len + 1; token = (case s of [] \<Rightarrow> NUL | c # _ \<Rightarrow> c) in
        if token \<in> short_escapes \<or> token = NUL then escape_room token s (len + 1)
        else if code token < 32 then escape_room token (tl s) (len + 5)
        else escape_room token s len)"

definition hex_char :: "nat \<Rightarrow> char" where
  "hex_char v = (if v < 10 then digit v else char_of (v + 87))"

definition escape_char :: "char \<Rightarrow> string" where
  "escape_char c =
     (if code c > 31 \<and> c \<noteq> CHR 0x22 \<and> c \<noteq> CHR 0x5C then [c]
      else CHR 0x5C # (if c = CHR 0x5C then [CHR 0x5C] else if c = CHR 0x22 then [CHR 0x22]
        else if c = CHR 0x08 then ''b'' else if c = CHR 0x0C then ''f'' else if c = CHR 0x0A then ''n''
        else if c = CHR 0x0D then ''r'' else if c = CHR 0x09 then ''t''
        else ''u00'' @ [hex_char (code c div 16), hex_char (code c mod 16)]))"

definition needs_escape :: "char \<Rightarrow> bool" where
  "needs_escape c \<longleftrightarrow> code c < 32 \<or> c = CHR 0x22 \<or> c = CHR 0x5C"

text \<open>The string is scanned before the test for a null pointer.\<close>

definition print_string_ptr :: "target \<Rightarrow> string option \<Rightarrow> string option" where
  "print_string_ptr t str = do {
     s \<leftarrow> (case str of None \<Rightarrow> null_text t | Some s \<Rightarrow> Some s);
     if \<not> (\<exists>c \<in> set s. needs_escape c) then Some (CHR 0x22 # s @ [CHR 0x22])
     else if str = None then Some [CHR 0x22, CHR 0x22]
     else do {
       len \<leftarrow> escape_room (case s of [] \<Rightarrow> NUL | c # _ \<Rightarrow> c) s 0;
       Some (CHR 0x22 # concat (map escape_char s) @ [CHR 0x22])
     }
   }"

subsection \<open>Values\<close>

text \<open>\<open>skip\<close> and \<open>!strncmp(value, word, length of word)\<close>.\<close>

fun skip :: "string \<Rightarrow> string option" where
  "skip [] = None"
| "skip (c # s) = (if c \<noteq> NUL \<and> code c \<le> 32 then skip s else Some (c # s))"

fun word_at :: "string \<Rightarrow> string \<Rightarrow> bool option" where
  "word_at [] s = Some True"
| "word_at (w # ws) [] = None"
| "word_at (w # ws) (c # s) = (if c = w then word_at ws s else Some False)"

text \<open>
  \<open>parse_elems\<close> and \<open>parse_members\<close> are the loops of \<open>parse_array\<close> and \<open>parse_object\<close>; \<open>pv\<close> is the parser
  of the values in them and \<open>n\<close> bounds the number of rounds.
\<close>

primrec parse_elems :: "(string \<Rightarrow> parsed) \<Rightarrow> nat \<Rightarrow> string \<Rightarrow> (cJSON list \<times> string) option option" where
  "parse_elems pv 0 s = None"
| "parse_elems pv (Suc n) s = do {
     s \<leftarrow> skip s;
     r \<leftarrow> pv s;
     (case r of None \<Rightarrow> Some None
      | Some (item, s') \<Rightarrow> do {
          s \<leftarrow> skip s';
          c \<leftarrow> peek s;
          if c = CHR '','' then do {
            r \<leftarrow> parse_elems pv n (tl s);
            Some (map_option (\<lambda>(ch, s). (item # ch, s)) r)
          }
          else if c = CHR 0x5D then Some (Some ([item], tl s))
          else Some None
        })
   }"

definition parse_array :: "(string \<Rightarrow> parsed) \<Rightarrow> nat \<Rightarrow> string \<Rightarrow> parsed" where
  "parse_array pv n s = do {
     c \<leftarrow> peek s;
     if c \<noteq> CHR 0x5B then Some None
     else do {
       s \<leftarrow> skip (tl s);
       c \<leftarrow> peek s;
       if c = CHR 0x5D then Some (Some (plain_item cJSON_Array 0, tl s))
       else do {
         r \<leftarrow> parse_elems pv n s;
         Some (map_option (\<lambda>(ch, s). (JItem cJSON_Array ch None 0 (Fin 0 0) None, s)) r)
       }
     }
   }"

text \<open>A name, the colon and the value.\<close>

definition parse_member :: "(string \<Rightarrow> parsed) \<Rightarrow> string \<Rightarrow> parsed" where
  "parse_member pv s = do {
     s \<leftarrow> skip s;
     r \<leftarrow> parse_string s;
     (case r of None \<Rightarrow> Some None
      | Some (name, s') \<Rightarrow> do {
          s \<leftarrow> skip s';
          c \<leftarrow> peek s;
          if c \<noteq> CHR '':'' then Some None
          else do {
            s \<leftarrow> skip (tl s);
            r \<leftarrow> pv s;
            Some (map_option (\<lambda>(item, s). (set_string name item, s)) r)
          }
        })
   }"

primrec parse_members :: "(string \<Rightarrow> parsed) \<Rightarrow> nat \<Rightarrow> string \<Rightarrow> (cJSON list \<times> string) option option" where
  "parse_members pv 0 s = None"
| "parse_members pv (Suc n) s = do {
     r \<leftarrow> parse_member pv s;
     (case r of None \<Rightarrow> Some None
      | Some (item, s') \<Rightarrow> do {
          s \<leftarrow> skip s';
          c \<leftarrow> peek s;
          if c = CHR '','' then do {
            r \<leftarrow> parse_members pv n (tl s);
            Some (map_option (\<lambda>(ch, s). (item # ch, s)) r)
          }
          else if c = CHR 0x7D then Some (Some ([item], tl s))
          else Some None
        })
   }"

definition parse_object :: "(string \<Rightarrow> parsed) \<Rightarrow> nat \<Rightarrow> string \<Rightarrow> parsed" where
  "parse_object pv n s = do {
     c \<leftarrow> peek s;
     if c \<noteq> CHR 0x7B then Some None
     else do {
       s \<leftarrow> skip (tl s);
       c \<leftarrow> peek s;
       if c = CHR 0x7D then Some (Some (plain_item cJSON_Object 0, tl s))
       else do {
         r \<leftarrow> parse_members pv n s;
         Some (map_option (\<lambda>(ch, s). (JItem cJSON_Object ch None 0 (Fin 0 0) None, s)) r)
       }
     }
   }"

text \<open>The three words; \<^term>\<open>Some None\<close> when the text starts with none of them.\<close>

definition parse_word :: "string \<Rightarrow> parsed" where
  "parse_word s = do {
     b \<leftarrow> word_at ''null'' s;
     if b then Some (Some (plain_item cJSON_NULL 0, drop 4 s)) else do {
     b \<leftarrow> word_at ''false'' s;
     if b then Some (Some (plain_item cJSON_False 0, drop 5 s)) else do {
     b \<leftarrow> word_at ''true'' s;
     Some (if b then Some (plain_item cJSON_True 1, drop 4 s) else None) }}
   }"

primrec parse_value :: "(int \<Rightarrow> cfp) \<Rightarrow> nat \<Rightarrow> string \<Rightarrow> parsed" where
  "parse_value pw 0 s = None"
| "parse_value pw (Suc n) s = do {
     w \<leftarrow> parse_word s;
     (case w of Some r \<Rightarrow> Some (Some r)
      | None \<Rightarrow> do {
          c \<leftarrow> peek s;
          if c = CHR 0x22 then do {
            r \<leftarrow> parse_string s;
            Some (map_option (\<lambda>(str, s). (JItem cJSON_String [] (Some str) 0 (Fin 0 0) None, s)) r)
          }
          else if c = CHR ''-'' \<or> is_digit c then parse_number pw s
          else if c = CHR 0x5B then parse_array (parse_value pw n) n s
          else if c = CHR 0x7B then parse_object (parse_value pw n) n s
          else Some None
        })
   }"

definition cJSON_Parse :: "(int \<Rightarrow> cfp) \<Rightarrow> string \<Rightarrow> cJSON option option" where
  "cJSON_Parse pw value = do {
     s \<leftarrow> skip value;
     r \<leftarrow> parse_value pw (length value + 1) s;
     Some (map_option fst r)
   }"

subsection \<open>Printing\<close>

text \<open>
  The texts of the entries are collected first; a failing entry fails the whole. Then the output is
  composed.
\<close>

definition array_text :: "bool \<Rightarrow> string list \<Rightarrow> string" where
  "array_text fmt es = (if es = [] then ''[]''
     else CHR 0x5B # concat (map (\<lambda>e. e @ (if fmt then '', '' else '','')) (butlast es)) @ last es @ [CHR 0x5D])"

definition object_text :: "bool \<Rightarrow> nat \<Rightarrow> (string \<times> string) list \<Rightarrow> string" where
  "object_text fmt depth es =
     (let tabs = (\<lambda>k. if fmt then replicate k (CHR 0x09) else []); nl = (if fmt then [LF] else []) in
      if es = [] then CHR 0x7B # nl @ tabs (depth - 1) @ [CHR 0x7D]
      else CHR 0x7B # nl
        @ concat (map (\<lambda>i. tabs (depth + 1) @ fst (es ! i) @ (CHR '':'' # (if fmt then [CHR 0x09] else [])) @ snd (es ! i)
             @ (if i \<noteq> length es - 1 then '','' else []) @ nl) [0..<length es])
        @ tabs depth @ [CHR 0x7D])"

fun print_value :: "target \<Rightarrow> (cfp \<Rightarrow> string) \<Rightarrow> bool \<Rightarrow> nat \<Rightarrow> cJSON \<Rightarrow> string option" where
  "print_value t fm fmt depth (JItem ty ch vs vi vd st) =
     (case ty of
        cJSON_NULL \<Rightarrow> Some ''null''
      | cJSON_False \<Rightarrow> Some ''false''
      | cJSON_True \<Rightarrow> Some ''true''
      | cJSON_Number \<Rightarrow> Some (print_number fm (JItem ty ch vs vi vd st))
      | cJSON_String \<Rightarrow> print_string_ptr t vs
      | cJSON_Array \<Rightarrow> do {
          es \<leftarrow> those (map (print_value t fm fmt (depth + 1)) ch);
          Some (array_text fmt es)
        }
      | cJSON_Object \<Rightarrow> do {
          names \<leftarrow> those (map (\<lambda>c. print_string_ptr t (jstring c)) ch);
          es \<leftarrow> those (map (print_value t fm fmt (depth + 1)) ch);
          Some (object_text fmt depth (zip names es))
        })"

definition cJSON_Print :: "target \<Rightarrow> (cfp \<Rightarrow> string) \<Rightarrow> cJSON \<Rightarrow> string option" where
  "cJSON_Print t fm item = print_value t fm True 0 item"

subsection \<open>Items\<close>

definition tolower :: "char \<Rightarrow> char" where
  "tolower c = (if 65 \<le> code c \<and> code c \<le> 90 then char_of (code c + 32) else c)"

text \<open>\<open>cJSON_strcasecmp(s1, s2) == 0\<close>.\<close>

definition cJSON_strcasecmp :: "string option \<Rightarrow> string option \<Rightarrow> bool" where
  "cJSON_strcasecmp s1 s2 =
     (case (s1, s2) of (None, None) \<Rightarrow> True | (Some a, Some b) \<Rightarrow> map tolower a = map tolower b | _ \<Rightarrow> False)"

definition cJSON_GetArraySize :: "cJSON \<Rightarrow> nat" where
  "cJSON_GetArraySize a = length (child a)"

definition cJSON_GetArrayItem :: "cJSON \<Rightarrow> nat \<Rightarrow> cJSON option" where
  "cJSON_GetArrayItem a i = rd (child a) i"

definition cJSON_GetObjectItem :: "cJSON \<Rightarrow> string \<Rightarrow> cJSON option" where
  "cJSON_GetObjectItem ob s = find (\<lambda>c. cJSON_strcasecmp (jstring c) (Some s)) (child ob)"

definition cJSON_CreateObject :: cJSON where
  "cJSON_CreateObject = plain_item cJSON_Object 0"

text \<open>The argument is an \<open>int\<close> converted to \<open>double\<close>.\<close>

definition cJSON_CreateNumber :: "int \<Rightarrow> cJSON" where
  "cJSON_CreateNumber i = JItem cJSON_Number [] None i (f_of_int i) None"

text \<open>\<open>cJSON_strdup\<close> copies the string, whatever the pointer.\<close>

definition cJSON_CreateString :: "target \<Rightarrow> string option \<Rightarrow> cJSON option" where
  "cJSON_CreateString t str = do {
     s \<leftarrow> (case str of None \<Rightarrow> null_text t | Some s \<Rightarrow> Some s);
     Some (JItem cJSON_String [] (Some s) 0 (Fin 0 0) None)
   }"

fun cJSON_AddItemToArray :: "cJSON \<Rightarrow> cJSON \<Rightarrow> cJSON" where
  "cJSON_AddItemToArray (JItem ty ch vs vi vd st) item = JItem ty (ch @ [item]) vs vi vd st"

definition cJSON_AddItemToObject :: "cJSON \<Rightarrow> string \<Rightarrow> cJSON \<Rightarrow> cJSON" where
  "cJSON_AddItemToObject ob s item = cJSON_AddItemToArray ob (set_string s item)"

text \<open>A parser that consumes at least one character of what it accepts.\<close>

definition consumes :: "(string \<Rightarrow> ('a \<times> string) option option) \<Rightarrow> bool" where
  "consumes pv \<longleftrightarrow> (\<forall>s x r. pv s = Some (Some (x, r)) \<longrightarrow> length r < length s)"

text \<open>A string that is printed as it is, and an \<open>int\<close>.\<close>

definition clean :: "string \<Rightarrow> bool" where
  "clean s \<longleftrightarrow> (\<forall>c \<in> set s. \<not> needs_escape c \<and> c \<noteq> NUL)"

definition is_s32 :: "int \<Rightarrow> bool" where
  "is_s32 i \<longleftrightarrow> - (2 ^ 31) \<le> i \<and> i < 2 ^ 31"

text \<open>A character that cannot continue a number.\<close>

definition ends_number :: "char \<Rightarrow> bool" where
  "ends_number c \<longleftrightarrow> \<not> is_digit c \<and> c \<noteq> CHR ''.'' \<and> c \<noteq> CHR ''e'' \<and> c \<noteq> CHR ''E''"

declare decode_string.simps [simp del]

section \<open>The parser makes progress\<close>

lemma peek_eq_Some: "peek s = Some c \<longleftrightarrow> (\<exists>r. s = c # r)"
  by (cases s) (auto simp: peek_def)

lemma peek_Cons [simp]: "peek (c # s) = Some c"
  by (simp add: peek_def)

lemma consumesD: "consumes pv \<Longrightarrow> pv s = Some (Some (x, r)) \<Longrightarrow> length r < length s"
  by (auto simp: consumes_def)

lemma skip_length: "skip s = Some r \<Longrightarrow> length r \<le> length s"
  by (induction s rule: skip.induct) (auto split: if_splits)

lemma acc_digits_length: "acc_digits n k s = Some (n', k', r) \<Longrightarrow> length r \<le> length s"
  by (induction n k s rule: acc_digits.induct) (fastforce split: if_splits)+

lemma acc_exp_length: "acc_exp e s = Some (e', r) \<Longrightarrow> length r \<le> length s"
  by (induction e s rule: acc_exp.induct) (fastforce simp: Let_def split: if_splits)+

lemma decode_string_length: "decode_string cap out s = Some (str, r) \<Longrightarrow> length r \<le> length s"
proof (induction "length s" arbitrary: out s rule: less_induct)
  case less
  have IH: "length r \<le> length s'" if "decode_string cap out' s' = Some (str, r)" "length s' < length s" for out' s'
    using less.hyps that by blast
  from less.prems show ?case
    by (subst (asm) decode_string.simps)
      (fastforce split: list.splits if_splits option.splits dest: IH)
qed

lemma consumes_parse_string: "consumes parse_string"
  by (auto simp: consumes_def parse_string_def bind_eq_Some_conv peek_eq_Some less_Suc_eq_le
      split: if_splits dest!: decode_string_length)

lemma number_fraction_length: "number_fraction n s = Some (n', k, r) \<Longrightarrow> length r \<le> length s"
  by (auto simp: number_fraction_def bind_eq_Some_conv peek_eq_Some split: if_splits dest!: acc_digits_length)

lemma number_exponent_length: "number_exponent s = Some (e, g, r) \<Longrightarrow> length r \<le> length s"
  by (auto simp: number_exponent_def bind_eq_Some_conv peek_eq_Some split: if_splits dest!: acc_exp_length)

lemma number_whole_length:
  assumes "number_whole s = Some (n, r)"
  shows "length r \<le> length s" "is_digit (hd s) \<Longrightarrow> length r < length s"
proof -
  obtain c s1 where s: "s = c # s1" using assms by (cases s) (auto simp: number_whole_def peek_def)
  have "length r \<le> length s \<and> (is_digit c \<longrightarrow> length r < length s)"
  proof (cases "c = CHR ''0''")
    case True
    then show ?thesis using assms
      by (auto simp: s number_whole_def bind_eq_Some_conv peek_eq_Some less_Suc_eq_le split: if_splits
          dest!: acc_digits_length)
  next
    case False
    then show ?thesis using assms
      by (auto simp: s number_whole_def bind_eq_Some_conv less_Suc_eq_le Let_def split: if_splits
          dest!: acc_digits_length)
  qed
  then show "length r \<le> length s" "is_digit (hd s) \<Longrightarrow> length r < length s" by (simp_all add: s)
qed

lemma parse_number_length:
  assumes "parse_number pw (c # s) = Some (Some (item, r))" "c = CHR ''-'' \<or> is_digit c"
  shows "length r < length (c # s)"
proof -
  obtain g s1 n s2 n' k s3 e h s4 where p: "number_sign (c # s) = Some (g, s1)" "number_whole s1 = Some (n, s2)"
    "number_fraction n s2 = Some (n', k, s3)" "number_exponent s3 = Some (e, h, s4)" "r = s4"
    using assms(1) by (auto simp: parse_number_def bind_eq_Some_conv Let_def)
  have "length s4 \<le> length s2" using number_fraction_length [OF p(3)] number_exponent_length [OF p(4)] by simp
  moreover have "length s2 < length (c # s)"
    using p(1) number_whole_length [OF p(2)] assms(2) by (auto simp: number_sign_def split: if_splits)
  ultimately show ?thesis using p(5) by simp
qed

lemma parse_elems_length: "consumes pv \<Longrightarrow> consumes (parse_elems pv n)"
proof (induction n)
  case (Suc n)
  note IH = Suc.IH [OF Suc.prems]
  show ?case
    unfolding consumes_def
  proof (intro allI impI)
    fix s ch r
    assume "parse_elems pv (Suc n) s = Some (Some (ch, r))"
    then show "length r < length s"
      by (auto simp: bind_eq_Some_conv peek_eq_Some split: option.splits if_splits
          dest!: skip_length consumesD [OF Suc.prems] consumesD [OF IH])
  qed
qed (simp add: consumes_def)

lemma parse_member_length:
  assumes "consumes pv"
  shows "consumes (parse_member pv)"
  unfolding consumes_def parse_member_def
  by (auto simp: bind_eq_Some_conv peek_eq_Some split: option.splits if_splits
      dest!: skip_length consumesD [OF assms] consumesD [OF consumes_parse_string])

lemma parse_members_length: "consumes pv \<Longrightarrow> consumes (parse_members pv n)"
proof (induction n)
  case (Suc n)
  note IH = Suc.IH [OF Suc.prems]
  show ?case
    unfolding consumes_def
  proof (intro allI impI)
    fix s ch r
    assume "parse_members pv (Suc n) s = Some (Some (ch, r))"
    then show "length r < length s"
      by (auto simp: bind_eq_Some_conv peek_eq_Some split: option.splits if_splits
          dest!: skip_length consumesD [OF parse_member_length [OF Suc.prems]] consumesD [OF IH])
  qed
qed (simp add: consumes_def)

lemma parse_array_length:
  assumes "consumes pv"
  shows "consumes (parse_array pv n)"
  unfolding consumes_def [of "parse_array pv n"] parse_array_def
  by (auto simp: bind_eq_Some_conv peek_eq_Some split: if_splits
      dest!: skip_length consumesD [OF parse_elems_length [OF assms]])

lemma parse_object_length:
  assumes "consumes pv"
  shows "consumes (parse_object pv n)"
  unfolding consumes_def [of "parse_object pv n"] parse_object_def
  by (auto simp: bind_eq_Some_conv peek_eq_Some split: if_splits
      dest!: skip_length consumesD [OF parse_members_length [OF assms]])

lemma word_at_length: "word_at w s = Some True \<Longrightarrow> length w \<le> length s"
  by (induction w s rule: word_at.induct) (auto split: if_splits)

lemma consumes_parse_word: "consumes parse_word"
  by (auto simp: consumes_def parse_word_def bind_eq_Some_conv split: if_splits dest!: word_at_length)

lemma consumes_parse_value: "consumes (parse_value pw n)"
proof (induction n)
  case (Suc n)
  show ?case
    unfolding consumes_def
  proof (intro allI impI)
    fix s item r
    assume p: "parse_value pw (Suc n) s = Some (Some (item, r))"
    then obtain w where w: "parse_word s = Some w" by (cases "parse_word s") auto
    show "length r < length s"
    proof (cases w)
      case (Some x)
      then show ?thesis using p w consumesD [OF consumes_parse_word] by simp
    next
      case None
      then obtain c s' where s: "s = c # s'" using p w by (cases s) (auto simp: peek_def)
      show ?thesis
      proof (cases "c = CHR 0x22")
        case True
        then obtain str where "parse_string s = Some (Some (str, r))"
          using p w None s by (auto simp: bind_eq_Some_conv)
        then show ?thesis by (rule consumesD [OF consumes_parse_string])
      next
        case False
        then consider "parse_number pw s = Some (Some (item, r))" "c = CHR ''-'' \<or> is_digit c"
          | "parse_array (parse_value pw n) n s = Some (Some (item, r))"
          | "parse_object (parse_value pw n) n s = Some (Some (item, r))"
          using p w None s by (simp split: if_splits)
        then show ?thesis
          using parse_number_length [of pw c s' item r] consumesD [OF parse_array_length [OF Suc]]
            consumesD [OF parse_object_length [OF Suc]] s
          by cases blast+
      qed
    qed
  qed
qed (simp add: consumes_def)

section \<open>The fuel is enough\<close>

text \<open>
  Two value parsers that agree on all shorter texts give the same arrays and objects, if there is a
  round for every character.
\<close>

lemma parse_elems_cong:
  assumes "consumes pv" "\<And>s'. length s' \<le> length s \<Longrightarrow> pv s' = pv' s'" "length s < n" "length s < m"
  shows "parse_elems pv n s = parse_elems pv' m s"
  using assms(2-)
proof (induction n arbitrary: s m)
  case (Suc n)
  then obtain m' where m: "m = Suc m'" by (cases m) auto
  have IH: "parse_elems pv n (tl s3) = parse_elems pv' m' (tl s3)"
    if "skip s = Some s1" "pv s1 = Some (Some (i, s2))" "skip s2 = Some s3" for s1 i s2 s3
    using that Suc.prems m consumesD [OF assms(1) that(2)] skip_length
    by (intro Suc.IH) (fastforce dest: skip_length)+
  have pv: "pv s1 = pv' s1" if "skip s = Some s1" for s1 using Suc.prems(1) skip_length [OF that] by blast
  show ?case
    by (auto simp: m pv IH split: option.split bind_split)
qed simp

lemma parse_member_cong:
  assumes "\<And>s'. length s' \<le> length s \<Longrightarrow> pv s' = pv' s'"
  shows "parse_member pv s = parse_member pv' s"
proof -
  have "pv (s5) = pv' s5"
    if "skip s = Some s1" "parse_string s1 = Some (Some (nm, s2))" "skip s2 = Some s3" "skip (tl s3) = Some s5" for s1 nm s2 s3 s5
  proof (rule assms)
    show "length s5 \<le> length s"
      using skip_length [OF that(1)] consumesD [OF consumes_parse_string that(2)] skip_length [OF that(3)]
        skip_length [OF that(4)] by simp
  qed
  then show ?thesis
    by (auto simp: parse_member_def split: option.split bind_split)
qed

lemma parse_members_cong:
  assumes "consumes pv" "\<And>s'. length s' \<le> length s \<Longrightarrow> pv s' = pv' s'" "length s < n" "length s < m"
  shows "parse_members pv n s = parse_members pv' m s"
  using assms(2-)
proof (induction n arbitrary: s m)
  case (Suc n)
  then obtain m' where m: "m = Suc m'" by (cases m) auto
  have IH: "parse_members pv n (tl s3) = parse_members pv' m' (tl s3)"
    if "parse_member pv s = Some (Some (i, s2))" "skip s2 = Some s3" for i s2 s3
    using that Suc.prems m consumesD [OF parse_member_length [OF assms(1)] that(1)] skip_length [OF that(2)]
    by (intro Suc.IH) auto
  have "parse_member pv s = parse_member pv' s" using Suc.prems(1) by (rule parse_member_cong)
  with IH show ?case
    by (auto simp: m split: option.split bind_split)
qed simp

lemma parse_array_cong:
  assumes "consumes pv" "\<And>s'. length s' < length s \<Longrightarrow> pv s' = pv' s'" "length s \<le> n" "length s \<le> m"
  shows "parse_array pv n s = parse_array pv' m s"
proof (cases s)
  case (Cons c s0)
  have "parse_elems pv n s1 = parse_elems pv' m s1" if "skip s0 = Some s1" for s1
    by (rule parse_elems_cong [OF assms(1)]) (use skip_length [OF that] assms(2-4) Cons in \<open>simp_all\<close>)
  then show ?thesis by (auto simp: parse_array_def Cons split: bind_split)
qed (simp add: parse_array_def peek_def)

lemma parse_object_cong:
  assumes "consumes pv" "\<And>s'. length s' < length s \<Longrightarrow> pv s' = pv' s'" "length s \<le> n" "length s \<le> m"
  shows "parse_object pv n s = parse_object pv' m s"
proof (cases s)
  case (Cons c s0)
  have "parse_members pv n s1 = parse_members pv' m s1" if "skip s0 = Some s1" for s1
    by (rule parse_members_cong [OF assms(1)]) (use skip_length [OF that] assms(2-4) Cons in \<open>simp_all\<close>)
  then show ?thesis by (auto simp: parse_object_def Cons split: bind_split)
qed (simp add: parse_object_def peek_def)

lemma parse_fuel:
  "length s < n \<Longrightarrow> length s < m \<Longrightarrow> parse_value pw n s = parse_value pw m s"
proof (induction n arbitrary: s m)
  case (Suc n)
  then obtain m' where m: "m = Suc m'" by (cases m) auto
  have IH: "\<And>s'. length s' < length s \<Longrightarrow> parse_value pw n s' = parse_value pw m' s'"
    using Suc.prems m by (intro Suc.IH) auto
  have "parse_array (parse_value pw n) n s = parse_array (parse_value pw m') m' s"
    "parse_object (parse_value pw n) n s = parse_object (parse_value pw m') m' s"
    by (rule parse_array_cong [OF consumes_parse_value IH] parse_object_cong [OF consumes_parse_value IH];
        use Suc.prems m in simp)+
  then show ?case by (auto simp: m split: option.split bind_split)
qed simp

section \<open>Printed numbers and strings are read back\<close>

lemma round_exact:
  assumes "\<bar>m\<bar> < 2 ^ 53"
  shows "round_to 53 m e = Fin m e"
proof -
  have "blen \<bar>m\<bar> \<le> 53"
  proof (rule ccontr)
    assume "\<not> blen \<bar>m\<bar> \<le> 53"
    then have "m \<noteq> 0" "53 \<le> blen \<bar>m\<bar> - 1" by (auto simp: blen.simps)
    then have "2 ^ 53 \<le> (2 :: int) ^ (blen \<bar>m\<bar> - 1)" by (intro power_increasing) auto
    with blen_lower [of "\<bar>m\<bar>"] \<open>m \<noteq> 0\<close> assms show False by simp
  qed
  then show ?thesis by (simp add: round_to_def Let_def)
qed

lemma acc_digits_dec:
  "n < 2 ^ 49 \<Longrightarrow> acc_digits (Fin 0 0) k (dec n @ r) = acc_digits (Fin (int n) 0) (k + length (dec n)) r"
proof (induction n arbitrary: r rule: dec.induct)
  case (1 n)
  have one: "acc_digits (Fin (int m) 0) k (digit d # r) = acc_digits (Fin (int (10 * m + d)) 0) (k + 1) r"
    if "d < 10" "10 * m < 2 ^ 49" for d m k r
  proof -
    have "is_digit (digit d)" using of_char_digit(1) [OF that(1)] that(1) by (simp add: is_digit_def)
    moreover have "\<bar>int m * 10\<bar> < 2 ^ 53" "\<bar>int m * 10 + int d\<bar> < 2 ^ 53" using that by auto
    ultimately show ?thesis
      using of_char_digit(1) [OF that(1)]
      by (simp add: f_of_int_def round_exact algebra_simps)
  qed
  show ?case
  proof (cases "n < 10")
    case True
    then show ?thesis using one [of n 0 k r] by (simp add: dec.simps)
  next
    case False
    have "10 * (n div 10) < 2 ^ 49" using 1(2) by linarith
    then show ?thesis
      using False 1(1) [OF False, of "digit (n mod 10) # r"] 1(2) one [of "n mod 10" "n div 10" "k + length (dec (n div 10))" r]
      by (subst (1 2) dec.simps) simp
  qed
qed

lemma dec_head: "\<exists>c s. dec n = c # s \<and> is_digit c \<and> c \<noteq> CHR ''-''"
proof (cases "dec n")
  case (Cons c s)
  then obtain d where "d < 10" "c = digit d" using dec_digits [of c n] by auto
  then show ?thesis using Cons of_char_digit(1) [of d] digit_not [of d "CHR ''-''"] by (simp add: is_digit_def)
qed (use dec_length(1) [of n] in simp)

lemma number_whole_dec:
  assumes "n < 2 ^ 49" "ends_number c"
  shows "number_whole (dec n @ c # r) = Some (Fin (int n) 0, c # r)"
proof (cases "n = 0")
  case True
  have "dec 0 = ''0''" by (simp add: dec.simps digit_zero)
  then show ?thesis using True assms(2) by (auto simp: number_whole_def ends_number_def)
next
  case False
  have lead: "\<exists>d s. dec n = digit d # s \<and> 0 < d \<and> d < 10" if "0 < n" for n
    using that
  proof (induction n rule: dec.induct)
    case (1 n)
    show ?case
    proof (cases "n < 10")
      case False
      then have "0 < n div 10" by simp
      with 1(1) [OF False] obtain d s where "dec (n div 10) = digit d # s" "0 < d" "d < 10" by blast
      then show ?thesis using False by (subst dec.simps) auto
    qed (use 1(2) in \<open>simp add: dec.simps, blast\<close>)
  qed
  from lead [of n] False obtain d s where d: "dec n = digit d # s" "0 < d" "d < 10" by auto
  then have "is_digit (digit d)" "digit d \<noteq> CHR ''0''"
    using of_char_digit(1) [of d] digit_zero [of d] by (simp_all add: is_digit_def)
  then show ?thesis
    using acc_digits_dec [OF assms(1), of 0 "c # r"] assms(2)
    by (simp add: number_whole_def d ends_number_def)
qed

lemma parse_number_dec_int:
  assumes "is_s32 i" "ends_number c" "pw 0 = Fin 1 0"
  shows "parse_number pw (dec_int i @ c # r) = Some (Some (JItem cJSON_Number [] None i (Fin i 0) None, c # r))"
proof -
  have b: "nat \<bar>i\<bar> < 2 ^ 49" "\<bar>i\<bar> < 2 ^ 53" using assms(1) by (auto simp: is_s32_def)
  have nf: "number_fraction n (c # r) = Some (n, 0, c # r)" "number_exponent (c # r) = Some (0, 1, c # r)" for n
    using assms(2) by (simp_all add: number_fraction_def number_exponent_def ends_number_def)
  have s: "number_sign (dec_int i @ c # r) = Some (if i < 0 then -1 else 1, dec (nat \<bar>i\<bar>) @ c # r)"
  proof (cases "i < 0")
    case False
    with dec_head [of "nat i"] show ?thesis by (auto simp: number_sign_def dec_int_def)
  qed (simp add: number_sign_def dec_int_def)
  show ?thesis
    using assms b
    by (cases "i < 0") (simp_all add: parse_number_def s number_whole_dec nf f_of_int_def round_exact is_s32_def
        trunc_int_def Let_def)
qed

lemma print_number_int:
  assumes "is_s32 i"
  shows "print_number fm (JItem cJSON_Number [] None i (f_of_int i) st) = dec_int i"
proof (cases "i = 0")
  case True
  have "dec 0 = ''0''" by (simp add: dec.simps digit_zero)
  then show ?thesis using True by (simp add: print_number_def f_of_int_def dec_int_def)
next
  case False
  then show ?thesis
    using assms by (auto simp: print_number_def f_of_int_def f_sub_def round_exact DBL_EPSILON_def is_s32_def Let_def)
qed

lemma cleanD: "clean s \<Longrightarrow> c \<in> set s \<Longrightarrow> c \<noteq> CHR 0x22 \<and> c \<noteq> CHR 0x5C \<and> c \<noteq> NUL"
  by (auto simp: clean_def needs_escape_def)

lemma string_room_clean: "clean s \<Longrightarrow> string_room (s @ CHR 0x22 # r) n = Some (n + length s)"
  by (induction s arbitrary: n) (auto simp: clean_def needs_escape_def)

lemma decode_string_clean:
  "clean s \<Longrightarrow> length out + length s \<le> cap \<Longrightarrow> decode_string cap out (s @ CHR 0x22 # r) = Some (out @ s, r)"
proof (induction s arbitrary: out)
  case Nil
  then show ?case by (subst decode_string.simps) simp
next
  case (Cons c s)
  from Cons.prems(1) have "clean s" by (simp add: clean_def)
  with Cons cleanD [OF Cons.prems(1), of c] show ?case
    by (subst decode_string.simps) (simp add: push_char_def)
qed

lemma parse_string_clean: "clean s \<Longrightarrow> parse_string (CHR 0x22 # s @ CHR 0x22 # r) = Some (Some (s, r))"
  by (simp add: parse_string_def string_room_clean decode_string_clean)

lemma print_string_clean: "clean s \<Longrightarrow> print_string_ptr t (Some s) = Some (CHR 0x22 # s @ [CHR 0x22])"
  by (auto simp: print_string_ptr_def clean_def)

section \<open>Escaped strings\<close>

lemma escape_room_stuck:
  assumes "escape_room token s len = Some r"
  shows "token = NUL \<or> (case s of [] \<Rightarrow> True | c # _ \<Rightarrow> c \<notin> short_escapes \<and> code c < 32)"
proof (rule escape_room.raw_induct [OF _ assms,
    where P = "\<lambda>token s len r. token = NUL \<or> (case s of [] \<Rightarrow> True | c # _ \<Rightarrow> c \<notin> short_escapes \<and> code c < 32)"])
  fix f token s len r
  assume IH: "\<And>token s len r. f token s len = Some r \<Longrightarrow>
      token = NUL \<or> (case s of [] \<Rightarrow> True | c # _ \<Rightarrow> c \<notin> short_escapes \<and> code c < 32)"
    and body: "(if token = NUL then Some len
      else let len = len + 1; token = (case s of [] \<Rightarrow> NUL | c # _ \<Rightarrow> c) in
        if token \<in> short_escapes \<or> token = NUL then f token s (len + 1)
        else if code token < 32 then f token (tl s) (len + 5)
        else f token s len) = Some r"
  show "token = NUL \<or> (case s of [] \<Rightarrow> True | c # _ \<Rightarrow> c \<notin> short_escapes \<and> code c < 32)"
  proof (cases s)
    case (Cons c s')
    show ?thesis
    proof (cases "c = NUL")
      case True
      then show ?thesis using Cons by (simp add: short_escapes_def)
    next
      case False
      with body Cons IH [of c s] show ?thesis by (fastforce simp: Let_def split: if_splits)
    qed
  qed simp
qed

section \<open>Properties\<close>

text \<open>
  A string with a quote, a backslash or a control character is never printed when its first
  character is not a control character: the pass that counts the room for it does not return, because
  its pointer stays where it is.
\<close>

lemma escaped_string_never_printed:
  assumes "c \<in> set (x # s)" "needs_escape c" "32 \<le> code x"
  shows "print_string_ptr t (Some (x # s)) = None"
proof -
  have "x \<noteq> NUL" using assms(3) by auto
  then have "escape_room x (x # s) 0 = None"
    using escape_room_stuck [of x "x # s" 0] assms(3) by (cases "escape_room x (x # s) 0") auto
  then show ?thesis using assms(1,2) by (auto simp: print_string_ptr_def)
qed



end
