(* ===== verification/JsonConfig.thy ===== *)
theory JsonConfig
  imports ConfigParam CJson
begin

text \<open>
  Task/Struct2Json/Interface_S2J.c and JsonFileOperation.c: the configuration table is kept in the file
  \<open>/ConfigFile.json\<close>. The serialisation macros of s2jdef.h are expanded. \<open>f_read\<close> gets a null pointer for the
  byte count, so it stores through it.
\<close>

section \<open>Definitions\<close>

definition ConfigFile_StructToJson :: "target \<Rightarrow> ConfigFile \<Rightarrow> cJSON option" where
  "ConfigFile_StructToJson t c = do {
     let json_obj = cJSON_CreateObject;
     name \<leftarrow> cJSON_CreateString t (cfg_name c);
     let json_obj = cJSON_AddItemToObject json_obj ''name'' name;
     let json_obj = cJSON_AddItemToObject json_obj ''parameter'' (cJSON_CreateNumber (sint (parameter c)));
     let json_obj = cJSON_AddItemToObject json_obj ''number'' (cJSON_CreateNumber (sint (cfg_number c)));
     Some json_obj
   }"

text \<open>The new structure is cleared, so its name is \<open>NULL\<close>; only the two numbers are read.\<close>

definition ConfigFile_JsonToStruct :: "cJSON \<Rightarrow> ConfigFile" where
  "ConfigFile_JsonToStruct json_obj =
     (let get = (\<lambda>e. case cJSON_GetObjectItem json_obj e of None \<Rightarrow> 0 | Some j \<Rightarrow> of_int (valueint j))
      in \<lparr>cfg_name = None, parameter = get ''parameter'', cfg_number = get ''number''\<rparr>)"

definition json_path :: string where "json_path = ''/ConfigFile.json''"

text \<open>One round of the loop of \<open>Create_JsonFile\<close>.\<close>

definition write_entry ::
  "target \<Rightarrow> (cfp \<Rightarrow> string) \<Rightarrow> ConfigFile list \<Rightarrow> nat \<Rightarrow> FIL \<times> disk \<Rightarrow> (FIL \<times> disk) option" where
  "write_entry t fm cfg i = (\<lambda>(fil, d). do {
     c \<leftarrow> rd cfg i;
     struct_json \<leftarrow> ConfigFile_StructToJson t c;
     str \<leftarrow> cJSON_Print t fm struct_json;
     let (_, _, fil, d) = f_write str fil d;
     let (_, _, fil, d) = f_write (if i < length cfg - 1 then [CHR '','', LF] else [LF]) fil d;
     Some (fil, d)
   })"

definition Create_JsonFile ::
  "target \<Rightarrow> (cfp \<Rightarrow> string) \<Rightarrow> ConfigFile list \<Rightarrow> FIL \<Rightarrow> disk \<Rightarrow> (u8 \<times> FIL \<times> disk) option" where
  "Create_JsonFile t fm cfg fil d = do {
     let (_, fil, d) = f_open_create json_path fil d;
     let (_, _, fil, d) = f_write (CHR 0x7B # CHR 0x22 # ''ConfigFile'' @ CHR 0x22 # '':[  '' @ [LF]) fil d;
     (fil, d) \<leftarrow> foldM (write_entry t fm cfg) [0..<unat (GetConfigFileLength cfg)] (fil, d);
     let (_, _, fil, d) = f_write [CHR 0x5D, LF] fil d;
     let (res, _, fil, d) = f_write [CHR 0x7D, LF] fil d;
     let (_, fil) = f_close fil;
     Some (res, fil, d)
   }"

text \<open>The two nested loops of \<open>Get_JsonFile\<close> over the parsed file.\<close>

definition load_entries :: "cJSON \<Rightarrow> ConfigFile list \<Rightarrow> ConfigFile list option" where
  "load_entries item cfg =
     foldM (\<lambda>j cfg. do {
        it \<leftarrow> cJSON_GetArrayItem item j;
        if jtype it = cJSON_Object then wr cfg j (ConfigFile_JsonToStruct it) else Some cfg
      }) [0..<cJSON_GetArraySize item] cfg"

definition load_config :: "cJSON \<Rightarrow> ConfigFile list \<Rightarrow> ConfigFile list option" where
  "load_config readJson cfg =
     foldM (\<lambda>i cfg. do {
        item \<leftarrow> cJSON_GetArrayItem readJson i;
        if jtype item \<noteq> cJSON_Object \<and> child item \<noteq> [] then load_entries item cfg else Some cfg
      }) [0..<cJSON_GetArraySize readJson] cfg"

text \<open>The text in the buffer after \<open>f_read\<close>; \<open>cJSON_Parse\<close> of a null pointer gives 0.\<close>

definition parse_buffer :: "(int \<Rightarrow> cfp) \<Rightarrow> string option \<Rightarrow> string \<Rightarrow> cJSON option option" where
  "parse_buffer pw buf bs =
     (case buf of None \<Rightarrow> Some None | Some b \<Rightarrow> cJSON_Parse pw (bs @ drop (length bs) b))"

definition Get_JsonFile ::
  "target \<Rightarrow> (int \<Rightarrow> cfp) \<Rightarrow> ConfigFile list \<Rightarrow> FIL \<Rightarrow> disk \<Rightarrow> (u8 \<times> ConfigFile list \<times> FIL) option" where
  "Get_JsonFile t pw cfg fil d = do {
     let (res, fil) = f_open_read json_path fil d;
     if res \<noteq> FR_OK then Some (res, cfg, snd (f_close fil))
     else do {
       let fileSize = (of_nat (objsize fil) :: u16);
       let string = heap t (unat fileSize);
       c_assert (null_store t);
       let (res, bs, fil) = f_read (unat fileSize) fil d;
       if res \<noteq> FR_OK then Some (res, cfg, snd (f_close fil))
       else do {
         readJson \<leftarrow> parse_buffer pw string bs;
         (case readJson of None \<Rightarrow> Some (res, cfg, snd (f_close fil))
          | Some json \<Rightarrow> do {
              cfg \<leftarrow> load_config json cfg;
              Some (FR_OK, cfg, snd (f_close fil))
            })
       }
     }
   }"

text \<open>The text of an entry and of the file.\<close>

definition member_text :: "string \<Rightarrow> string \<Rightarrow> string" where
  "member_text name v = CHR 0x09 # CHR 0x22 # name @ CHR 0x22 # CHR '':'' # CHR 0x09 # v"

definition entry_text :: "string \<Rightarrow> ConfigFile \<Rightarrow> string" where
  "entry_text name c = CHR 0x7B # LF # member_text ''name'' (CHR 0x22 # name @ [CHR 0x22]) @ CHR '','' # LF
     # member_text ''parameter'' (dec_int (sint (parameter c))) @ CHR '','' # LF
     # member_text ''number'' (dec_int (sint (cfg_number c))) @ [LF, CHR 0x7D]"

fun entries_text :: "(string \<times> ConfigFile) list \<Rightarrow> string" where
  "entries_text [] = []"
| "entries_text [(name, c)] = entry_text name c @ [LF]"
| "entries_text ((name, c) # cs) = entry_text name c @ CHR '','' # LF # entries_text cs"

definition config_text :: "(string \<times> ConfigFile) list \<Rightarrow> string" where
  "config_text cs = CHR 0x7B # CHR 0x22 # ''ConfigFile'' @ CHR 0x22 # '':[  '' @ LF # entries_text cs
     @ [CHR 0x5D, LF, CHR 0x7D, LF]"

text \<open>The parsed entry.\<close>

definition entry_json :: "string \<Rightarrow> ConfigFile \<Rightarrow> cJSON" where
  "entry_json name c = JItem cJSON_Object
     [JItem cJSON_String [] (Some name) 0 (Fin 0 0) (Some ''name''),
      JItem cJSON_Number [] None (sint (parameter c)) (Fin (sint (parameter c)) 0) (Some ''parameter''),
      JItem cJSON_Number [] None (sint (cfg_number c)) (Fin (sint (cfg_number c)) 0) (Some ''number'')]
     None 0 (Fin 0 0) None"

text \<open>The names of the table as the program starts.\<close>

definition names_ok :: "ConfigFile list \<Rightarrow> bool" where
  "names_ok cfg \<longleftrightarrow> map cfg_name cfg = map cfg_name g_ConfigFile"

definition nameless :: "ConfigFile \<Rightarrow> ConfigFile" where
  "nameless c = c\<lparr>cfg_name := None\<rparr>"

text \<open>The names and entries of the table, in the order of the file.\<close>

definition named :: "ConfigFile list \<Rightarrow> (string \<times> ConfigFile) list" where
  "named cfg = map (\<lambda>c. (the (cfg_name c), c)) cfg"

text \<open>What the loop has written after \<open>i\<close> rounds.\<close>

definition entries_upto :: "ConfigFile list \<Rightarrow> nat \<Rightarrow> string" where
  "entries_upto cfg i = concat (map (\<lambda>j. entry_text (the (cfg_name (cfg ! j))) (cfg ! j)
     @ (if j < length cfg - 1 then [CHR '','', LF] else [LF])) [0..<i])"

section \<open>Writing\<close>

lemma sint_s32: "is_s32 (sint (v :: u32))"
  using sint_range_size [of v] by (simp add: is_s32_def size_word_def)

lemma clean_words: "clean ''name''" "clean ''parameter''" "clean ''number''" "clean ''ConfigFile''"
  by (simp_all add: clean_def needs_escape_def)

lemma StructToJson_print:
  assumes "cfg_name c = Some name" "clean name"
  shows "\<exists>j. ConfigFile_StructToJson t c = Some j \<and> cJSON_Print t fm j = Some (entry_text name c)"
proof -
  have n: "print_number fm (JItem cJSON_Number [] None (sint v) (f_of_int (sint v)) st) = dec_int (sint v)" for v :: u32 and st
    by (rule print_number_int [OF sint_s32])
  have u3: "[0..<3] = [0, 1, 2 :: nat]" by (simp add: upt_rec)
  show ?thesis
    using assms
    by (simp add: ConfigFile_StructToJson_def cJSON_CreateString_def cJSON_CreateObject_def plain_item_def
        cJSON_AddItemToObject_def cJSON_CreateNumber_def cJSON_Print_def print_string_clean clean_words n
        object_text_def u3 entry_text_def member_text_def numeral_eq_Suc)
qed

lemma entries_text_snoc:
  "entries_text (cs @ [(name, c)]) =
    concat (map (\<lambda>(n, c). entry_text n c @ [CHR '','', LF]) cs) @ entry_text name c @ [LF]"
proof (induction cs)
  case (Cons x cs)
  obtain n b where x: "x = (n, b)" by (cases x)
  obtain y ys where "cs @ [(name, c)] = y # ys" by (cases "cs @ [(name, c)]") auto
  then show ?case using Cons by (auto simp: x)
qed simp

lemma entries_upto_all:
  assumes "cfg \<noteq> []"
  shows "entries_upto cfg (length cfg) = entries_text (named cfg)"
proof -
  obtain cs c where cfg: "cfg = cs @ [c]" using assms by (cases cfg rule: rev_cases) auto
  have "map (\<lambda>j. entry_text (the (cfg_name (cfg ! j))) (cfg ! j) @ [CHR '','', LF]) [0..<length cs]
      = map (\<lambda>c. entry_text (the (cfg_name c)) c @ [CHR '','', LF]) cs"
    by (rule nth_equalityI) (auto simp: cfg nth_append)
  moreover have "map (\<lambda>j. entry_text (the (cfg_name (cfg ! j))) (cfg ! j)
      @ (if j < length cfg - 1 then [CHR '','', LF] else [LF])) [0..<length cs]
      = map (\<lambda>j. entry_text (the (cfg_name (cfg ! j))) (cfg ! j) @ [CHR '','', LF]) [0..<length cs]"
    by (auto simp: cfg)
  ultimately show ?thesis
    by (simp add: entries_upto_def cfg named_def entries_text_snoc comp_def)
qed

lemma write_entry_spec:
  assumes "at_end path (tx @ entries_upto cfg i) fil d" "i < length cfg" "\<And>c. c \<in> set cfg \<Longrightarrow> \<exists>n. cfg_name c = Some n \<and> clean n"
  shows "\<exists>fil' d'. write_entry t fm cfg i (fil, d) = Some (fil', d')
    \<and> at_end path (tx @ entries_upto cfg (Suc i)) fil' d' \<and> (\<forall>p. p \<noteq> path \<longrightarrow> files d' p = files d p)"
proof -
  let ?sep = "if i < length cfg - 1 then [CHR '','', LF] else [LF]"
  obtain n where n: "cfg_name (cfg ! i) = Some n" "clean n" using assms(2,3) nth_mem by blast
  from StructToJson_print [OF this, of t fm] obtain j where
    j: "ConfigFile_StructToJson t (cfg ! i) = Some j" "cJSON_Print t fm j = Some (entry_text n (cfg ! i))" by blast
  obtain fil1 d1 where 1: "f_write (entry_text n (cfg ! i)) fil d = (FR_OK, length (entry_text n (cfg ! i)), fil1, d1)"
    "at_end path ((tx @ entries_upto cfg i) @ entry_text n (cfg ! i)) fil1 d1" "\<And>p. p \<noteq> path \<Longrightarrow> files d1 p = files d p"
    using f_write_at_end [OF assms(1)] by blast
  obtain fil2 d2 where 2: "f_write ?sep fil1 d1 = (FR_OK, length ?sep, fil2, d2)"
    "at_end path (((tx @ entries_upto cfg i) @ entry_text n (cfg ! i)) @ ?sep) fil2 d2"
    "\<And>p. p \<noteq> path \<Longrightarrow> files d2 p = files d1 p"
    using f_write_at_end [OF 1(2)] by blast
  have "((tx @ entries_upto cfg i) @ entry_text n (cfg ! i)) @ ?sep = tx @ entries_upto cfg (Suc i)"
    by (simp add: entries_upto_def n)
  with 2 have "at_end path (tx @ entries_upto cfg (Suc i)) fil2 d2" by simp
  then show ?thesis
    using assms(2) j 1 2 by (auto simp: write_entry_def)
qed

lemma names_clean:
  assumes "names_ok cfg" "c \<in> set cfg"
  shows "\<exists>n. cfg_name c = Some n \<and> clean n"
proof -
  have "cfg_name c \<in> set (map cfg_name g_ConfigFile)" using assms by (metis names_ok_def image_eqI set_map)
  then show ?thesis by (auto simp: g_ConfigFile_def clean_def needs_escape_def)
qed

lemma Create_JsonFile_spec:
  assumes "names_ok cfg" "mounted d"
  shows "\<exists>fil' d'. Create_JsonFile t fm cfg fil d = Some (FR_OK, fil', d') \<and> mounted d'
    \<and> files d' json_path = Some (config_text (named cfg)) \<and> (\<forall>p. p \<noteq> json_path \<longrightarrow> files d' p = files d p)"
proof -
  let ?h = "CHR 0x7B # CHR 0x22 # ''ConfigFile'' @ CHR 0x22 # '':[  '' @ [LF]"
  have len: "length cfg = 3" using assms(1) map_eq_imp_length_eq by (fastforce simp: names_ok_def g_ConfigFile_def)
  note names = names_clean [OF assms(1)]
  let ?fil = "\<lparr>fil_path = Some json_path, objsize = 0, fptr = 0\<rparr>" and ?d = "d\<lparr>files := (files d)(json_path \<mapsto> [])\<rparr>"
  have o: "f_open_create json_path fil d = (FR_OK, ?fil, ?d)" using assms(2) by (simp add: f_open_create_def)
  have "at_end json_path [] ?fil ?d" using assms(2) by (simp add: at_end_def)
  from f_write_at_end [OF this, of ?h] obtain fil0 d0 where
    0: "f_write ?h ?fil ?d = (FR_OK, length ?h, fil0, d0)" "at_end json_path ([] @ ?h) fil0 d0"
      "\<And>p. p \<noteq> json_path \<Longrightarrow> files d0 p = files d p" by auto
  let ?I = "\<lambda>i (fil, e). at_end json_path (?h @ entries_upto cfg i) fil e \<and> (\<forall>p. p \<noteq> json_path \<longrightarrow> files e p = files d p)"
  have I0: "?I 0 (fil0, d0)" using 0 by (simp add: entries_upto_def)
  have step: "\<exists>u. write_entry t fm cfg i s = Some u \<and> ?I (Suc i) u" if "i < 3" "?I i s" for i s
    using write_entry_spec [of json_path ?h cfg i "fst s" "snd s" t fm] that names len
    by (cases s) fastforce
  from foldM_upt_inv [where I = ?I and f = "write_entry t fm cfg", OF _ I0, of 3] step obtain fil1 d1 where
    1: "foldM (write_entry t fm cfg) [0..<3] (fil0, d0) = Some (fil1, d1)"
      "at_end json_path (?h @ entries_upto cfg 3) fil1 d1" "\<And>p. p \<noteq> json_path \<Longrightarrow> files d1 p = files d p"
    by auto
  obtain fil2 d2 where 2: "f_write [CHR 0x5D, LF] fil1 d1 = (FR_OK, 2, fil2, d2)"
    "at_end json_path ((?h @ entries_upto cfg 3) @ [CHR 0x5D, LF]) fil2 d2" "\<And>p. p \<noteq> json_path \<Longrightarrow> files d2 p = files d1 p"
    using f_write_at_end [OF 1(2), of "[CHR 0x5D, LF]"] by auto
  obtain fil3 d3 where 3: "f_write [CHR 0x7D, LF] fil2 d2 = (FR_OK, 2, fil3, d3)"
    "at_end json_path (((?h @ entries_upto cfg 3) @ [CHR 0x5D, LF]) @ [CHR 0x7D, LF]) fil3 d3"
    "\<And>p. p \<noteq> json_path \<Longrightarrow> files d3 p = files d2 p"
    using f_write_at_end [OF 2(2), of "[CHR 0x7D, LF]"] by auto
  have "entries_upto cfg 3 = entries_text (named cfg)" using entries_upto_all [of cfg] len by (cases cfg) auto
  then have "files d3 json_path = Some (config_text (named cfg))" "mounted d3"
    using 3(2) by (simp_all add: at_end_def config_text_def)
  moreover have "unat (GetConfigFileLength cfg) = 3" by (simp add: GetConfigFileLength_def len)
  ultimately show ?thesis
    using o 0 1 2 3 by (simp add: Create_JsonFile_def) (auto split: prod.split)
qed

section \<open>Reading\<close>

text \<open>The parser on a piece of printed text: one line per piece of syntax.\<close>

lemma skip_blank: "c \<noteq> NUL \<Longrightarrow> code c \<le> 32 \<Longrightarrow> skip (c # s) = skip s"
  by simp

lemma skip_stop: "32 < code c \<Longrightarrow> skip (c # s) = Some (c # s)"
  by simp

lemma parse_word_not:
  assumes "c \<noteq> CHR ''n''" "c \<noteq> CHR ''f''" "c \<noteq> CHR ''t''"
  shows "parse_word (c # s) = Some None"
  using assms by (simp add: parse_word_def)

lemma parse_value_number:
  assumes "is_s32 i" "ends_number c" "pw 0 = Fin 1 0"
  shows "parse_value pw (Suc n) (dec_int i @ c # r) = Some (Some (JItem cJSON_Number [] None i (Fin i 0) None, c # r))"
proof -
  obtain x s where x: "dec_int i = x # s" "x = CHR ''-'' \<or> is_digit x"
    using dec_head [of "nat i"] by (cases "i < 0") (auto simp: dec_int_def)
  then have "x \<noteq> CHR ''n''" "x \<noteq> CHR ''f''" "x \<noteq> CHR ''t''" "x \<noteq> CHR 0x22" by (auto simp: is_digit_def)
  then show ?thesis
    using parse_number_dec_int [of i c pw r] assms x by (simp add: parse_word_not)
qed

lemma parse_value_string:
  assumes "clean s"
  shows "parse_value pw (Suc n) (CHR 0x22 # s @ CHR 0x22 # r) =
    Some (Some (JItem cJSON_String [] (Some s) 0 (Fin 0 0) None, r))"
  using parse_string_clean [OF assms, of r] by (simp add: parse_word_not)

lemma parse_member_text:
  assumes "clean name" "pv (x # v) = Some (Some (item, r))" "32 < code x"
  shows "parse_member pv (CHR 0x22 # name @ CHR 0x22 # CHR '':'' # CHR 0x09 # x # v) = Some (Some (set_string name item, r))"
    "parse_member pv (LF # member_text name (x # v)) = Some (Some (set_string name item, r))"
  using assms parse_string_clean [OF assms(1), of "CHR '':'' # CHR 0x09 # x # v"]
  by (simp_all add: parse_member_def member_text_def)

lemma dec_int_Cons: "\<exists>x s. dec_int i = x # s \<and> 32 < code x"
  using dec_head [of "nat i"] dec_head [of "nat (- i)"] by (auto simp: dec_int_def is_digit_def)

lemma parse_entry:
  assumes "clean name" "pw 0 = Fin 1 0" "5 \<le> n"
  shows "parse_value pw n (entry_text name c @ r) = Some (Some (entry_json name c, r))"
proof -
  obtain k where "n = 5 + k" using assms(3) le_Suc_ex by blast
  then obtain m where n: "n = Suc (Suc (Suc (Suc (Suc m))))" by simp
  let ?pv = "parse_value pw (Suc (Suc (Suc (Suc m))))"
  define t3 where "t3 = member_text ''number'' (dec_int (sint (cfg_number c))) @ LF # CHR 0x7D # r"
  define t2 where "t2 = member_text ''parameter'' (dec_int (sint (parameter c))) @ CHR '','' # LF # t3"
  obtain x2 s2 where x2: "dec_int (sint (parameter c)) = x2 # s2" "32 < code x2" using dec_int_Cons by blast
  obtain x3 s3 where x3: "dec_int (sint (cfg_number c)) = x3 # s3" "32 < code x3" using dec_int_Cons by blast
  have num: "?pv (dec_int (sint v) @ e # r') = Some (Some (JItem cJSON_Number [] None (sint v) (Fin (sint v) 0) None, e # r'))"
    if "ends_number e" for v :: u32 and e r'
    by (rule parse_value_number) (simp_all only: sint_s32 that assms(2))
  have e: "ends_number (CHR '','')" "ends_number LF" by (simp_all add: ends_number_def is_digit_def)
  have m3: "parse_member ?pv (LF # t3) = Some (Some (JItem cJSON_Number [] None (sint (cfg_number c)) (Fin (sint (cfg_number c)) 0) (Some ''number''), LF # CHR 0x7D # r))"
    using parse_member_text(2) [OF clean_words(3), of ?pv x3 "s3 @ LF # CHR 0x7D # r"] num [OF e(2), of "cfg_number c"] x3
    by (simp add: t3_def member_text_def)
  have m2: "parse_member ?pv (LF # t2) = Some (Some (JItem cJSON_Number [] None (sint (parameter c)) (Fin (sint (parameter c)) 0) (Some ''parameter''), CHR '','' # LF # t3))"
    using parse_member_text(2) [OF clean_words(2), of ?pv x2 "s2 @ CHR '','' # LF # t3"] num [OF e(1), of "parameter c"] x2
    by (simp add: t2_def member_text_def)
  have m1: "parse_member ?pv (CHR 0x22 # ''name'' @ CHR 0x22 # CHR '':'' # CHR 0x09 # CHR 0x22 # name @ CHR 0x22 # CHR '','' # LF # t2) =
      Some (Some (JItem cJSON_String [] (Some name) 0 (Fin 0 0) (Some ''name''), CHR '','' # LF # t2))"
    using parse_member_text(1) [OF clean_words(1), of ?pv "CHR 0x22" "name @ CHR 0x22 # CHR '','' # LF # t2"]
      parse_value_string [OF assms(1), of pw "Suc (Suc (Suc m))"] by simp
  have tx: "entry_text name c @ r = CHR 0x7B # LF # CHR 0x09 # CHR 0x22 # ''name'' @ CHR 0x22 # CHR '':'' # CHR 0x09
      # CHR 0x22 # name @ CHR 0x22 # CHR '','' # LF # t2"
    by (simp add: entry_text_def t2_def t3_def member_text_def)
  show ?thesis
    using m1 unfolding tx n
    by (simp add: parse_word_not parse_object_def m2 m3 entry_json_def is_digit_def del: parse_value.simps(2) add: parse_value.simps(2) [of pw "Suc (Suc (Suc (Suc m)))"])
qed

lemma parse_elems_LF: "parse_elems pv n (LF # s) = parse_elems pv n s"
  by (cases n) simp_all

lemma entries_text_Cons: "cs \<noteq> [] \<Longrightarrow> \<exists>s. entries_text cs = CHR 0x7B # s"
  by (cases cs rule: entries_text.cases) (auto simp: entry_text_def)

lemma skip_entry: "skip (entry_text name c @ r) = Some (entry_text name c @ r)"
  by (simp add: entry_text_def)

lemma parse_elems_text:
  assumes "cs \<noteq> []" "\<And>nm c. (nm, c) \<in> set cs \<Longrightarrow> clean nm" "pw 0 = Fin 1 0" "5 \<le> m" "length cs \<le> n"
  shows "parse_elems (parse_value pw m) n (entries_text cs @ CHR 0x5D # r) =
    Some (Some (map (\<lambda>(nm, c). entry_json nm c) cs, r))"
  using assms(1,2,5)
proof (induction cs arbitrary: n rule: entries_text.induct)
  case (2 nm c)
  then obtain n' where "n = Suc n'" by (cases n) auto
  moreover have "clean nm" using 2(2) by simp
  ultimately show ?case
    using assms(3,4) parse_entry [of nm pw m c "LF # CHR 0x5D # r"]
    by (simp add: skip_entry)
next
  case (3 nm c v va)
  then obtain n' where n: "n = Suc n'" by (cases n) auto
  have "clean nm" using 3(3) [of nm c] by simp
  moreover have "parse_elems (parse_value pw m) n' (entries_text (v # va) @ CHR 0x5D # r) =
      Some (Some (map (\<lambda>(nm, c). entry_json nm c) (v # va), r))"
    using 3 n by auto
  ultimately show ?case
    using assms(3,4) parse_entry [of nm pw m c "CHR '','' # LF # entries_text (v # va) @ CHR 0x5D # r"]
    by (simp add: n skip_entry parse_elems_LF)
qed simp

lemma length_entries: "length cs \<le> length (entries_text cs)"
  by (induction cs rule: entries_text.induct) auto

lemma parse_config_text:
  assumes "cs \<noteq> []" "\<And>nm c. (nm, c) \<in> set cs \<Longrightarrow> clean nm" "pw 0 = Fin 1 0"
  shows "cJSON_Parse pw (config_text cs) = Some (Some (JItem cJSON_Object
    [JItem cJSON_Array (map (\<lambda>(nm, c). entry_json nm c) cs) None 0 (Fin 0 0) (Some ''ConfigFile'')] None 0 (Fin 0 0) None))"
proof -
  let ?e = "entries_text cs @ CHR 0x5D # LF # CHR 0x7D # [LF]"
  obtain m where m: "length (config_text cs) + 1 = Suc (Suc m)" "5 \<le> m" "length cs \<le> m"
    using length_entries [of cs] by (simp add: config_text_def)
  obtain s where s: "entries_text cs = CHR 0x7B # s" using entries_text_Cons [OF assms(1)] by blast
  have el: "parse_elems (parse_value pw m) m ?e = Some (Some (map (\<lambda>(nm, c). entry_json nm c) cs, LF # CHR 0x7D # [LF]))"
    using parse_elems_text [of cs pw m m] assms m by blast
  have "parse_array (parse_value pw m) m (CHR 0x5B # CHR '' '' # CHR '' '' # LF # ?e) =
      Some (Some (JItem cJSON_Array (map (\<lambda>(nm, c). entry_json nm c) cs) None 0 (Fin 0 0) None, LF # CHR 0x7D # [LF]))"
    using el by (simp add: parse_array_def s)
  then have "parse_value pw (Suc m) (CHR 0x5B # CHR '' '' # CHR '' '' # LF # ?e) =
      Some (Some (JItem cJSON_Array (map (\<lambda>(nm, c). entry_json nm c) cs) None 0 (Fin 0 0) None, LF # CHR 0x7D # [LF]))"
    by (simp add: parse_word_not is_digit_def)
  moreover have "parse_string (CHR 0x22 # ''ConfigFile'' @ CHR 0x22 # CHR '':'' # CHR 0x5B # CHR '' '' # CHR '' '' # LF # ?e)
      = Some (Some (''ConfigFile'', CHR '':'' # CHR 0x5B # CHR '' '' # CHR '' '' # LF # ?e))"
    by (rule parse_string_clean [OF clean_words(4)])
  ultimately have mem: "parse_member (parse_value pw (Suc m))
      (CHR 0x22 # ''ConfigFile'' @ CHR 0x22 # CHR '':'' # CHR 0x5B # CHR '' '' # CHR '' '' # LF # ?e) =
      Some (Some (JItem cJSON_Array (map (\<lambda>(nm, c). entry_json nm c) cs) None 0 (Fin 0 0) (Some ''ConfigFile''), LF # CHR 0x7D # [LF]))"
    by (simp add: parse_member_def del: parse_value.simps)
  have "parse_object (parse_value pw (Suc m)) (Suc m) (config_text cs) = Some (Some (JItem cJSON_Object
      [JItem cJSON_Array (map (\<lambda>(nm, c). entry_json nm c) cs) None 0 (Fin 0 0) (Some ''ConfigFile'')] None 0 (Fin 0 0) None, [LF]))"
    using mem by (simp add: parse_object_def config_text_def del: parse_value.simps)
  then have "parse_value pw (Suc (Suc m)) (config_text cs) = Some (Some (JItem cJSON_Object
      [JItem cJSON_Array (map (\<lambda>(nm, c). entry_json nm c) cs) None 0 (Fin 0 0) (Some ''ConfigFile'')] None 0 (Fin 0 0) None, [LF]))"
    by (subst parse_value.simps) (simp add: parse_word_not config_text_def is_digit_def del: parse_value.simps)
  moreover have "skip (config_text cs) = Some (config_text cs)" by (simp add: config_text_def)
  ultimately show ?thesis by (simp only: cJSON_Parse_def m(1) bind.simps option.map fst_conv)
qed

lemma JsonToStruct_entry: "ConfigFile_JsonToStruct (entry_json name c) = nameless c"
  by (simp add: ConfigFile_JsonToStruct_def entry_json_def cJSON_GetObjectItem_def cJSON_strcasecmp_def tolower_def
      nameless_def)

lemma load_config_entries:
  assumes "length cs = 3" "length old = 3"
  shows "load_config (JItem cJSON_Object
    [JItem cJSON_Array (map (\<lambda>(nm, c). entry_json nm c) cs) None 0 (Fin 0 0) st] None 0 (Fin 0 0) None) old
    = Some (map (\<lambda>(nm, c). nameless c) cs)"
proof -
  obtain x y z where cs: "cs = [x, y, z]" using assms(1) by (auto simp: numeral_3_eq_3 length_Suc_conv)
  obtain a b c where old: "old = [a, b, c]" using assms(2) by (auto simp: numeral_3_eq_3 length_Suc_conv)
  have u: "[0..<Suc 0] = [0]" "[0..<Suc (Suc (Suc 0))] = [0, 1, 2]" by (simp_all add: upt_rec)
  have j: "jtype (entry_json nm e) = cJSON_Object" for nm e by (simp add: entry_json_def)
  show ?thesis
    by (simp add: load_config_def load_entries_def cJSON_GetArraySize_def cJSON_GetArrayItem_def u cs old j
        JsonToStruct_entry split: prod.split)
qed

lemma config_text_length:
  assumes "names_ok cfg"
  shows "length (config_text (named cfg)) < 65536"
proof -
  have d: "length (dec_int (sint v)) \<le> 11" for v :: u32
  proof -
    have "nat (sint v) < 10 ^ 10" "nat (- sint v) < 10 ^ 10" using sint_s32 [of v] by (auto simp: is_s32_def)
    from dec_length(2) [OF this(1)] dec_length(2) [OF this(2)] show ?thesis by (simp add: dec_int_def)
  qed
  have e: "length (entry_text nm c) \<le> length nm + 80" for nm c
    using d [of "parameter c"] d [of "cfg_number c"] by (simp add: entry_text_def member_text_def)
  have "length cfg = 3" using assms map_eq_imp_length_eq by (fastforce simp: names_ok_def g_ConfigFile_def)
  then obtain x y z where cfg: "cfg = [x, y, z]" by (auto simp: numeral_3_eq_3 length_Suc_conv)
  then have n: "cfg_name x = Some ''Modbus_Baudrate''" "cfg_name y = Some ''Modbus_SlaveAddress''"
    "cfg_name z = Some ''NodeOvertimeTime''"
    using assms by (simp_all add: names_ok_def g_ConfigFile_def)
  show ?thesis
    using e [of "''Modbus_Baudrate''" x] e [of "''Modbus_SlaveAddress''" y] e [of "''NodeOvertimeTime''" z]
    by (simp add: config_text_def named_def cfg n)
qed

lemma Get_JsonFile_spec:
  assumes "names_ok cfg" "mounted d" "files d json_path = Some (config_text (named cfg))" "heap_ok t" "null_store t"
    "pw 0 = Fin 1 0" "length old = 3"
  shows "\<exists>fil'. Get_JsonFile t pw old fil d = Some (FR_OK, map nameless cfg, fil')"
proof -
  let ?tx = "config_text (named cfg)"
  have u: "unat (of_nat (length ?tx) :: u16) = length ?tx" using config_text_length [OF assms(1)] by (simp add: unat_of_nat)
  have "0 < length ?tx" by (simp add: config_text_def)
  then obtain b where b: "heap t (length ?tx) = Some b" "length b = length ?tx"
    using assms(4) unfolding heap_ok_def by blast
  have len: "length (named cfg) = 3" "named cfg \<noteq> []"
    using assms(1) map_eq_imp_length_eq by (fastforce simp: names_ok_def g_ConfigFile_def named_def)+
  have "clean nm" if "(nm, e) \<in> set (named cfg)" for nm e
    using names_clean [OF assms(1)] that by (fastforce simp: named_def)
  then have p: "cJSON_Parse pw ?tx = Some (Some (JItem cJSON_Object
      [JItem cJSON_Array (map (\<lambda>(nm, c). entry_json nm c) (named cfg)) None 0 (Fin 0 0) (Some ''ConfigFile'')] None 0 (Fin 0 0) None))"
    using parse_config_text len(2) assms(6) by blast
  have "map (\<lambda>(nm, c). nameless c) (named cfg) = map nameless cfg" by (simp add: named_def)
  then show ?thesis
    using assms(2,3) u b p load_config_entries [OF len(1) assms(7)] assms(5)
    by (simp add: Get_JsonFile_def f_open_read_def f_read_def contents_def parse_buffer_def)
qed

section \<open>Properties\<close>

text \<open>
  The configuration survives a restart. The file that \<open>Create_JsonFile\<close> writes for a table with its
  original names is read back by \<open>Get_JsonFile\<close>, on a target that survives a store through a null
  pointer, into any table of three entries: every parameter and number is restored, and every name is
  lost.
\<close>

lemma json_config_round_trip:
  assumes "names_ok cfg" "mounted d" "heap_ok t" "null_store t" "pw 0 = Fin 1 0" "length old = 3"
  shows "\<exists>fil' d' fil''. Create_JsonFile t fm cfg fil d = Some (FR_OK, fil', d')
    \<and> Get_JsonFile t pw old fil0 d' = Some (FR_OK, map nameless cfg, fil'')"
proof -
  obtain fil' d' where c: "Create_JsonFile t fm cfg fil d = Some (FR_OK, fil', d')" "mounted d'"
    "files d' json_path = Some (config_text (named cfg))"
    using Create_JsonFile_spec [OF assms(1,2)] by blast
  with Get_JsonFile_spec [of cfg d' t pw old fil0] assms show ?thesis by blast
qed



end
