(* ===== verification/DeviceIdCsv.thy ===== *)
theory DeviceIdCsv
  imports RegMap FatFile Decimal
begin

text \<open>
  The second half of Task/CommunicationConfig.c: the device codes of the 256 nodes are kept in the
  file \<open>/DeviceId.csv\<close>, one line \<open>number,code,\<close> per node. \<open>StrToInt\<close> and \<open>IntToStr\<close> are the program's own
  decimal conversions. Lines are taken apart with the C library's \<open>strtok\<close>, of which only the token and
  the rest of the line matter here: the next \<open>f_gets\<close> overwrites the line buffer.
\<close>

section \<open>Definitions\<close>

text \<open>\<open>StrToInt\<close> scans a terminated string; a null pointer or a missing terminator is not survived.\<close>

fun StrToInt_loop :: "string \<Rightarrow> u32 \<Rightarrow> u32 option" where
  "StrToInt_loop [] m = None"
| "StrToInt_loop (c # str) m =
     (if c = NUL then Some m
      else if of_char c < (48 :: nat) \<or> of_char c > (57 :: nat) then Some 0
      else StrToInt_loop str (m * 10 + (of_char c - 48)))"

definition StrToInt :: "string option \<Rightarrow> u32 option" where
  "StrToInt str = do { s \<leftarrow> str; StrToInt_loop s 0 }"

text \<open>The local variables of \<open>IntToStr\<close> and one round of its loop.\<close>

record its =
  p_str :: string
  its_pos :: nat
  its_status :: u32
  intnum :: u32
  divider :: u32

definition IntToStr_step :: "nat \<Rightarrow> its \<Rightarrow> its option" where
  "IntToStr_step i s = do {
     let c = char_of (unat (intnum s div divider s) + 48);
     str \<leftarrow> wr (p_str s) (its_pos s) c;
     let s = s\<lparr>p_str := str, its_pos := its_pos s + 1, intnum := intnum s mod divider s,
               divider := divider s div 10\<rparr>;
     Some (if c = CHR ''0'' \<and> its_status s = 0 then s\<lparr>its_pos := 0\<rparr>
           else s\<lparr>its_status := its_status s + 1\<rparr>)
   }"

definition IntToStr :: "string \<Rightarrow> u32 \<Rightarrow> string option" where
  "IntToStr str n = do {
     s \<leftarrow> foldM IntToStr_step [0..<10]
            \<lparr>p_str = str, its_pos = 0, its_status = 0, intnum = n, divider = 1000000000\<rparr>;
     Some (p_str s)
   }"

text \<open>\<open>memset(str, 0, strlen(str))\<close>.\<close>

definition clear_str :: "string \<Rightarrow> string option" where
  "clear_str buf = do { s \<leftarrow> c_str buf; Some (replicate (length s) NUL @ drop (length s) buf) }"

text \<open>One field of a line: a number in decimal and a comma.\<close>

definition put_field :: "u32 \<Rightarrow> string \<times> FIL \<times> disk \<Rightarrow> (string \<times> FIL \<times> disk) option" where
  "put_field n = (\<lambda>(str, fil, d). do {
     str \<leftarrow> IntToStr str n;
     s \<leftarrow> c_str str;
     let (_, fil, d) = f_puts s fil d;
     str \<leftarrow> clear_str str;
     let (_, fil, d) = f_putc (CHR '','') fil d;
     Some (str, fil, d)
   })"

definition save_line :: "regs \<Rightarrow> nat \<Rightarrow> string \<times> FIL \<times> disk \<Rightarrow> (string \<times> FIL \<times> disk) option" where
  "save_line rs i s = do {
     s \<leftarrow> put_field (of_nat i) s;
     ident \<leftarrow> rd32 rs (NODE_DEVICE_ID_FIRST_ADDRESS + 2 * i);
     (str, fil, d) \<leftarrow> put_field ident s;
     let (_, fil, d) = f_putc LF fil d;
     Some (str, fil, d)
   }"

definition SaveDeviceIdFile :: "regs \<Rightarrow> FIL \<Rightarrow> disk \<Rightarrow> (u8 \<times> FIL \<times> disk) option" where
  "SaveDeviceIdFile rs fil d = do {
     let (res, fil, d) = f_open_create ''/DeviceId.csv'' fil d;
     (str, fil, d) \<leftarrow> foldM (save_line rs) [0..<256] (replicate 1024 NUL, fil, d);
     let (res, fil) = f_close fil;
     Some (res, fil, d)
   }"

text \<open>\<open>strtok\<close> with the delimiter \<open>","\<close>: the token, if there is one, and what is left to scan.\<close>

definition strtok :: "string \<Rightarrow> string option \<times> string" where
  "strtok s = (case dropWhile (\<lambda>c. c = CHR '','') s of
     [] \<Rightarrow> (None, [])
   | s \<Rightarrow> (Some (takeWhile (\<lambda>c. c \<noteq> CHR '','') s @ [NUL]), drop 1 (dropWhile (\<lambda>c. c \<noteq> CHR '','') s)))"

text \<open>
  The body of the loop over the lines. The inner loop runs once: its second round leaves it with
  \<open>j = 1\<close>.
\<close>

definition read_record :: "string \<Rightarrow> regs \<Rightarrow> regs option" where
  "read_record buf rs = do {
     string \<leftarrow> c_str buf;
     let (record, rest) = strtok string;
     v \<leftarrow> StrToInt record;
     let num = (ucast v :: u8);
     let (record, rest) = strtok rest;
     temp \<leftarrow> StrToInt record;
     rs \<leftarrow> wr rs (NODE_DEVICE_ID_FIRST_ADDRESS + 2 * unat num) (lo16 temp);
     wr rs (NODE_DEVICE_ID_FIRST_ADDRESS + 1 + 2 * unat num) (hi16 temp)
   }"

partial_function (option) read_loop ::
  "target \<Rightarrow> disk \<Rightarrow> nat \<Rightarrow> string option \<Rightarrow> FIL \<Rightarrow> regs \<Rightarrow> (FIL \<times> regs) option" where
  "read_loop t d fileSize string fil rs = do {
     (string, fil) \<leftarrow> f_gets t string fileSize fil d;
     (case string of
        None \<Rightarrow> Some (fil, rs)
      | Some buf \<Rightarrow> do {
          rs \<leftarrow> read_record buf rs;
          read_loop t d fileSize string fil rs
        })
   }"

definition ReadDeviceIdFile :: "target \<Rightarrow> regs \<Rightarrow> FIL \<Rightarrow> disk \<Rightarrow> (u8 \<times> FIL \<times> regs) option" where
  "ReadDeviceIdFile t rs fil d = do {
     let (res, fil) = f_open_read ''/DeviceId.csv'' fil d;
     let fileSize = (of_nat (objsize fil) :: u16);
     let string = heap t (unat fileSize);
     (fil, rs) \<leftarrow> read_loop t d (unat fileSize) string fil rs;
     let (_, fil) = f_close fil;
     Some (res, fil, rs)
   }"

text \<open>A line of the file, and the first \<open>k\<close> lines.\<close>

definition csv_line :: "nat \<Rightarrow> nat \<Rightarrow> string" where
  "csv_line i v = dec i @ [CHR '',''] @ dec v @ [CHR '','']"

definition csv :: "regs \<Rightarrow> nat \<Rightarrow> string" where
  "csv rs k = concat (map (\<lambda>i. csv_line i (unat (the (rd32 rs (NODE_DEVICE_ID_FIRST_ADDRESS + 2 * i)))) @ [LF]) [0..<k])"

text \<open>The device codes of two tables agree, and the rest of the second is that of a third.\<close>

definition codes_copied :: "nat \<Rightarrow> regs \<Rightarrow> regs \<Rightarrow> regs \<Rightarrow> bool" where
  "codes_copied k from old new \<longleftrightarrow> length new = length old
     \<and> (\<forall>i < k. \<forall>a \<in> id_addrs i. new ! a = from ! a)
     \<and> (\<forall>a. (\<forall>i < k. a \<notin> id_addrs i) \<longrightarrow> new ! a = old ! a)"

text \<open>
  The state of \<open>IntToStr\<close> after \<open>i\<close> rounds over a cleared buffer of \<open>l\<close> characters: the \<open>i\<close> leading
  digits of \<open>v\<close> are in the buffer without their leading zeros.
\<close>

definition its_inv :: "nat \<Rightarrow> nat \<Rightarrow> nat \<Rightarrow> its \<Rightarrow> bool" where
  "its_inv l v i s \<longleftrightarrow> (let m = v div 10 ^ (10 - i) in
     (i < 10 \<longrightarrow> unat (divider s) = 10 ^ (9 - i)) \<and> unat (intnum s) = v mod 10 ^ (10 - i)
     \<and> unat (its_status s) \<le> i
     \<and> (if m = 0 then its_pos s = 0 \<and> its_status s = 0
          \<and> (\<exists>c. (i \<noteq> 0 \<longrightarrow> c = CHR ''0'') \<and> p_str s = c # replicate (l - 1) NUL)
        else its_pos s = length (dec m) \<and> its_status s \<noteq> 0
          \<and> p_str s = dec m @ replicate (l - length (dec m)) NUL))"

section \<open>Scanning a number\<close>

lemma StrToInt_loop_dec: "StrToInt_loop (dec n @ r) 0 = StrToInt_loop r (of_nat n)"
proof (induction n arbitrary: r rule: dec.induct)
  case (1 n)
  have one: "StrToInt_loop (digit d # r) m = StrToInt_loop r (m * 10 + of_nat d)" if "d < 10" for d m
    using that of_char_digit [OF that] digit_not [of d NUL] by simp
  show ?case
  proof (cases "n < 10")
    case True
    then show ?thesis by (subst dec.simps) (simp only: append.simps one if_True, simp)
  next
    case False
    have "of_nat (n div 10) * 10 + of_nat (n mod 10) = (of_nat n :: u32)"
      by (metis div_mult_mod_eq of_nat_add of_nat_mult of_nat_numeral)
    then show ?thesis using False 1 [OF False] by (subst dec.simps) (simp add: one del: StrToInt_loop.simps)
  qed
qed

lemma StrToInt_dec: "StrToInt (Some (dec n @ [NUL])) = Some (of_nat n)"
  by (simp add: StrToInt_def StrToInt_loop_dec)

section \<open>Printing a number\<close>

lemma IntToStr_step_inv:
  assumes inv: "its_inv l v i s" and i: "i < 10" and v: "v < 2 ^ 32" and l: "10 < l"
  shows "\<exists>s'. IntToStr_step i s = Some s' \<and> its_inv l v (Suc i) s'"
proof -
  define q where "q = (10 :: nat) ^ (9 - i)"
  have q: "10 ^ (10 - i) = 10 * q" "0 < q" "10 - Suc i = 9 - i"
    using i by (simp_all add: q_def flip: power_Suc)
  define m where "m = v div (10 * q)"
  define d where "d = v div q mod 10"
  have d: "d < 10" by (simp add: d_def)
  have m': "v div q = 10 * m + d"
    by (simp add: m_def d_def div_mult2_eq mult.commute [of 10])
  have vm: "v mod (10 * q) = q * d + v mod q"
    using mod_mult2_eq [of v q 10] by (simp add: d_def mult.commute)
  have "unat (divider s) = q" "unat (intnum s) = v mod (10 * q)"
    using inv i q by (simp_all add: its_inv_def Let_def q_def [symmetric])
  then have num: "unat (intnum s div divider s) = d" "unat (intnum s mod divider s) = v mod q"
    using q(2) by (simp_all add: unat_div_distrib unat_mod_distrib vm)
  have c: "char_of (d + 48) = digit d" by (simp add: digit_def)
  have dv: "unat (divider s div 10) = 10 ^ (9 - Suc i)" if "Suc i < 10"
  proof -
    have "9 - i = Suc (9 - Suc i)" using that by simp
    then show ?thesis using inv i by (simp add: its_inv_def Let_def unat_div_distrib)
  qed
  have dec_m': "dec (10 * m + d) = (if m = 0 then [digit d] else dec m @ [digit d])"
    using d by (subst dec.simps) auto
  have st: "unat (its_status s + 1) = unat (its_status s) + 1" "unat (its_status s) \<le> i"
  proof -
    show "unat (its_status s) \<le> i" using inv by (simp add: its_inv_def Let_def)
    then show "unat (its_status s + 1) = unat (its_status s) + 1" using i by (simp add: unat_word_ariths)
  qed
  show ?thesis
  proof (cases "m = 0")
    case True
    then obtain c0 where p: "its_pos s = 0" "its_status s = 0" "p_str s = c0 # replicate (l - 1) NUL"
      using inv q by (auto simp: its_inv_def Let_def m_def)
    then show ?thesis
      using True d num c dv st m' dec_m' q l digit_zero [OF d]
      by (auto simp: IntToStr_step_def its_inv_def Let_def q_def [symmetric])
  next
    case False
    then have p: "its_pos s = length (dec m)" "its_status s \<noteq> 0"
      "p_str s = dec m @ replicate (l - length (dec m)) NUL"
      using inv q by (auto simp: its_inv_def Let_def m_def)
    have "m < 10 ^ 10" using v by (simp add: m_def div_less_dividend le_less_trans [OF div_le_dividend])
    then have ld: "length (dec m) < l" using dec_length(2) [of m 10] l by simp
    then obtain k where k: "l - length (dec m) = Suc k" "l - Suc (length (dec m)) = k"
      by (cases "l - length (dec m)") auto
    have "its_status s + 1 \<noteq> 0" using st by (metis Suc_eq_plus1 nat.simps(3) unat_0)
    then show ?thesis
      using False d num c dv st m' dec_m' q p k ld
      by (auto simp: IntToStr_step_def its_inv_def Let_def q_def [symmetric] list_update_append)
  qed
qed

lemma IntToStr_spec:
  assumes "10 < l"
  shows "IntToStr (replicate l NUL) v = Some (dec (unat v) @ replicate (l - length (dec (unat v))) NUL)"
proof -
  let ?s = "\<lparr>p_str = replicate l NUL, its_pos = 0, its_status = 0, intnum = v, divider = 1000000000\<rparr>"
  have v: "unat v < 2 ^ 32" using unat_u32_less [of v] by simp
  then have "unat v < 10 ^ 10" by simp
  then have z: "unat v div 10 ^ 10 = 0" "unat v mod 10 ^ 10 = unat v" by simp_all
  obtain l' where "l = Suc l'" using assms by (cases l) auto
  then have "its_inv l (unat v) 0 ?s" using z by (simp add: its_inv_def Let_def)
  from foldM_upt_inv [where I = "its_inv l (unat v)" and f = IntToStr_step, OF _ this, of 10]
  obtain s' where s': "foldM IntToStr_step [0..<10] ?s = Some s'" "its_inv l (unat v) 10 s'"
    using IntToStr_step_inv [OF _ _ v assms] by auto
  have "p_str s' = dec (unat v) @ replicate (l - length (dec (unat v))) NUL"
  proof (cases "unat v = 0")
    case True
    have "dec 0 = ''0''" by (simp add: dec.simps digit_zero)
    with True s'(2) show ?thesis by (auto simp: its_inv_def)
  qed (use s'(2) in \<open>simp add: its_inv_def Let_def\<close>)
  with s'(1) show ?thesis by (simp add: IntToStr_def)
qed

lemma c_str_padded: "NUL \<notin> set xs \<Longrightarrow> 0 < k \<Longrightarrow> c_str (xs @ replicate k NUL) = Some xs"
  by (cases k) (auto simp: c_str_def takeWhile_append2 takeWhile_tail)

section \<open>Writing the file\<close>

lemma put_field_spec:
  assumes "at_end path tx fil d"
  shows "\<exists>fil' d'. put_field n (replicate 1024 NUL, fil, d) = Some (replicate 1024 NUL, fil', d')
    \<and> at_end path (tx @ dec (unat n) @ [CHR '','']) fil' d' \<and> (\<forall>p. p \<noteq> path \<longrightarrow> files d' p = files d p)"
proof -
  let ?s = "dec (unat n)"
  have c: "c_str (?s @ replicate (1024 - length ?s) NUL) = Some ?s"
    using dec_u32_length [of n] dec_plain by (intro c_str_padded) auto
  have r: "replicate (length ?s) NUL @ replicate (1024 - length ?s) NUL = replicate 1024 NUL"
    using dec_u32_length [of n] by (simp flip: replicate_add)
  obtain r1 fil1 d1 where 1: "f_puts ?s fil d = (r1, fil1, d1)" "at_end path (tx @ ?s) fil1 d1"
    "\<And>p. p \<noteq> path \<Longrightarrow> files d1 p = files d p"
    using f_puts_at_end [OF assms] by blast
  obtain r2 fil2 d2 where 2: "f_puts '','' fil1 d1 = (r2, fil2, d2)" "at_end path ((tx @ ?s) @ '','') fil2 d2"
    "\<And>p. p \<noteq> path \<Longrightarrow> files d2 p = files d1 p"
    using f_puts_at_end [OF 1(2)] by blast
  show ?thesis
    using 1 2 by (simp add: put_field_def IntToStr_spec c clear_str_def r f_putc_puts del: replicate.simps)
qed

lemma csv_Suc:
  "csv rs (Suc k) = csv rs k @ csv_line k (unat (the (rd32 rs (NODE_DEVICE_ID_FIRST_ADDRESS + 2 * k)))) @ [LF]"
  by (simp add: csv_def)

lemma rd32_id: "regs_ok rs \<Longrightarrow> i < 256 \<Longrightarrow> \<exists>v. rd32 rs (NODE_DEVICE_ID_FIRST_ADDRESS + 2 * i) = Some v"
  by (auto simp: rd32_def regs_ok_def layout_defs)

lemma save_line_spec:
  assumes "at_end path (csv rs i) fil d" "regs_ok rs" "i < 256"
  shows "\<exists>fil' d'. save_line rs i (replicate 1024 NUL, fil, d) = Some (replicate 1024 NUL, fil', d')
    \<and> at_end path (csv rs (Suc i)) fil' d' \<and> (\<forall>p. p \<noteq> path \<longrightarrow> files d' p = files d p)"
proof -
  obtain v where v: "rd32 rs (NODE_DEVICE_ID_FIRST_ADDRESS + 2 * i) = Some v" using rd32_id assms(2,3) by blast
  have i: "unat (of_nat i :: u32) = i" using assms(3) by (simp add: unat_of_nat)
  obtain fil1 d1 where 1: "put_field (of_nat i) (replicate 1024 NUL, fil, d) = Some (replicate 1024 NUL, fil1, d1)"
    "at_end path (csv rs i @ dec i @ '','') fil1 d1" "\<And>p. p \<noteq> path \<Longrightarrow> files d1 p = files d p"
    using put_field_spec [OF assms(1), of "of_nat i"] unfolding i by blast
  obtain fil2 d2 where 2: "put_field v (replicate 1024 NUL, fil1, d1) = Some (replicate 1024 NUL, fil2, d2)"
    "at_end path ((csv rs i @ dec i @ '','') @ dec (unat v) @ '','') fil2 d2" "\<And>p. p \<noteq> path \<Longrightarrow> files d2 p = files d1 p"
    using put_field_spec [OF 1(2), of v] by blast
  obtain r3 fil3 d3 where 3: "f_puts [LF] fil2 d2 = (r3, fil3, d3)"
    "at_end path (((csv rs i @ dec i @ '','') @ dec (unat v) @ '','') @ [LF]) fil3 d3"
    "\<And>p. p \<noteq> path \<Longrightarrow> files d3 p = files d2 p"
    using f_puts_at_end [OF 2(2)] by blast
  show ?thesis
    using 1 2 3 by (simp add: save_line_def v f_putc_puts csv_Suc csv_line_def del: replicate.simps)
qed

lemma SaveDeviceIdFile_spec:
  assumes "regs_ok rs" "mounted d"
  shows "\<exists>fil' d'. SaveDeviceIdFile rs fil d = Some (FR_OK, fil', d') \<and> mounted d'
    \<and> files d' ''/DeviceId.csv'' = Some (csv rs 256) \<and> (\<forall>p. p \<noteq> ''/DeviceId.csv'' \<longrightarrow> files d' p = files d p)"
proof -
  let ?p = "''/DeviceId.csv''"
  let ?I = "\<lambda>i (str, fil, e). str = replicate 1024 NUL \<and> at_end ?p (csv rs i) fil e
    \<and> (\<forall>p. p \<noteq> ?p \<longrightarrow> files e p = files d p)"
  let ?fil = "\<lparr>fil_path = Some ?p, objsize = 0, fptr = 0\<rparr>" and ?d = "d\<lparr>files := (files d)(?p \<mapsto> [])\<rparr>"
  have "at_end ?p (csv rs 0) ?fil ?d" using assms(2) by (simp add: at_end_def csv_def)
  then have I0: "?I 0 (replicate 1024 NUL, ?fil, ?d)" by simp
  have step: "\<exists>t'. save_line rs i t = Some t' \<and> ?I (Suc i) t'" if "i < 256" "?I i t" for i t
  proof -
    obtain str fl e where t: "t = (str, fl, e)" by (cases t)
    show ?thesis
      using save_line_spec [of ?p rs i fl e] that assms(1)
      by (auto simp: t simp del: replicate.simps)
  qed
  from foldM_upt_inv [where I = ?I and f = "save_line rs", OF _ I0, of 256] step
  obtain s' where s': "foldM (save_line rs) [0..<256] (replicate 1024 NUL, ?fil, ?d) = Some s'" "?I 256 s'"
    by (auto simp del: replicate.simps)
  then show ?thesis
    using assms(2)
    by (cases s') (auto simp: SaveDeviceIdFile_def f_open_create_def f_close_def at_end_def simp del: replicate.simps)
qed

section \<open>Reading the file\<close>

lemma until_comma:
  assumes "CHR '','' \<notin> set xs"
  shows "takeWhile (\<lambda>c. c \<noteq> CHR '','') (xs @ CHR '','' # rest) = xs"
    "dropWhile (\<lambda>c. c \<noteq> CHR '','') (xs @ CHR '','' # rest) = CHR '','' # rest"
  using assms by (induction xs) auto

lemma strtok_field:
  assumes "xs \<noteq> []" "CHR '','' \<notin> set xs"
  shows "strtok (xs @ CHR '','' # rest) = (Some (xs @ [NUL]), rest)"
  using assms by (cases xs) (auto simp: strtok_def until_comma)

lemma read_record_spec:
  assumes "c_str buf = Some (csv_line i (unat v) @ [LF])" "regs_ok rs" "i < 256"
  shows "read_record buf rs = Some (rs[NODE_DEVICE_ID_FIRST_ADDRESS + 2 * i := lo16 v,
    NODE_DEVICE_ID_FIRST_ADDRESS + 1 + 2 * i := hi16 v])"
proof -
  have dn: "dec n \<noteq> []" for n using dec_length(1) [of n] by auto
  have line: "csv_line i (unat v) @ [LF] = dec i @ CHR '','' # dec (unat v) @ CHR '','' # [LF]"
    by (simp add: csv_line_def)
  have i: "unat (ucast (of_nat i :: u32) :: u8) = i"
    using assms(3) by (simp add: unsigned_ucast_eq unat_of_nat take_bit_nat_eq_self)
  show ?thesis
    using assms dn dec_plain(3) by (simp add: read_record_def line strtok_field StrToInt_dec i regs_ok_def layout_defs)
qed

text \<open>The part of the file from line \<open>k\<close> on.\<close>

lemma csv_split:
  assumes "k \<le> 256"
  shows "\<exists>rest. csv rs 256 = csv rs k @ rest"
proof -
  have "[0..<256] = [0..<k] @ [k..<256]" using assms by (metis le_add_diff_inverse upt_add_eq_append zero_le)
  then show ?thesis by (simp add: csv_def)
qed

lemma csv_line_plain: "LF \<notin> set (csv_line i v)" "NUL \<notin> set (csv_line i v)"
  using dec_plain by (auto simp: csv_line_def)

lemma csv_line_length:
  assumes "i < 256"
  shows "length (csv_line i (unat (v :: u32))) \<le> 15" "4 \<le> length (csv_line i (unat v))"
proof -
  have "length (dec i) \<le> 3" using dec_length(2) [of i 3] assms by simp
  moreover have "1 \<le> length (dec i)" "1 \<le> length (dec (unat v))" using dec_length(1) by (simp_all add: Suc_le_eq)
  ultimately show "length (csv_line i (unat v)) \<le> 15" "4 \<le> length (csv_line i (unat v))"
    using dec_u32_length [of v] by (simp_all add: csv_line_def)
qed

lemma csv_length:
  assumes "k \<le> 256"
  shows "5 * k \<le> length (csv rs k)" "length (csv rs k) \<le> 16 * k"
proof -
  have "5 * k \<le> length (csv rs k) \<and> length (csv rs k) \<le> 16 * k"
    using assms
  proof (induction k)
    case (Suc k)
    with csv_line_length [of k "the (rd32 rs (NODE_DEVICE_ID_FIRST_ADDRESS + 2 * k))"] show ?case
      by (simp add: csv_Suc)
  qed (simp add: csv_def)
  then show "5 * k \<le> length (csv rs k)" "length (csv rs k) \<le> 16 * k" by simp_all
qed

lemma codes_copied_Suc:
  assumes "codes_copied k src old new" "regs_ok src" "regs_ok old" "k < 256"
    and "rd32 src (NODE_DEVICE_ID_FIRST_ADDRESS + 2 * k) = Some v"
  shows "codes_copied (Suc k) src old (new[NODE_DEVICE_ID_FIRST_ADDRESS + 2 * k := lo16 v,
    NODE_DEVICE_ID_FIRST_ADDRESS + 1 + 2 * k := hi16 v])"
proof -
  have "v = mk32 (src ! (NODE_DEVICE_ID_FIRST_ADDRESS + 2 * k)) (src ! (NODE_DEVICE_ID_FIRST_ADDRESS + 1 + 2 * k))"
    using assms(2,4,5) by (simp add: rd32_def regs_ok_def layout_defs)
  moreover have "length new = 3080" using assms(1,3) by (simp add: codes_copied_def regs_ok_def layout_defs)
  moreover have "id_addrs i \<inter> id_addrs k = {}" if "i < k" for i using that by (auto simp: id_addrs_def)
  ultimately show ?thesis
    using assms(1,4)
    by (auto simp: codes_copied_def less_Suc_eq nth_list_update id_addrs_def layout_defs)
qed

text \<open>The loop from line \<open>k\<close> on, by induction on the number of lines to go.\<close>

lemma read_loop_spec:
  assumes "unread fil d rest" "csv src 256 = csv src k @ rest" "codes_copied k src old new" "k \<le> 256"
    and "regs_ok src" "regs_ok old" "16 < n" "n \<le> length b"
  shows "\<exists>fil' new'. read_loop t d n (Some b) fil new = Some (fil', new') \<and> codes_copied 256 src old new'
    \<and> fil_path fil' = fil_path fil"
  using assms
proof (induction "256 - k" arbitrary: k fil rest new b)
  case 0
  then have "rest = []" "k = 256" "b \<noteq> []" by auto
  then show ?case
    using 0 f_gets_eof [of fil d b t n] by (subst read_loop.simps) auto
next
  case (Suc m)
  then have k: "k < 256" by simp
  obtain v where v: "rd32 src (NODE_DEVICE_ID_FIRST_ADDRESS + 2 * k) = Some v" using rd32_id Suc.prems(5) k by blast
  let ?l = "csv_line k (unat v)"
  obtain rest' where r': "csv src 256 = csv src (Suc k) @ rest'" using csv_split [of "Suc k" src] k by auto
  then have rest: "rest = ?l @ LF # rest'" using Suc.prems(2) v by (simp add: csv_Suc)
  from f_gets_line [of fil d ?l rest' n b t] Suc.prems(1,7,8) csv_line_plain csv_line_length(1) [OF k, of v]
  obtain b' fil' where g: "f_gets t (Some b) n fil d = Some (Some b', fil')" "c_str b' = Some (?l @ [LF])"
    "length b' = length b" "unread fil' d rest'" "fil_path fil' = fil_path fil"
    unfolding rest by (auto simp: less_Suc_eq_le)
  have "regs_ok new" using Suc.prems(3,6) by (simp add: codes_copied_def regs_ok_def)
  note rec = read_record_spec [OF g(2) this k]
  let ?new = "new[NODE_DEVICE_ID_FIRST_ADDRESS + 2 * k := lo16 v, NODE_DEVICE_ID_FIRST_ADDRESS + 1 + 2 * k := hi16 v]"
  have "codes_copied (Suc k) src old ?new" using codes_copied_Suc Suc.prems(3,5,6) k v by blast
  moreover have "m = 256 - Suc k" "Suc k \<le> 256" "n \<le> length b'" using Suc.hyps(2) Suc.prems(8) k g(3) by simp_all
  ultimately have "\<exists>fil'' new'. read_loop t d n (Some b') fil' ?new = Some (fil'', new')
    \<and> codes_copied 256 src old new' \<and> fil_path fil'' = fil_path fil'"
    using Suc.hyps(1) [OF _ g(4) r'] Suc.prems(5,6,7) by blast
  then
  obtain fil'' new' where "read_loop t d n (Some b') fil' ?new = Some (fil'', new')"
    "codes_copied 256 src old new'" "fil_path fil'' = fil_path fil'"
    by blast
  then show ?case
    using g(1,5) rec by (subst read_loop.simps) simp
qed

lemma ReadDeviceIdFile_spec:
  assumes "regs_ok rs" "regs_ok old" "mounted d" "files d ''/DeviceId.csv'' = Some (csv rs 256)" "heap_ok t"
  shows "\<exists>fil' new. ReadDeviceIdFile t old fil d = Some (FR_OK, fil', new) \<and> codes_copied 256 rs old new"
proof -
  let ?n = "length (csv rs 256)"
  let ?fil = "\<lparr>fil_path = Some ''/DeviceId.csv'', objsize = ?n, fptr = 0\<rparr>"
  have n: "1280 \<le> ?n" "?n \<le> 4096" using csv_length [of 256 rs] by simp_all
  then have u: "unat (of_nat ?n :: u16) = ?n" by (simp add: unat_of_nat)
  have "0 < ?n" using n(1) by linarith
  then obtain b where b: "heap t ?n = Some b" "length b = ?n" using assms(5) unfolding heap_ok_def by blast
  have "unread ?fil d (csv rs 256)" using assms(4) by (simp add: unread_def contents_def)
  moreover have "csv rs 256 = csv rs 0 @ csv rs 256" by (simp add: csv_def)
  moreover have "codes_copied 0 rs old old" by (simp add: codes_copied_def)
  ultimately obtain fil'' new where
    "read_loop t d ?n (Some b) ?fil old = Some (fil'', new)" "codes_copied 256 rs old new"
    using read_loop_spec [of ?fil d "csv rs 256" rs 0 old old ?n b t] assms(1,2) n b(2) by auto
  then show ?thesis
    using assms(3,4) u b by (auto simp: ReadDeviceIdFile_def f_open_read_def f_close_def split: prod.split)
qed

section \<open>Properties\<close>

text \<open>
  The decimal conversions are inverse to each other: every 32-bit number printed into a cleared
  buffer and scanned again gives the number back.
\<close>

lemma number_round_trip:
  assumes "10 < l"
  shows "\<exists>buf. IntToStr (replicate l NUL) v = Some buf \<and> StrToInt (Some buf) = Some v"
proof -
  have "length (dec (unat v)) < l" using dec_u32_length [of v] assms by simp
  then obtain k where "l - length (dec (unat v)) = Suc k" by (cases "l - length (dec (unat v))") auto
  then show ?thesis
    using IntToStr_spec [OF assms, of v] by (simp add: StrToInt_def StrToInt_loop_dec)
qed

text \<open>
  C22: the device codes survive a restart. After \<open>SaveDeviceIdFile\<close> on a mounted volume,
  \<open>ReadDeviceIdFile\<close> runs to its end, reports success, restores all 256 device codes in any register
  table and changes no other register of it. Its loop over the lines terminates.
\<close>

theorem device_codes_round_trip:
  assumes "regs_ok rs" "regs_ok old" "mounted d" "heap_ok t"
  shows "\<exists>fil' d' fil'' new. SaveDeviceIdFile rs fil d = Some (FR_OK, fil', d')
    \<and> ReadDeviceIdFile t old fil0 d' = Some (FR_OK, fil'', new) \<and> codes_copied 256 rs old new"
proof -
  obtain fil' d' where s: "SaveDeviceIdFile rs fil d = Some (FR_OK, fil', d')" "mounted d'"
    "files d' ''/DeviceId.csv'' = Some (csv rs 256)"
    using SaveDeviceIdFile_spec [OF assms(1,3)] by blast
  from ReadDeviceIdFile_spec [OF assms(1,2) this(2,3) assms(4)] this(1) show ?thesis by blast
qed

theorem device_codes_round_trip_witness:
  "\<exists>fil' d' fil'' new.
    SaveDeviceIdFile (replicate 3080 7) \<lparr>fil_path = None, objsize = 0, fptr = 0\<rparr> \<lparr>mounted = True, files = (\<lambda>_. None)\<rparr>
      = Some (FR_OK, fil', d')
    \<and> ReadDeviceIdFile \<lparr>null_store = False, null_text = None, heap = (\<lambda>n. if n = 0 then None else Some (replicate n NUL))\<rparr>
        (replicate 3080 0) \<lparr>fil_path = None, objsize = 0, fptr = 0\<rparr> d' = Some (FR_OK, fil'', new)
    \<and> codes_copied 256 (replicate 3080 7) (replicate 3080 0) new"
  using device_codes_round_trip [of "replicate 3080 7" "replicate 3080 0"]
  by (simp add: regs_ok_def layout_defs heap_ok_def)

text \<open>
  C28: on a volume without the file the program stores through a null pointer at every start: the size is
  0, so \<open>rt_malloc\<close> gives \<open>NULL\<close>, and \<open>f_gets\<close> stores its terminator there. The start goes on only on a
  target that survives that store, and then no register is changed and the error is reported.
\<close>

theorem missing_code_file:
  assumes "mounted d" "files d ''/DeviceId.csv'' = None" "heap_ok t"
  shows "ReadDeviceIdFile t rs \<lparr>fil_path = None, objsize = 0, fptr = 0\<rparr> d =
    (if null_store t then Some (FR_NO_FILE, \<lparr>fil_path = None, objsize = 0, fptr = 0\<rparr>, rs) else None)"
proof -
  have "heap t 0 = None" using assms(3) by (simp add: heap_ok_def)
  then show ?thesis
    using assms(1,2)
    by (auto simp: ReadDeviceIdFile_def f_open_read_def read_loop.simps f_gets_def store_at_def f_close_def)
qed

theorem missing_code_file_witness:
  "ReadDeviceIdFile \<lparr>null_store = False, null_text = None, heap = (\<lambda>n. if n = 0 then None else Some (replicate n NUL))\<rparr>
     (replicate 3080 0) \<lparr>fil_path = None, objsize = 0, fptr = 0\<rparr> \<lparr>mounted = True, files = (\<lambda>_. None)\<rparr> = None"
  using missing_code_file [of "\<lparr>mounted = True, files = (\<lambda>_. None)\<rparr>"
    "\<lparr>null_store = False, null_text = None, heap = (\<lambda>n. if n = 0 then None else Some (replicate n NUL))\<rparr>"]
  by (simp add: heap_ok_def)

end
