(* ===== verification/SaveConfig.thy ===== *)
theory SaveConfig
  imports JsonConfig DeviceIdCsv MbPoll
begin

text \<open>
  Task/TaskModbus.c: the configuration task, which loads the configuration at the start and then, once
  a second, carries out the requests the host leaves in the flag word of the register table; and the
  start of the Modbus thread, which uses the loaded configuration.

  Flag bit 0 takes over the Modbus parameters of word 0, bit 1 the overtime of word 1, bit 3 saves the
  device codes, bit 15 resets the system. A reset does not return to the loop.
\<close>

section \<open>Definitions\<close>

record station =
  usSRegHoldBuf :: regs
  config :: "ConfigFile list"
  volume :: disk
  json_fil :: FIL
  csv_fil :: FIL
  isConfigUpdata :: bool

datatype pass = Continues station | SystemReset station

text \<open>\<open>usSRegHoldBuf[CONFIG_FLAG_ADDRESS] & (1 << k)\<close> and \<open>usSRegHoldBuf[CONFIG_FLAG_ADDRESS] &= ~(1 << k)\<close>.\<close>

definition test_flag :: "nat \<Rightarrow> regs \<Rightarrow> bool option" where
  "test_flag k rs = do { w \<leftarrow> rd rs CONFIG_FLAG_ADDRESS; Some (w AND push_bit k 1 \<noteq> 0) }"

definition clear_flag :: "nat \<Rightarrow> regs \<Rightarrow> regs option" where
  "clear_flag k rs = do { w \<leftarrow> rd rs CONFIG_FLAG_ADDRESS; wr rs CONFIG_FLAG_ADDRESS (w AND NOT (push_bit k 1)) }"

text \<open>The part of \<open>SaveConfigThreadEntry\<close> before its loop.\<close>

definition SaveConfig_start :: "target \<Rightarrow> (int \<Rightarrow> cfp) \<Rightarrow> station \<Rightarrow> station option" where
  "SaveConfig_start t pw s = do {
     (ret, cfg, jf) \<leftarrow> Get_JsonFile t pw (config s) (json_fil s) (volume s);
     rs \<leftarrow> ConfigModbusHoldRegister cfg (usSRegHoldBuf s);
     (ret, cf, rs) \<leftarrow> ReadDeviceIdFile t rs (csv_fil s) (volume s);
     Some (s\<lparr>usSRegHoldBuf := rs, config := cfg, json_fil := jf, csv_fil := cf, isConfigUpdata := False\<rparr>)
   }"

text \<open>The four requests, in the order of the loop body.\<close>

definition take_modbus :: "station \<Rightarrow> station option" where
  "take_modbus s = do {
     b \<leftarrow> test_flag 0 (usSRegHoldBuf s);
     if b then do {
       cfg \<leftarrow> HostSetModbusParameter (usSRegHoldBuf s) (config s);
       rs \<leftarrow> clear_flag 0 (usSRegHoldBuf s);
       Some (s\<lparr>usSRegHoldBuf := rs, config := cfg, isConfigUpdata := True\<rparr>)
     } else Some s
   }"

definition take_overtime :: "station \<Rightarrow> station option" where
  "take_overtime s = do {
     b \<leftarrow> test_flag 1 (usSRegHoldBuf s);
     if b then do {
       w \<leftarrow> rd (usSRegHoldBuf s) 1;
       cfg \<leftarrow> set_parameter (config s) 2 (ucast (w AND 0x00FF));
       rs \<leftarrow> clear_flag 1 (usSRegHoldBuf s);
       Some (s\<lparr>usSRegHoldBuf := rs, config := cfg, isConfigUpdata := True\<rparr>)
     } else Some s
   }"

definition save_codes :: "station \<Rightarrow> station option" where
  "save_codes s = do {
     b \<leftarrow> test_flag 3 (usSRegHoldBuf s);
     if b then do {
       (_, cf, d) \<leftarrow> SaveDeviceIdFile (usSRegHoldBuf s) (csv_fil s) (volume s);
       rs \<leftarrow> clear_flag 3 (usSRegHoldBuf s);
       Some (s\<lparr>usSRegHoldBuf := rs, volume := d, csv_fil := cf\<rparr>)
     } else Some s
   }"

definition save_config :: "target \<Rightarrow> (cfp \<Rightarrow> string) \<Rightarrow> station \<Rightarrow> station option" where
  "save_config t fm s =
     (if isConfigUpdata s then do {
        (_, jf, d) \<leftarrow> Create_JsonFile t fm (config s) (json_fil s) (volume s);
        Some (s\<lparr>volume := d, json_fil := jf, isConfigUpdata := False\<rparr>)
      } else Some s)"

definition SaveConfig_loop :: "target \<Rightarrow> (cfp \<Rightarrow> string) \<Rightarrow> station \<Rightarrow> pass option" where
  "SaveConfig_loop t fm s = do {
     s \<leftarrow> take_modbus s;
     s \<leftarrow> take_overtime s;
     s \<leftarrow> save_codes s;
     s \<leftarrow> save_config t fm s;
     b \<leftarrow> test_flag 15 (usSRegHoldBuf s);
     if b then do {
       rs \<leftarrow> clear_flag 15 (usSRegHoldBuf s);
       Some (SystemReset (s\<lparr>usSRegHoldBuf := rs\<rparr>))
     } else Some (Continues s)
   }"

text \<open>
  The start of \<open>ModbusSlavePollThreadEntry\<close>: the results of \<open>eMBInit\<close> and \<open>eMBEnable\<close> are ignored. The
  serial device is found and opens as the flags say.
\<close>

definition ModbusSlavePoll_start :: "bool \<Rightarrow> bool \<Rightarrow> ConfigFile list \<Rightarrow> mb \<Rightarrow> mb option" where
  "ModbusSlavePoll_start dev_found dev_opens cfg m = do {
     bandrate \<leftarrow> get_parameter cfg 0;
     address \<leftarrow> get_parameter cfg 1;
     (_, m) \<leftarrow> eMBInit dev_found dev_opens MB_RTU (ucast address) 4 bandrate MB_PAR_NONE m;
     Some (snd (eMBEnable m))
   }"

text \<open>The state in which the task starts after power-up: defaults, cleared registers, no file open.\<close>

definition power_up :: "disk \<Rightarrow> station" where
  "power_up d = \<lparr>usSRegHoldBuf = replicate 3080 0, config = g_ConfigFile, volume = d,
     json_fil = \<lparr>fil_path = None, objsize = 0, fptr = 0\<rparr>, csv_fil = \<lparr>fil_path = None, objsize = 0, fptr = 0\<rparr>,
     isConfigUpdata = False\<rparr>"

text \<open>The baud rate that a configuration word asks for.\<close>

definition word_baud :: "u16 \<Rightarrow> u32" where
  "word_baud w = (let sel = drop_bit 8 (w AND 0x0300) in
     if sel = 0 then 2400 else if sel = 1 then 4800 else if sel = 2 then 9600 else 115200)"

text \<open>The configuration after both parameter requests.\<close>

definition requested :: "regs \<Rightarrow> ConfigFile list \<Rightarrow> ConfigFile list" where
  "requested rs cfg =
     [(cfg ! 0)\<lparr>parameter := word_baud (rs ! 0)\<rparr>, (cfg ! 1)\<lparr>parameter := ucast (rs ! 0 AND 0xFF)\<rparr>,
      (cfg ! 2)\<lparr>parameter := ucast (rs ! 1 AND 0xFF)\<rparr>]"

section \<open>The requests\<close>

lemma and_3_cases: "(x :: u16) AND 3 = 0 \<or> x AND 3 = 1 \<or> x AND 3 = 2 \<or> x AND 3 = 3"
proof -
  have "x AND 3 = x mod 4" using take_bit_eq_mask [of 2 x] by (simp add: mask_eq_exp_minus_1 take_bit_eq_mod)
  then have "unat (x AND 3) < 4" by (simp add: unat_mod_distrib)
  then have "unat (x AND 3) \<in> {0, 1, 2, 3}" by auto
  then show ?thesis by (auto simp: unsigned_word_eqI [where ?'a = nat])
qed

lemma HostSet_word:
  assumes "length cfg = 3" "0 < length rs"
  shows "HostSetModbusParameter rs cfg =
    Some (cfg[0 := (cfg ! 0)\<lparr>parameter := word_baud (rs ! 0)\<rparr>, 1 := (cfg ! 1)\<lparr>parameter := ucast (rs ! 0 AND 0xFF)\<rparr>])"
  using assms and_3_cases [of "drop_bit 8 (rs ! 0)"]
  by (auto simp: HostSetModbusParameter_def word_baud_def set_parameter_def Let_def)

lemma flag_simps:
  assumes "regs_ok rs"
  shows "test_flag k rs = Some (bit (rs ! CONFIG_FLAG_ADDRESS) k)"
    "clear_flag k rs = Some (rs[CONFIG_FLAG_ADDRESS := unset_bit k (rs ! CONFIG_FLAG_ADDRESS)])"
  using assms
  by (simp_all add: test_flag_def clear_flag_def regs_ok_def layout_defs bit_iff_and_push_bit_not_eq_0
      unset_bit_eq_and_not)

text \<open>The configuration words that a start writes back are the requested ones.\<close>

lemma word_baud_code: "baud_code (word_baud w) = Some (drop_bit 8 w AND 3)"
  using and_3_cases [of "drop_bit 8 w"] by (auto simp: word_baud_def baud_code_def Let_def)

lemma word_fields: "((w :: u16) AND 0xFF) OR push_bit 8 (drop_bit 8 w AND 3) = w AND 0x3FF"
proof -
  have m: "0xFF = (mask 8 :: u16)" "3 = (mask 2 :: u16)" "0x3FF = (mask 10 :: u16)"
    by (simp_all add: mask_eq_exp_minus_1)
  show ?thesis unfolding m by (rule bit_word_eqI) (auto simp: bit_simps)
qed

lemma byte_ucast:
  fixes w :: u16
  shows "ucast (ucast (w AND 0xFF) :: u32) = w AND 0xFF" "ucast (w AND 0xFF) < (256 :: u32)"
proof -
  have m: "w AND 0xFF = take_bit 8 w" by (simp add: take_bit_eq_mask mask_eq_exp_minus_1)
  have "unat (take_bit 8 w) < 256" using take_bit_nat_less_exp [of 8 "unat w"] by (simp add: unsigned_take_bit_eq)
  then show "ucast (w AND 0xFF) < (256 :: u32)"
    unfolding m by (simp add: word_less_nat_alt unsigned_ucast_eq take_bit_nat_eq_self)
  show "ucast (ucast (w AND 0xFF) :: u32) = w AND 0xFF"
    unfolding m by (rule bit_word_eqI) (auto simp: bit_simps)
qed

lemma names_length: "names_ok cfg \<Longrightarrow> length cfg = 3"
  using map_eq_imp_length_eq by (fastforce simp: names_ok_def g_ConfigFile_def)

lemma requested_names:
  assumes "names_ok cfg"
  shows "names_ok (requested rs cfg)"
proof -
  obtain x y z where "cfg = [x, y, z]"
    using names_length [OF assms] by (auto simp: numeral_3_eq_3 length_Suc_conv)
  then show ?thesis using assms by (simp add: names_ok_def requested_def)
qed

lemma take_requests:
  assumes "regs_ok (usSRegHoldBuf s)" "length (config s) = 3"
    and "bit (usSRegHoldBuf s ! CONFIG_FLAG_ADDRESS) 0" "bit (usSRegHoldBuf s ! CONFIG_FLAG_ADDRESS) 1"
  shows "Option.bind (take_modbus s) take_overtime =
    Some (s\<lparr>usSRegHoldBuf := (usSRegHoldBuf s)[CONFIG_FLAG_ADDRESS :=
              unset_bit 1 (unset_bit 0 (usSRegHoldBuf s ! CONFIG_FLAG_ADDRESS))],
            config := requested (usSRegHoldBuf s) (config s), isConfigUpdata := True\<rparr>)"
proof -
  let ?rs = "usSRegHoldBuf s" and ?f = "usSRegHoldBuf s ! CONFIG_FLAG_ADDRESS"
  let ?rs1 = "?rs[CONFIG_FLAG_ADDRESS := unset_bit 0 ?f]"
  obtain x y z where c: "config s = [x, y, z]" using assms(2) by (auto simp: numeral_3_eq_3 length_Suc_conv)
  have l: "0 < length ?rs" "CONFIG_FLAG_ADDRESS < length ?rs" "regs_ok ?rs1"
    using assms(1) by (auto simp: regs_ok_def layout_defs)
  have 1: "?rs1 ! CONFIG_FLAG_ADDRESS = unset_bit 0 ?f" "?rs1 ! 1 = ?rs ! 1" "1 < length ?rs1"
    "bit (unset_bit 0 ?f) 1"
    using l(2) assms(4) by (simp_all add: layout_defs bit_simps)
  show ?thesis
    using HostSet_word [OF assms(2) l(1)] flag_simps [OF assms(1)] flag_simps [OF l(3)] assms(3,4) 1 c
    by (simp add: take_modbus_def take_overtime_def requested_def set_parameter_def)
qed

text \<open>A pass of the loop with every request set writes both files and resets.\<close>

lemma loop_all_requests:
  assumes "regs_ok (usSRegHoldBuf s)" "names_ok (config s)" "mounted (volume s)"
    and "\<forall>k \<in> {0, 1, 3, 15}. bit (usSRegHoldBuf s ! CONFIG_FLAG_ADDRESS) k"
  shows "\<exists>s' rs'. SaveConfig_loop t fm s = Some (SystemReset s') \<and> mounted (volume s')
    \<and> files (volume s') json_path = Some (config_text (named (requested (usSRegHoldBuf s) (config s))))
    \<and> files (volume s') ''/DeviceId.csv'' = Some (csv rs' 256) \<and> regs_ok rs'
    \<and> (\<forall>a. a \<noteq> CONFIG_FLAG_ADDRESS \<longrightarrow> rs' ! a = usSRegHoldBuf s ! a)"
proof -
  let ?rs = "usSRegHoldBuf s" and ?f = "usSRegHoldBuf s ! CONFIG_FLAG_ADDRESS"
  define f2 where "f2 = unset_bit 1 (unset_bit 0 ?f)"
  let ?rs2 = "?rs[CONFIG_FLAG_ADDRESS := f2]" and ?rs3 = "?rs[CONFIG_FLAG_ADDRESS := unset_bit 3 f2]"
  let ?cfg = "requested ?rs (config s)"
  have l: "CONFIG_FLAG_ADDRESS < length ?rs" "regs_ok ?rs2" "regs_ok ?rs3"
    using assms(1) by (auto simp: regs_ok_def layout_defs)
  have 2: "?rs2 ! CONFIG_FLAG_ADDRESS = f2" "?rs3 ! CONFIG_FLAG_ADDRESS = unset_bit 3 f2"
    "bit f2 3" "bit (unset_bit 3 f2) 15"
    using l(1) assms(4) by (simp_all add: f2_def bit_simps)
  obtain cf d where d: "SaveDeviceIdFile ?rs2 (csv_fil s) (volume s) = Some (FR_OK, cf, d)" "mounted d"
    "files d ''/DeviceId.csv'' = Some (csv ?rs2 256)"
    using SaveDeviceIdFile_spec [OF l(2) assms(3)] by blast
  obtain jf d' where d': "Create_JsonFile t fm ?cfg (json_fil s) d = Some (FR_OK, jf, d')" "mounted d'"
    "files d' json_path = Some (config_text (named ?cfg))" "\<forall>p. p \<noteq> json_path \<longrightarrow> files d' p = files d p"
    using Create_JsonFile_spec [OF requested_names [OF assms(2)] d(2)] by blast
  have csv: "files d' ''/DeviceId.csv'' = Some (csv ?rs2 256)" using d'(4) d(3) by (simp add: json_path_def)
  have req: "SaveConfig_loop t fm s = Option.bind (Option.bind (take_modbus s) take_overtime) (\<lambda>s.
      Option.bind (save_codes s) (\<lambda>s. Option.bind (save_config t fm s) (\<lambda>s. Option.bind (test_flag 15 (usSRegHoldBuf s))
        (\<lambda>b. if b then Option.bind (clear_flag 15 (usSRegHoldBuf s)) (\<lambda>rs. Some (SystemReset (s\<lparr>usSRegHoldBuf := rs\<rparr>)))
          else Some (Continues s)))))"
    by (simp add: SaveConfig_loop_def)
  note tr = take_requests [OF assms(1) names_length [OF assms(2)], folded f2_def]
  have "\<exists>s'. SaveConfig_loop t fm s = Some (SystemReset s') \<and> volume s' = d'"
    using assms(4) d(1) d'(1)
    by (simp add: req tr save_codes_def save_config_def
        flag_simps [OF l(2)] flag_simps [OF l(3)] 2)
  then obtain s' where "SaveConfig_loop t fm s = Some (SystemReset s')" "volume s' = d'" by blast
  then show ?thesis using d' csv l(2) by (intro exI [of _ s'] exI [of _ ?rs2]) simp
qed

lemma requested_ok: "cfg_ok (map nameless (requested rs cfg))"
  using word_baud_code [of "rs ! 0"] byte_ucast(2) [of "rs ! 0"]
  by (simp add: cfg_ok_def requested_def nameless_def)

lemma start_restores:
  assumes "regs_ok rs'" "names_ok cfg" "mounted d" "heap_ok t" "null_store t" "pw 0 = Fin 1 0"
    and "files d json_path = Some (config_text (named (requested rs cfg)))"
    and "files d ''/DeviceId.csv'' = Some (csv rs' 256)"
  shows "\<exists>s'. SaveConfig_start t pw (power_up d) = Some s' \<and> config s' = map nameless (requested rs cfg)
    \<and> usSRegHoldBuf s' ! 0 = (rs ! 0 AND 0x3FF) OR 0xC00 \<and> usSRegHoldBuf s' ! 1 = rs ! 1 AND 0xFF
    \<and> (\<forall>i < 256. \<forall>a \<in> id_addrs i. usSRegHoldBuf s' ! a = rs' ! a)"
proof -
  let ?cfg = "map nameless (requested rs cfg)" and ?z = "replicate 3080 0 :: regs"
  let ?new = "?z[0 := (rs ! 0 AND 0x3FF) OR 0xC00, 1 := rs ! 1 AND 0xFF]"
  obtain jf where j: "Get_JsonFile t pw g_ConfigFile \<lparr>fil_path = None, objsize = 0, fptr = 0\<rparr> d = Some (FR_OK, ?cfg, jf)"
    using Get_JsonFile_spec [of "requested rs cfg" d t pw g_ConfigFile] requested_names [OF assms(2)] assms(3-7)
    by (auto simp: g_ConfigFile_def)
  have c: "ConfigModbusHoldRegister ?cfg ?z = Some ?new"
    using ConfigModbusHoldRegister_spec [OF requested_ok, of ?z rs cfg "drop_bit 8 (rs ! 0) AND 3"]
      word_baud_code [of "rs ! 0"] byte_ucast(1) word_fields [of "rs ! 0"]
    by (simp add: requested_def nameless_def)
  have "regs_ok ?new" by (simp add: regs_ok_def layout_defs)
  from ReadDeviceIdFile_spec [OF assms(1) this assms(3,8,4)] obtain cf new where
    r: "ReadDeviceIdFile t ?new \<lparr>fil_path = None, objsize = 0, fptr = 0\<rparr> d = Some (FR_OK, cf, new)"
      "codes_copied 256 rs' ?new new" by blast
  have n: "\<forall>i < 256. a \<notin> id_addrs i" if "a \<le> CONFIG_FLAG_ADDRESS" for a
    using config_words_disjoint that by blast
  have k: "new ! a = ?new ! a" if "a \<le> CONFIG_FLAG_ADDRESS" for a
    using r(2) n [OF that] unfolding codes_copied_def by blast
  have "new ! 0 = (rs ! 0 AND 0x3FF) OR 0xC00" "new ! 1 = rs ! 1 AND 0xFF"
    using k [of 0] k [of 1] by (simp_all add: layout_defs)
  moreover have "\<forall>i < 256. \<forall>a \<in> id_addrs i. new ! a = rs' ! a" using r(2) by (simp add: codes_copied_def)
  ultimately show ?thesis
    using j c r(1) by (simp add: SaveConfig_start_def power_up_def)
qed

lemma slave_start_good:
  assumes "length cfg = 3" "b = parameter (cfg ! 0)" "baud_code b \<noteq> None" "a = ucast (parameter (cfg ! 1))" "1 \<le> a" "a \<le> 247"
  shows "\<exists>m'. ModbusSlavePoll_start True True cfg m = Some m' \<and> eMBState m' = STATE_ENABLED \<and> ucMBAddress m' = a
    \<and> baud_rate (ser_config (port (framing m'))) = b \<and> eRcvState (framing m') = STATE_RX_INIT
    \<and> rx_int (port (framing m')) \<and> timer_on (port (framing m'))"
proof -
  obtain x y z where c: "cfg = [x, y, z]" using assms(1) by (auto simp: numeral_3_eq_3 length_Suc_conv)
  have a: "\<not> (a = MB_ADDRESS_BROADCAST \<or> a < MB_ADDRESS_MIN \<or> a > MB_ADDRESS_MAX)"
    using assms(5,6) by (auto simp: MB_ADDRESS_BROADCAST_def MB_ADDRESS_MIN_def MB_ADDRESS_MAX_def)
  have "b \<in> {2400, 4800, 9600, 115200}" using assms(3) by (auto simp: baud_code_def split: if_splits)
  then obtain v where v: "t35_50us b = Some v" by (auto simp: t35_50us_def)
  show ?thesis
    using a v assms(2,4)
    by (auto simp: ModbusSlavePoll_start_def get_parameter_def c eMBInit_def eMBEnable_def eMBRTUInit_def eMBRTUStart_def
        xMBPortSerialInit_def xMBPortTimersInit_def xMBPortEventInit_def vMBPortSerialEnable_def vMBPortTimersEnable_def Let_def
        split: option.split prod.split)
qed

section \<open>Properties\<close>



text \<open>
  Without a request the task leaves everything alone: with the four flags clear and nothing pending a
  pass of the loop changes no register, no parameter and no file, and does not reset.
\<close>

lemma no_request_changes_nothing:
  assumes "regs_ok (usSRegHoldBuf s)" "\<not> isConfigUpdata s"
    and "\<forall>k \<in> {0, 1, 3, 15}. \<not> bit (usSRegHoldBuf s ! CONFIG_FLAG_ADDRESS) k"
  shows "SaveConfig_loop t fm s = Some (Continues s)"
  using assms(2,3)
  by (simp add: SaveConfig_loop_def take_modbus_def take_overtime_def save_codes_def save_config_def
      flag_simps(1) [OF assms(1)])

text \<open>
  C25: the slave starts as configured. With a supported baud rate and an address from 1 to 247 the start of
  the Modbus thread leaves the stack enabled with this address and baud rate, its receiver on and the
  start-up pause running.
\<close>

theorem slave_starts_as_configured:
  assumes "length cfg = 3" "baud_code (parameter (cfg ! 0)) \<noteq> None"
    and "1 \<le> (ucast (parameter (cfg ! 1)) :: u8)" "(ucast (parameter (cfg ! 1)) :: u8) \<le> 247"
  shows "\<exists>m'. ModbusSlavePoll_start True True cfg m = Some m' \<and> eMBState m' = STATE_ENABLED
    \<and> ucMBAddress m' = ucast (parameter (cfg ! 1))
    \<and> baud_rate (ser_config (port (framing m'))) = parameter (cfg ! 0) \<and> eRcvState (framing m') = STATE_RX_INIT
    \<and> rx_int (port (framing m')) \<and> timer_on (port (framing m'))"
  using slave_start_good [OF assms(1) refl assms(2) refl assms(3,4)] .

theorem slave_starts_as_configured_witness:
  "\<exists>m'. ModbusSlavePoll_start True True g_ConfigFile (demo_mb\<lparr>eMBState := STATE_NOT_INITIALIZED\<rparr>) = Some m'
    \<and> eMBState m' = STATE_ENABLED \<and> ucMBAddress m' = 1 \<and> baud_rate (ser_config (port (framing m'))) = 115200"
  using slave_starts_as_configured [of g_ConfigFile "demo_mb\<lparr>eMBState := STATE_NOT_INITIALIZED\<rparr>"]
  by (auto simp: g_ConfigFile_def baud_code_def)

text \<open>
  C26: the host can put the slave out of reach. The address byte of word 0 is taken over unchecked: when it
  is 0 or above 247 the configuration accepts it, the next start of the Modbus thread leaves the stack
  as it was, never initialised, and every poll reports an illegal state and does nothing else.
\<close>

theorem bad_address_silences_slave:
  assumes "length cfg = 3" "0 < length rs" "eMBState m = STATE_NOT_INITIALIZED"
    and "(ucast (rs ! 0 AND 0xFF) :: u8) = 0 \<or> 247 < (ucast (rs ! 0 AND 0xFF) :: u8)"
  shows "\<exists>cfg'. HostSetModbusParameter rs cfg = Some cfg' \<and> ModbusSlavePoll_start f p cfg' m = Some m
    \<and> eMBPoll m = Some (MB_EILLSTATE, m)"
proof -
  obtain x y z where c: "cfg = [x, y, z]" using assms(1) by (auto simp: numeral_3_eq_3 length_Suc_conv)
  have u: "ucast (ucast (rs ! 0 AND 0xFF) :: u32) = (ucast (rs ! 0 AND 0xFF) :: u8)"
    by (rule bit_word_eqI) (auto simp: bit_simps)
  have h: "HostSetModbusParameter rs [x, y, z] =
      Some [x\<lparr>parameter := word_baud (rs ! 0)\<rparr>, y\<lparr>parameter := ucast (rs ! 0 AND 0xFF)\<rparr>, z]"
    using HostSet_word [OF assms(1,2)] by (simp add: c)
  show ?thesis
    using assms(3,4) u
    by (auto simp: h c ModbusSlavePoll_start_def get_parameter_def eMBInit_def eMBEnable_def eMBPoll_def
        MB_ADDRESS_BROADCAST_def MB_ADDRESS_MIN_def MB_ADDRESS_MAX_def)
qed

theorem bad_address_silences_slave_witness:
  "\<exists>cfg'. HostSetModbusParameter [0x3FF] g_ConfigFile = Some cfg'
    \<and> ModbusSlavePoll_start True True cfg' (demo_mb\<lparr>eMBState := STATE_NOT_INITIALIZED\<rparr>)
      = Some (demo_mb\<lparr>eMBState := STATE_NOT_INITIALIZED\<rparr>)"
  using bad_address_silences_slave [of g_ConfigFile "[0x3FF]" "demo_mb\<lparr>eMBState := STATE_NOT_INITIALIZED\<rparr>"]
  by (auto simp: g_ConfigFile_def)

end
