(* ===== verification/RelaySystem.thy ===== *)
theory RelaySystem
  imports DataReceive MbPoll SaveConfig
begin

text \<open>
  The running relay: the radio task, the overtime task, the configuration task, the poll thread of the
  Modbus slave and the interrupts of its line, all on the one register table \<open>usSRegHoldBuf\<close>. A pass of a
  task's loop and an interrupt are one step each. The table is kept in the data areas of the slave; a
  task that works on it gets it and gives it back.
\<close>

section \<open>Definitions\<close>

record system =
  radio_task :: relay
  slave :: mb
  config_task :: station

definition table :: "system \<Rightarrow> regs" where
  "table s = mb_data.usSRegHoldBuf (areas (slave s))"

definition set_table :: "regs \<Rightarrow> system \<Rightarrow> system" where
  "set_table rs s = s\<lparr>slave := (slave s)\<lparr>areas := (areas (slave s))\<lparr>mb_data.usSRegHoldBuf := rs\<rparr>\<rparr>\<rparr>"

definition set_framing :: "rtu \<Rightarrow> system \<Rightarrow> system" where
  "set_framing r s = s\<lparr>slave := (slave s)\<lparr>framing := r\<rparr>\<rparr>"

definition radio_pass :: "system \<Rightarrow> system option" where
  "radio_pass s = do {
     t \<leftarrow> TaskDataReceive_loop ((radio_task s)\<lparr>hold_buf := table s\<rparr>);
     Some (set_table (hold_buf t) (s\<lparr>radio_task := t\<rparr>))
   }"

definition sweep_pass :: "u32 \<Rightarrow> system \<Rightarrow> system option" where
  "sweep_pass overtime s = do {
     rs \<leftarrow> TaskCheckOverTime_sweep (NodeOvertimeTimerNumber (radio_task s)) overtime (table s);
     Some (set_table rs s)
   }"

text \<open>The flag tells that the configuration task resets the processor.\<close>

definition config_pass :: "target \<Rightarrow> (cfp \<Rightarrow> string) \<Rightarrow> system \<Rightarrow> (bool \<times> system) option" where
  "config_pass t fm s = do {
     p \<leftarrow> SaveConfig_loop t fm ((config_task s)\<lparr>station.usSRegHoldBuf := table s\<rparr>);
     Some (case p of
         Continues c \<Rightarrow> (False, set_table (station.usSRegHoldBuf c) (s\<lparr>config_task := c\<rparr>))
       | SystemReset c \<Rightarrow> (True, set_table (station.usSRegHoldBuf c) (s\<lparr>config_task := c\<rparr>)))
   }"

definition poll_pass :: "system \<Rightarrow> system option" where
  "poll_pass s = do { (_, m) \<leftarrow> eMBPoll (slave s); Some (s\<lparr>slave := m\<rparr>) }"

definition second_passes :: "system \<Rightarrow> system" where
  "second_passes s = s\<lparr>radio_task := (radio_task s)\<lparr>NodeOvertimeTimerNumber := NodeOvertimeTiming (NodeOvertimeTimerNumber (radio_task s))\<rparr>\<rparr>"

inductive system_step :: "u32 \<Rightarrow> target \<Rightarrow> (cfp \<Rightarrow> string) \<Rightarrow> system \<Rightarrow> system \<Rightarrow> bool" for overtime t fm where
  Second: "system_step overtime t fm s (second_passes s)"
| Radio: "radio_pass s = Some s' \<Longrightarrow> system_step overtime t fm s s'"
| Sweep: "sweep_pass overtime s = Some s' \<Longrightarrow> system_step overtime t fm s s'"
| Config: "config_pass t fm s = Some (False, s') \<Longrightarrow> system_step overtime t fm s s'"
| Poll: "poll_pass s = Some s' \<Longrightarrow> system_step overtime t fm s s'"
| Rx: "rx_int (port (framing (slave s))) \<Longrightarrow> receive_char b (framing (slave s)) = Some r \<Longrightarrow>
    system_step overtime t fm s (set_framing r s)"
| Timer: "timer_on (port (framing (slave s))) \<Longrightarrow> xMBRTUTimerT35Expired (framing (slave s)) = Some r \<Longrightarrow>
    system_step overtime t fm s (set_framing r s)"
| Tx: "tx_requested (port (framing (slave s))) \<Longrightarrow> xMBRTUTransmitFSM (framing (slave s)) = Some r \<Longrightarrow>
    system_step overtime t fm s (set_framing r s)"

definition system_ok :: "system \<Rightarrow> bool" where
  "system_ok s \<longleftrightarrow> relay_ok ((radio_task s)\<lparr>hold_buf := table s\<rparr>) \<and> mb_ok (slave s)"

text \<open>The host asks the slave for the register \<open>a\<close>; the answer on the line.\<close>

definition host_reads :: "u16 \<Rightarrow> system \<Rightarrow> (u8 list \<times> system) option" where
  "host_reads a s = do {
     m \<leftarrow> serve (line_frame (ucMBAddress (slave s)) [MB_FUNC_READ_HOLDING_REGISTER, hi8 a, lo8 a, 0, 1]) (slave s);
     r \<leftarrow> (xmit ^^ 8) (Some (framing m));
     Some (uart_out (port r), s\<lparr>slave := m\<lparr>framing := r\<rparr>\<rparr>)
   }"

section \<open>The shared table\<close>

lemma table_simps [simp]:
  "table (set_table rs s) = rs" "table (set_framing r s) = table s" "table (second_passes s) = table s"
  "table (s\<lparr>radio_task := x\<rparr>) = table s" "table (s\<lparr>config_task := c\<rparr>) = table s"
  "radio_task (set_table rs s) = radio_task s" "radio_task (set_framing r s) = radio_task s"
  "slave (s\<lparr>radio_task := x\<rparr>) = slave s" "slave (set_table rs (s\<lparr>config_task := c\<rparr>)) = slave (set_table rs s)"
  by (simp_all add: table_def set_table_def set_framing_def second_passes_def)

lemma mb_ok_table: "mb_ok (slave s) \<Longrightarrow> regs_ok rs \<Longrightarrow> mb_ok (slave (set_table rs s))"
  by (simp add: set_table_def mb_ok_def data_ok_def)

lemma mb_ok_framing: "mb_ok (slave s) \<Longrightarrow> rtu_ok r \<Longrightarrow> mb_ok (slave (set_framing r s))"
  by (simp add: set_framing_def mb_ok_def)

lemma system_table_ok: "system_ok s \<Longrightarrow> regs_ok (table s)"
  by (simp add: system_ok_def relay_ok_def)

lemma mb_ok_regs: "mb_ok (slave s) \<Longrightarrow> regs_ok (table s)"
  by (simp add: mb_ok_def data_ok_def table_def)

text \<open>The configuration task writes no register but the request word.\<close>

lemma requests_keep:
  "take_modbus c = Some c' \<Longrightarrow> (\<forall>a. a \<noteq> CONFIG_FLAG_ADDRESS \<longrightarrow> station.usSRegHoldBuf c' ! a = station.usSRegHoldBuf c ! a)
     \<and> length (station.usSRegHoldBuf c') = length (station.usSRegHoldBuf c)"
  "take_overtime c = Some c' \<Longrightarrow> (\<forall>a. a \<noteq> CONFIG_FLAG_ADDRESS \<longrightarrow> station.usSRegHoldBuf c' ! a = station.usSRegHoldBuf c ! a)
     \<and> length (station.usSRegHoldBuf c') = length (station.usSRegHoldBuf c)"
  "save_codes c = Some c' \<Longrightarrow> (\<forall>a. a \<noteq> CONFIG_FLAG_ADDRESS \<longrightarrow> station.usSRegHoldBuf c' ! a = station.usSRegHoldBuf c ! a)
     \<and> length (station.usSRegHoldBuf c') = length (station.usSRegHoldBuf c)"
  "save_config t fm c = Some c' \<Longrightarrow> station.usSRegHoldBuf c' = station.usSRegHoldBuf c"
  by (auto simp: take_modbus_def take_overtime_def save_codes_def save_config_def clear_flag_def wr_eq_Some
      bind_eq_Some_conv split: if_splits)

lemma config_loop_keeps:
  assumes "SaveConfig_loop t fm c = Some p" and "p = Continues c' \<or> p = SystemReset c'"
  shows "\<forall>a. a \<noteq> CONFIG_FLAG_ADDRESS \<longrightarrow> station.usSRegHoldBuf c' ! a = station.usSRegHoldBuf c ! a"
    "length (station.usSRegHoldBuf c') = length (station.usSRegHoldBuf c)"
proof -
  obtain c1 c2 c3 c4 where "take_modbus c = Some c1" "take_overtime c1 = Some c2" "save_codes c2 = Some c3"
    "save_config t fm c3 = Some c4"
    and last: "station.usSRegHoldBuf c' = station.usSRegHoldBuf c4 \<or> clear_flag 15 (station.usSRegHoldBuf c4) = Some (station.usSRegHoldBuf c')"
    using assms by (auto simp: SaveConfig_loop_def bind_eq_Some_conv split: if_splits)
  note k = requests_keep(1) [OF this(1)] requests_keep(2) [OF this(2)] requests_keep(3) [OF this(3)] requests_keep(4) [OF this(4)]
  have "(\<forall>a. a \<noteq> CONFIG_FLAG_ADDRESS \<longrightarrow> station.usSRegHoldBuf c' ! a = station.usSRegHoldBuf c4 ! a)
      \<and> length (station.usSRegHoldBuf c') = length (station.usSRegHoldBuf c4)"
    using last by (auto simp: clear_flag_def wr_eq_Some bind_eq_Some_conv)
  with k show "\<forall>a. a \<noteq> CONFIG_FLAG_ADDRESS \<longrightarrow> station.usSRegHoldBuf c' ! a = station.usSRegHoldBuf c ! a"
    "length (station.usSRegHoldBuf c') = length (station.usSRegHoldBuf c)" by simp_all
qed

lemma config_pass_keeps:
  assumes "config_pass t fm s = Some (b, s')"
  shows "\<forall>a. a \<noteq> CONFIG_FLAG_ADDRESS \<longrightarrow> table s' ! a = table s ! a" "length (table s') = length (table s)"
    "radio_task s' = radio_task s" "slave s' = slave (set_table (table s') s)"
proof -
  obtain p where p: "SaveConfig_loop t fm ((config_task s)\<lparr>station.usSRegHoldBuf := table s\<rparr>) = Some p"
    using assms by (auto simp: config_pass_def bind_eq_Some_conv)
  then obtain c' where "p = Continues c' \<or> p = SystemReset c'" "s' = set_table (station.usSRegHoldBuf c') (s\<lparr>config_task := c'\<rparr>)"
    using assms by (cases p) (auto simp: config_pass_def)
  with config_loop_keeps [OF p this(1)]
  show "\<forall>a. a \<noteq> CONFIG_FLAG_ADDRESS \<longrightarrow> table s' ! a = table s ! a" "length (table s') = length (table s)"
    "radio_task s' = radio_task s" "slave s' = slave (set_table (table s') s)" by simp_all
qed

lemma radio_pass_ok:
  assumes "radio_pass s = Some s'" "system_ok s"
  shows "system_ok s'" "\<exists>i<256. \<forall>a. a \<notin> node_addrs i \<longrightarrow> table s' ! a = table s ! a"
proof -
  obtain t where t: "TaskDataReceive_loop ((radio_task s)\<lparr>hold_buf := table s\<rparr>) = Some t" "s' = set_table (hold_buf t) (s\<lparr>radio_task := t\<rparr>)"
    using assms(1) by (auto simp: radio_pass_def bind_eq_Some_conv)
  have k: "relay_ok t" "\<exists>i<256. \<forall>a. a \<notin> node_addrs i \<longrightarrow> hold_buf t ! a = table s ! a"
    using loop_ok [OF t(1)] assms(2) by (auto simp: system_ok_def)
  then have "regs_ok (hold_buf t)" by (simp add: relay_ok_def)
  then have "mb_ok (slave s')" unfolding t(2) using assms(2) by (intro mb_ok_table) (simp_all add: system_ok_def)
  then show "system_ok s'" using k(1) by (simp add: system_ok_def t(2))
  show "\<exists>i<256. \<forall>a. a \<notin> node_addrs i \<longrightarrow> table s' ! a = table s ! a" using k(2) by (simp add: t(2))
qed

lemma relay_ok_table: "relay_ok (t\<lparr>hold_buf := rs\<rparr>) \<Longrightarrow> regs_ok rs' \<Longrightarrow> relay_ok (t\<lparr>hold_buf := rs'\<rparr>)"
  by (simp add: relay_ok_def)

lemma system_ok_set_table: "system_ok s \<Longrightarrow> regs_ok rs \<Longrightarrow> system_ok (set_table rs s)"
  using mb_ok_table [of s rs] by (auto simp: system_ok_def intro: relay_ok_table)

lemma sweep_pass_ok:
  assumes "sweep_pass overtime s = Some s'" "system_ok s"
  shows "system_ok s'"
    "\<forall>a < length (table s). table s' ! a = (if swept (NodeOvertimeTimerNumber (radio_task s)) overtime (table s) 256 a then 0 else table s ! a)"
  using assms(1) sweep_spec [OF system_table_ok [OF assms(2)], of "NodeOvertimeTimerNumber (radio_task s)" overtime]
    system_ok_set_table [OF assms(2)]
  by (auto simp: sweep_pass_def bind_eq_Some_conv)

lemma sweep_pass_defined:
  assumes "system_ok s"
  shows "\<exists>s'. sweep_pass overtime s = Some s' \<and> slave s' = slave (set_table (table s') s)"
  using sweep_spec [OF system_table_ok [OF assms], of "NodeOvertimeTimerNumber (radio_task s)" overtime]
  by (auto simp: sweep_pass_def)

lemma config_pass_ok:
  assumes "config_pass t fm s = Some (b, s')" "system_ok s"
  shows "system_ok s'"
proof -
  note k = config_pass_keeps [OF assms(1)]
  have r: "regs_ok (table s')" using k(2) system_table_ok [OF assms(2)] by (simp add: regs_ok_def)
  have "mb_ok (slave s')" using k(4) mb_ok_table [OF _ r] assms(2) by (simp add: system_ok_def)
  moreover have "relay_ok ((radio_task s')\<lparr>hold_buf := table s'\<rparr>)"
    using assms(2) r k(3) by (auto simp: system_ok_def intro: relay_ok_table)
  ultimately show ?thesis by (simp add: system_ok_def)
qed

lemma poll_pass_ok:
  assumes "poll_pass s = Some s'" "system_ok s"
  shows "system_ok s'"
proof -
  obtain e m where m: "eMBPoll (slave s) = Some (e, m)" "s' = s\<lparr>slave := m\<rparr>"
    using assms(1) by (auto simp: poll_pass_def bind_eq_Some_conv)
  have ok: "mb_ok m" using eMBPoll_ok [OF _ m(1)] assms(2) by (simp add: system_ok_def)
  then have "regs_ok (table s')" by (intro mb_ok_regs) (simp add: m(2))
  then have "relay_ok ((radio_task s)\<lparr>hold_buf := table s'\<rparr>)"
    using assms(2) by (auto simp: system_ok_def intro: relay_ok_table)
  then show ?thesis using ok by (simp add: system_ok_def m(2))
qed

lemma framing_step_ok: "system_ok s \<Longrightarrow> rtu_ok r \<Longrightarrow> system_ok (set_framing r s)"
  using mb_ok_framing [of s r] by (simp add: system_ok_def)

lemma system_framing_ok: "system_ok s \<Longrightarrow> rtu_ok (framing (slave s))"
  by (simp add: system_ok_def mb_ok_def)

lemma system_step_ok: "system_step overtime t fm s s' \<Longrightarrow> system_ok s \<Longrightarrow> system_ok s'"
proof (induction rule: system_step.induct)
  case (Second s)
  then show ?case by (simp add: system_ok_def second_passes_def table_def relay_ok_def)
next
  case (Rx s b r)
  then show ?case using rx_safe [OF system_framing_ok, of s b] by (auto simp: receive_char_def intro: framing_step_ok)
next
  case (Timer s r)
  then show ?case using timer_safe [OF system_framing_ok, of s] by (auto intro: framing_step_ok)
next
  case (Tx s r)
  then show ?case using tx_safe [OF system_framing_ok, of s] by (auto intro: framing_step_ok)
qed (blast intro: radio_pass_ok sweep_pass_ok config_pass_ok poll_pass_ok)+

lemma reachable_system_ok: "(system_step overtime t fm)\<^sup>*\<^sup>* s s' \<Longrightarrow> system_ok s \<Longrightarrow> system_ok s'"
  by (induction rule: rtranclp_induct) (auto dest: system_step_ok)

lemma started_ok:
  assumes "TaskDataReceive_start t0 = Some (radio_task s)" "regs_ok (hold_buf t0)" "mb_ok (slave s)"
  shows "system_ok s"
proof -
  have "relay_ok ((radio_task s)\<lparr>hold_buf := hold_buf (radio_task s)\<rparr>)" using start_ok [OF assms(1,2)] by simp
  from relay_ok_table [OF this mb_ok_regs [OF assms(3)]] show ?thesis using assms(3) by (simp add: system_ok_def)
qed

section \<open>From the radio to the host\<close>

lemma packet_processed:
  assumes "relay_ok t" "12 \<le> leng t" "frame_valid frame"
    and "miso_in (chip t) = replicate 44 False @ ms" "gdo0_in (chip t) = False # gs"
    and "spi_in (chip t) = packet_script st frame rssi lqi echo @ answers @ rest" "length answers = 80"
    and "st AND BYTES_IN_RXFIFO \<noteq> 0" "lqi AND CRC_OK \<noteq> 0"
    and pf: "\<And>r. process_frame (NodeOvertimeTimerNumber t) r frame (nodeData t) (hold_buf t) = Some (nd r, rs r)"
  shows "\<exists>t' r. TaskDataReceive_loop t = Some t' \<and> hold_buf t' = rs r \<and> num t' = 1 \<and> leng t' = 12"
proof -
  have len: "length frame = 12" "length (rxBuffer t) = 12" using assms(1,3) by (simp_all add: relay_ok_def frame_valid_def)
  have m: "miso_in (chip t) = replicate 6 False @ False # False # replicate 36 False @ ms"
    using assms(4) replicate_add [of 6 "2 + 36" False] replicate_add [of 2 36 False] by (simp add: numeral_2_eq_2)
  have l12: "12 \<le> unat (leng t)" using assms(2) by (simp add: word_le_nat_alt)
  obtain r1 where r1: "CC1101_ReceivePacket (rxBuffer t) (leng t) (chip t) = Some (lqi AND CRC_OK, frame, 12, r1)"
    "miso_in r1 = False # False # replicate 36 False @ ms" "gdo0_in r1 = gs" "spi_in r1 = answers @ rest"
    using ReceivePacket_accept [OF m assms(5,6,8), of "leng t" "rxBuffer t"] len l12 by auto
  obtain b bs where a: "answers = b # bs" "length bs = 79" using assms(7) by (cases answers) auto
  obtain r2 where r2: "CC1101_Reset r1 = Some r2" "miso_in r2 = replicate 36 False @ ms" "spi_in r2 = bs @ rest"
    using Reset_run [OF r1(2), of b "bs @ rest"] r1(4) a(1) by auto
  obtain r3 where r3: "CC1101_SettingsReg r2 = Some r3" using SettingsReg_run [OF r2(2,3) a(2)] by blast
  have ms: "memset_0 frame (unat (12 :: u8)) \<noteq> None" using len(1) by (simp add: memset_0_def)
  then show ?thesis using r1(1) r2(1) r3 pf [of r1] assms(9)
    by (auto simp: TaskDataReceive_loop_def Let_def)
qed

lemma temperature_address:
  assumes "i < 256"
  shows "unat (of_nat (TEMPERATURE_FIRST_ADDRESS + i) :: u16) = TEMPERATURE_FIRST_ADDRESS + i"
    "TEMPERATURE_FIRST_ADDRESS + i < S_REG_HOLDING_NREGS"
  unfolding unat_of_nat using assms by (simp_all add: layout_defs)

lemma host_reads_register:
  assumes "mb_ok (slave s)" "quiet (slave s)" "uart_out (port (framing (slave s))) = []" "xFuncHandlers (slave s) = xFuncHandlers_init"
    and "ucMBAddress (slave s) \<noteq> 0" "unat a < S_REG_HOLDING_NREGS"
  shows "\<exists>s'. host_reads a s = Some (line_frame (ucMBAddress (slave s))
      [MB_FUNC_READ_HOLDING_REGISTER, 2, hi8 (table s ! unat a), lo8 (table s ! unat a)], s') \<and> table s' = table s"
proof -
  have len: "length (table s) = S_REG_HOLDING_NREGS" using mb_ok_regs [OF assms(1)] by (simp add: regs_ok_def)
  then have one: "take 1 (drop (unat a) (table s)) = [table s ! unat a]"
    using assms(6) by (simp add: take_Suc_conv_app_nth)
  obtain m r where m: "serve (line_frame (ucMBAddress (slave s)) [MB_FUNC_READ_HOLDING_REGISTER, hi8 a, lo8 a, hi8 1, lo8 1]) (slave s) = Some m"
    "areas m = areas (slave s)" "(xmit ^^ (2 * unat (1 :: u16) + 6)) (Some (framing m)) = Some r"
    "uart_out (port r) = line_frame (ucMBAddress (slave s)) (MB_FUNC_READ_HOLDING_REGISTER # ucast ((1 :: u16) * 2)
        # regs_bytes (take (unat (1 :: u16)) (drop (unat a) (mb_data.usSRegHoldBuf (areas (slave s))))))"
    using read_request_served [OF assms(1-5), of 1 a] assms(6) by auto
  have "hi8 1 = 0" "lo8 1 = 1" by (simp_all add: hi8_def lo8_def)
  then show ?thesis
    using m one by (simp add: host_reads_def table_def)
qed

text \<open>No task but the poll thread, which acts for the host, touches the first two configuration words or a device code.\<close>

lemma step_keeps_codes:
  assumes "system_step overtime t fm s s'" "system_ok s" "a < CONFIG_FLAG_ADDRESS \<or> (\<exists>j<256. a \<in> id_addrs j)"
  shows "table s' ! a = table s ! a \<or> poll_pass s = Some s'"
proof -
  have own: "a \<notin> node_addrs i" if "i < 256" for i
    using assms(3) config_words_disjoint [OF that] id_addrs_disjoint [OF that] by (auto simp: disjoint_iff)
  have nf: "a \<noteq> CONFIG_FLAG_ADDRESS" using assms(3) config_words_disjoint by (auto simp: id_addrs_def layout_defs)
  have inside: "a < length (table s)"
    using assms(3) node_addrs_in_table system_table_ok [OF assms(2)] by (fastforce simp: regs_ok_def id_addrs_def layout_defs)
  from assms(1) show ?thesis
  proof cases
    case Radio
    then show ?thesis using radio_pass_ok(2) [OF _ assms(2)] own by blast
  next
    case Sweep
    then show ?thesis using sweep_pass_ok(2) [OF _ assms(2)] own inside by (auto simp: swept_def)
  next
    case Config
    then show ?thesis using config_pass_keeps(1) nf by blast
  qed (simp_all add: second_passes_def table_def set_framing_def)
qed

section \<open>A sample system\<close>

text \<open>The radio has taken a rejected packet of 12 bytes before, so that its length variable is 12.\<close>

definition demo_system :: system where
  "demo_system = \<lparr>radio_task = demo_relay\<lparr>leng := 12, chip := \<lparr>miso_in = replicate 44 False @ [], gdo0_in = [False],
       spi_in = packet_script 14 demo_frame 40 0xB0 0 @ replicate 80 0 @ [], bus_log = [], RSSI_RegisterValue = 0, LQI_RegisterValue = 0\<rparr>\<rparr>,
     slave = demo_mb\<lparr>areas := demo_data\<lparr>mb_data.usSRegHoldBuf := demo_regs\<rparr>\<rparr>,
     config_task = power_up \<lparr>mounted = True, files = (\<lambda>_. None)\<rparr>\<rparr>"

lemma demo_system_facts:
  "system_ok demo_system" "quiet (slave demo_system)" "uart_out (port (framing (slave demo_system))) = []"
  "xFuncHandlers (slave demo_system) = xFuncHandlers_init" "ucMBAddress (slave demo_system) = 5" "table demo_system = demo_regs"
proof -
  show t: "table demo_system = demo_regs" by (simp add: demo_system_def table_def)
  have "mb_ok (slave demo_system)"
    using demo_mb_facts(1) demo_facts(1) by (simp add: demo_system_def mb_ok_def data_ok_def demo_mb_def)
  then show "system_ok demo_system"
    using demo_facts by (simp add: system_ok_def table_def relay_ok_def demo_system_def demo_relay_def demo_node_def NodeDataStructInit_def)
  show "quiet (slave demo_system)" using demo_mb_facts(2) by (simp add: demo_system_def quiet_def)
qed (simp_all add: demo_system_def demo_mb_def demo_rtu_def)

end
