(* ===== verification/Serial.thy ===== *)
theory Serial
  imports Prelude
begin

text \<open>
  components/drivers/serial/serial.c and the device calls of src/device.c that reach it: opening,
  closing, reading and writing a UART, and the receive interrupt with its byte FIFO. \<open>line_in\<close> are the
  characters \<open>getc\<close> gives before it gives \<open>-1\<close>, \<open>line_out\<close> those handed to \<open>putc\<close>, which waits for the
  line and always succeeds. No UART of the board has the DMA flags, so that opening one with DMA is
  refused and the DMA branches are not reached.
\<close>

section \<open>Definitions\<close>

record rx_fifo =
  buffer :: "u8 list"
  put_index :: u16
  get_index :: u16
  is_full :: bool

record serial_device =
  bufsz :: u16
  dev_flag :: u16
  open_flag :: u16
  ref_count :: u8
  serial_rx :: "rx_fifo option"
  serial_tx :: bool
  has_indicate :: bool
  int_rx :: bool
  int_tx :: bool
  line_in :: "u8 list"
  line_out :: "u8 list"

definition RT_DEVICE_FLAG_STANDALONE :: u16 where "RT_DEVICE_FLAG_STANDALONE = 0x008"
definition RT_DEVICE_FLAG_ACTIVATED :: u16 where "RT_DEVICE_FLAG_ACTIVATED = 0x010"
definition RT_DEVICE_FLAG_STREAM :: u16 where "RT_DEVICE_FLAG_STREAM = 0x040"
definition RT_DEVICE_FLAG_INT_RX :: u16 where "RT_DEVICE_FLAG_INT_RX = 0x100"
definition RT_DEVICE_FLAG_DMA_RX :: u16 where "RT_DEVICE_FLAG_DMA_RX = 0x200"
definition RT_DEVICE_FLAG_INT_TX :: u16 where "RT_DEVICE_FLAG_INT_TX = 0x400"
definition RT_DEVICE_FLAG_DMA_TX :: u16 where "RT_DEVICE_FLAG_DMA_TX = 0x800"
definition RT_DEVICE_OFLAG_RDWR :: u16 where "RT_DEVICE_OFLAG_RDWR = 0x003"
definition RT_DEVICE_OFLAG_OPEN :: u16 where "RT_DEVICE_OFLAG_OPEN = 0x008"

text \<open>The body of the loop in the receive interrupt.\<close>

definition serial_put :: "u16 \<Rightarrow> u8 \<Rightarrow> rx_fifo \<Rightarrow> rx_fifo option" where
  "serial_put n ch f = do {
     buf \<leftarrow> wr (buffer f) (unat (put_index f)) ch;
     let f = f\<lparr>buffer := buf, put_index := put_index f + 1\<rparr>;
     let f = (if put_index f \<ge> n then f\<lparr>put_index := 0\<rparr> else f);
     Some (if put_index f = get_index f then
             let f = f\<lparr>get_index := get_index f + 1, is_full := True\<rparr>
             in if get_index f \<ge> n then f\<lparr>get_index := 0\<rparr> else f
           else f)
   }"

definition rx_length :: "u16 \<Rightarrow> rx_fifo \<Rightarrow> nat" where
  "rx_length n f =
     (if put_index f \<ge> get_index f then unat (put_index f) - unat (get_index f)
      else unat n - (unat (get_index f) - unat (put_index f)))"

text \<open>
  The branch \<open>RT_SERIAL_EVENT_RX_IND\<close> of the interrupt; the result tells with which length the
  indication function of the owner is to be called, if it is.
\<close>

definition rt_hw_serial_isr :: "serial_device \<Rightarrow> (nat option \<times> serial_device) option" where
  "rt_hw_serial_isr s = do {
     f \<leftarrow> serial_rx s;
     f \<leftarrow> foldM (serial_put (bufsz s)) (line_in s) f;
     let s = s\<lparr>serial_rx := Some f, line_in := []\<rparr>;
     Some (if has_indicate s \<and> rx_length (bufsz s) f \<noteq> 0 then (Some (rx_length (bufsz s) f), s) else (None, s))
   }"

text \<open>One round of the loop in \<open>_serial_int_rx\<close>: \<^term>\<open>Some None\<close> when there is no data.\<close>

definition serial_get :: "u16 \<Rightarrow> rx_fifo \<Rightarrow> (u8 \<times> rx_fifo) option option" where
  "serial_get n f =
     (if get_index f = put_index f \<and> \<not> is_full f then Some None
      else do {
        ch \<leftarrow> rd (buffer f) (unat (get_index f));
        let f = f\<lparr>get_index := get_index f + 1\<rparr>;
        let f = (if get_index f \<ge> n then f\<lparr>get_index := 0\<rparr> else f);
        Some (Some (ch, f\<lparr>is_full := False\<rparr>))
      })"

fun serial_int_rx :: "u16 \<Rightarrow> nat \<Rightarrow> rx_fifo \<Rightarrow> (u8 list \<times> rx_fifo) option" where
  "serial_int_rx n 0 f = Some ([], f)"
| "serial_int_rx n (Suc len) f = do {
     r \<leftarrow> serial_get n f;
     (case r of
        None \<Rightarrow> Some ([], f)
      | Some (ch, f) \<Rightarrow> do { (data, f) \<leftarrow> serial_int_rx n len f; Some (ch # data, f) })
   }"

text \<open>Without interrupt mode the line itself is read, up to a line end.\<close>

fun serial_poll_rx :: "nat \<Rightarrow> u8 list \<Rightarrow> u8 list \<times> u8 list" where
  "serial_poll_rx 0 l = ([], l)"
| "serial_poll_rx (Suc len) [] = ([], [])"
| "serial_poll_rx (Suc len) (ch # l) =
     (if ch = 10 then ([ch], l) else let (data, l) = serial_poll_rx len l in (ch # data, l))"

text \<open>A stream device gets a carriage return before every line feed.\<close>

definition serial_poll_tx :: "u8 list \<Rightarrow> serial_device \<Rightarrow> serial_device" where
  "serial_poll_tx data s = s\<lparr>line_out := line_out s @ concat (map (\<lambda>b.
     if b = 10 \<and> open_flag s AND RT_DEVICE_FLAG_STREAM \<noteq> 0 then [13, b] else [b]) data)\<rparr>"

definition serial_int_tx :: "u8 list \<Rightarrow> serial_device \<Rightarrow> serial_device" where
  "serial_int_tx data s = s\<lparr>line_out := line_out s @ data\<rparr>"

definition rt_serial_init :: "serial_device \<Rightarrow> rt_err \<times> serial_device" where
  "rt_serial_init s = (RT_EOK, s\<lparr>serial_rx := None, serial_tx := False\<rparr>)"

text \<open>The FIFO as \<open>rt_serial_open\<close> allocates it.\<close>

definition new_fifo :: "u16 \<Rightarrow> rx_fifo" where
  "new_fifo n = \<lparr>buffer = replicate (unat n) 0, put_index = 0, get_index = 0, is_full = False\<rparr>"

definition rt_serial_open :: "u16 \<Rightarrow> serial_device \<Rightarrow> rt_err \<times> serial_device" where
  "rt_serial_open oflag s =
     (if oflag AND RT_DEVICE_FLAG_DMA_RX \<noteq> 0 \<and> dev_flag s AND RT_DEVICE_FLAG_DMA_RX = 0 then (RT_EIO, s)
      else if oflag AND RT_DEVICE_FLAG_DMA_TX \<noteq> 0 \<and> dev_flag s AND RT_DEVICE_FLAG_DMA_TX = 0 then (RT_EIO, s)
      else if oflag AND RT_DEVICE_FLAG_INT_RX \<noteq> 0 \<and> dev_flag s AND RT_DEVICE_FLAG_INT_RX = 0 then (RT_EIO, s)
      else if oflag AND RT_DEVICE_FLAG_INT_TX \<noteq> 0 \<and> dev_flag s AND RT_DEVICE_FLAG_INT_TX = 0 then (RT_EIO, s)
      else
        let stream_flag = (if oflag AND RT_DEVICE_FLAG_STREAM \<noteq> 0 \<or> open_flag s AND RT_DEVICE_FLAG_STREAM \<noteq> 0
                           then RT_DEVICE_FLAG_STREAM else 0);
            s = s\<lparr>open_flag := oflag AND 0xff\<rparr>;
            s = (if oflag AND RT_DEVICE_FLAG_INT_RX \<noteq> 0 then
                   (case serial_rx s of
                      None \<Rightarrow> s\<lparr>serial_rx := Some (new_fifo (bufsz s)), open_flag := open_flag s OR RT_DEVICE_FLAG_INT_RX, int_rx := True\<rparr>
                    | Some _ \<Rightarrow> s\<lparr>open_flag := open_flag s OR RT_DEVICE_FLAG_INT_RX\<rparr>)
                 else s);
            s = (if oflag AND RT_DEVICE_FLAG_INT_TX \<noteq> 0 then
                   (if \<not> serial_tx s then s\<lparr>serial_tx := True, open_flag := open_flag s OR RT_DEVICE_FLAG_INT_TX, int_tx := True\<rparr>
                    else s\<lparr>open_flag := open_flag s OR RT_DEVICE_FLAG_INT_TX\<rparr>)
                 else s)
        in (RT_EOK, s\<lparr>open_flag := open_flag s OR stream_flag\<rparr>))"

definition rt_serial_close :: "serial_device \<Rightarrow> (rt_err \<times> serial_device) option" where
  "rt_serial_close s =
     (if ref_count s > 1 then Some (RT_EOK, s)
      else do {
        s \<leftarrow> (if open_flag s AND RT_DEVICE_FLAG_INT_RX \<noteq> 0 then do {
                c_assert (serial_rx s \<noteq> None);
                Some (s\<lparr>serial_rx := None, open_flag := open_flag s AND NOT RT_DEVICE_FLAG_INT_RX, int_rx := False\<rparr>)
              } else Some s);
        s \<leftarrow> (if open_flag s AND RT_DEVICE_FLAG_INT_TX \<noteq> 0 then do {
                c_assert (serial_tx s);
                Some (s\<lparr>serial_tx := False, open_flag := open_flag s AND NOT RT_DEVICE_FLAG_INT_TX, int_tx := False\<rparr>)
              } else Some s);
        Some (RT_EOK, s)
      })"

definition rt_serial_read :: "nat \<Rightarrow> serial_device \<Rightarrow> (u8 list \<times> serial_device) option" where
  "rt_serial_read sz s =
     (if sz = 0 then Some ([], s)
      else if open_flag s AND RT_DEVICE_FLAG_INT_RX \<noteq> 0 then do {
        f \<leftarrow> serial_rx s;
        (data, f) \<leftarrow> serial_int_rx (bufsz s) sz f;
        Some (data, s\<lparr>serial_rx := Some f\<rparr>)
      } else let (data, l) = serial_poll_rx sz (line_in s) in Some (data, s\<lparr>line_in := l\<rparr>))"

definition rt_serial_write :: "u8 list \<Rightarrow> serial_device \<Rightarrow> serial_device option" where
  "rt_serial_write data s =
     (if data = [] then Some s
      else if open_flag s AND RT_DEVICE_FLAG_INT_TX \<noteq> 0
      then do { c_assert (serial_tx s); Some (serial_int_tx data s) }
      else Some (serial_poll_tx data s))"

definition rt_device_open :: "u16 \<Rightarrow> serial_device \<Rightarrow> (rt_err \<times> serial_device) option" where
  "rt_device_open oflag s = do {
     let s = (if dev_flag s AND RT_DEVICE_FLAG_ACTIVATED = 0
              then (snd (rt_serial_init s))\<lparr>dev_flag := dev_flag s OR RT_DEVICE_FLAG_ACTIVATED\<rparr> else s);
     if dev_flag s AND RT_DEVICE_FLAG_STANDALONE \<noteq> 0 \<and> open_flag s AND RT_DEVICE_OFLAG_OPEN \<noteq> 0
     then Some (RT_EBUSY, s)
     else do {
       let (result, s) = rt_serial_open oflag s;
       if result = RT_EOK then do {
         let s = s\<lparr>open_flag := open_flag s OR RT_DEVICE_OFLAG_OPEN, ref_count := ref_count s + 1\<rparr>;
         c_assert (ref_count s \<noteq> 0);
         Some (result, s)
       } else Some (result, s)
     }
   }"

definition rt_device_close :: "serial_device \<Rightarrow> (rt_err \<times> serial_device) option" where
  "rt_device_close s =
     (if ref_count s = 0 then Some (RT_ERROR, s)
      else let s = s\<lparr>ref_count := ref_count s - 1\<rparr>
      in if ref_count s \<noteq> 0 then Some (RT_EOK, s)
      else do {
        (result, s) \<leftarrow> rt_serial_close s;
        Some (result, s\<lparr>open_flag := 0\<rparr>)
      })"

definition rt_device_set_rx_indicate :: "bool \<Rightarrow> serial_device \<Rightarrow> serial_device" where
  "rt_device_set_rx_indicate rx_ind s = s\<lparr>has_indicate := rx_ind\<rparr>"

text \<open>The indices are inside the buffer, and the full mark never stands on an empty FIFO.\<close>

definition fifo_ok :: "u16 \<Rightarrow> rx_fifo \<Rightarrow> bool" where
  "fifo_ok n f \<longleftrightarrow> 2 \<le> unat n \<and> length (buffer f) = unat n \<and> put_index f < n \<and> get_index f < n
     \<and> (is_full f \<longrightarrow> put_index f \<noteq> get_index f)"

text \<open>The characters in the FIFO, oldest first.\<close>

definition content :: "u16 \<Rightarrow> rx_fifo \<Rightarrow> u8 list" where
  "content n f = map (\<lambda>i. buffer f ! ((unat (get_index f) + i) mod unat n)) [0..<rx_length n f]"

text \<open>A UART after the registration by the board: 64 bytes of buffer, both interrupt modes, not yet open.\<close>

definition demo_uart :: serial_device where
  "demo_uart = \<lparr>bufsz = 64, dev_flag = 0x503, open_flag = 0, ref_count = 0, serial_rx = None, serial_tx = False,
     has_indicate = False, int_rx = False, int_tx = False, line_in = [], line_out = []\<rparr>"

text \<open>What is left of a sequence when only the \<open>k\<close> youngest fit.\<close>

definition youngest :: "nat \<Rightarrow> 'a list \<Rightarrow> 'a list" where
  "youngest k xs = drop (length xs - k) xs"

section \<open>A FIFO that drops its oldest element\<close>

text \<open>
  The contract of such a FIFO: \<open>put\<close> never fails and keeps the youngest elements up to the capacity,
  \<open>get\<close> takes the oldest.
\<close>

locale dropping_fifo =
  fixes ok :: "'q \<Rightarrow> bool"
    and elems :: "'q \<Rightarrow> 'a list"
    and put :: "'a \<Rightarrow> 'q \<Rightarrow> 'q option"
    and get :: "'q \<Rightarrow> ('a \<times> 'q) option option"
    and cap :: nat
  assumes within: "ok q \<Longrightarrow> length (elems q) \<le> cap"
    and put_law: "ok q \<Longrightarrow> \<exists>q'. put x q = Some q' \<and> ok q' \<and> elems q' = youngest cap (elems q @ [x])"
    and get_empty: "ok q \<Longrightarrow> elems q = [] \<Longrightarrow> get q = Some None"
    and get_law: "ok q \<Longrightarrow> elems q = x # xs \<Longrightarrow> \<exists>q'. get q = Some (Some (x, q')) \<and> ok q' \<and> elems q' = xs"
begin

lemma youngest_step: "youngest cap (youngest cap xs @ ys) = youngest cap (xs @ ys)"
  by (cases "length xs \<le> cap") (simp_all add: youngest_def add.commute)

lemma put_all: "ok q \<Longrightarrow> \<exists>q'. foldM put xs q = Some q' \<and> ok q' \<and> elems q' = youngest cap (elems q @ xs)"
proof (induction xs arbitrary: q)
  case Nil
  then show ?case using within by (auto simp: youngest_def)
next
  case (Cons x xs)
  from put_law [OF Cons.prems] obtain q1 where q1: "put x q = Some q1" "ok q1" "elems q1 = youngest cap (elems q @ [x])" by blast
  from Cons.IH [OF q1(2)] obtain q2 where "foldM put xs q1 = Some q2" "ok q2" "elems q2 = youngest cap (elems q1 @ xs)" by blast
  then show ?case using q1 by (simp add: youngest_step)
qed

lemma put_fitting:
  assumes "ok q" "length (elems q @ xs) \<le> cap"
  shows "\<exists>q'. foldM put xs q = Some q' \<and> ok q' \<and> elems q' = elems q @ xs"
  using put_all [OF assms(1), of xs] assms(2) by (simp add: youngest_def)

end

section \<open>The circular buffer\<close>

definition nxt :: "nat \<Rightarrow> nat \<Rightarrow> nat" where
  "nxt n i = (if n \<le> Suc i then 0 else Suc i)"

definition cnt :: "nat \<Rightarrow> nat \<Rightarrow> nat \<Rightarrow> nat" where
  "cnt n g p = (if g \<le> p then p - g else n - (g - p))"

lemma wrap: "g < n \<Longrightarrow> i \<le> n \<Longrightarrow> (g + i) mod n = (if g + i < n then g + i else g + i - n)" for g i n :: nat
  by (auto simp: mod_if)

lemma cnt_end: "g < n \<Longrightarrow> p < n \<Longrightarrow> (g + cnt n g p) mod n = p"
  by (subst wrap) (auto simp: cnt_def)

lemma cnt_inside: "g < n \<Longrightarrow> p < n \<Longrightarrow> i < cnt n g p \<Longrightarrow> (g + i) mod n \<noteq> p"
  by (subst wrap) (auto simp: cnt_def split: if_splits)

lemma cnt_less: "g < n \<Longrightarrow> p < n \<Longrightarrow> cnt n g p < n"
  by (auto simp: cnt_def)

lemma cnt_grow: "g < n \<Longrightarrow> p < n \<Longrightarrow> nxt n p \<noteq> g \<Longrightarrow> cnt n g (nxt n p) = Suc (cnt n g p)"
  by (auto simp: cnt_def nxt_def)

lemma cnt_full: "g < n \<Longrightarrow> p < n \<Longrightarrow> nxt n p = g \<Longrightarrow> cnt n g p = n - 1"
  by (auto simp: cnt_def nxt_def split: if_splits)

lemma cnt_shrink: "g < n \<Longrightarrow> p < n \<Longrightarrow> g \<noteq> p \<Longrightarrow> Suc (cnt n (nxt n g) p) = cnt n g p"
  by (auto simp: cnt_def nxt_def split: if_splits)

lemma cnt_0: "g < n \<Longrightarrow> p < n \<Longrightarrow> cnt n g p = 0 \<longleftrightarrow> g = p"
  by (auto simp: cnt_def)

lemma nxt_less: "i < n \<Longrightarrow> nxt n i < n"
  by (auto simp: nxt_def)

lemma nxt_mod: "g < n \<Longrightarrow> (nxt n g + i) mod n = (g + Suc i) mod n"
proof (cases "n = Suc g")
  case True
  then have "g + Suc i = i + n" by simp
  then show ?thesis using True by (simp only: mod_add_self2) (simp add: nxt_def)
qed (simp add: nxt_def)

definition segment :: "nat \<Rightarrow> nat \<Rightarrow> 'a list \<Rightarrow> nat \<Rightarrow> 'a list" where
  "segment n g buf k = map (\<lambda>i. buf ! ((g + i) mod n)) [0..<k]"

lemma segment_snoc: "segment n g buf (Suc k) = segment n g buf k @ [buf ! ((g + k) mod n)]"
  by (simp add: segment_def)

lemma segment_Cons: "g < n \<Longrightarrow> segment n g buf (Suc k) = buf ! g # segment n (nxt n g) buf k"
  by (simp add: segment_def upt_conv_Cons nxt_mod map_Suc_upt [symmetric] del: upt_Suc map_Suc_upt)

lemma segment_store:
  assumes "g < n" "p < n" "k \<le> cnt n g p"
  shows "segment n g (buf[p := x]) k = segment n g buf k"
proof -
  have "(g + i) mod n \<noteq> p" if "i < k" for i using cnt_inside [OF assms(1,2)] assms(3) that by simp
  then show ?thesis unfolding segment_def by (intro map_cong refl nth_list_update_neq) (metis atLeastLessThan_iff set_upt)
qed

lemma segment_length [simp]: "length (segment n g buf k) = k"
  by (simp add: segment_def)

lemma content_segment: "content n f = segment (unat n) (unat (get_index f)) (buffer f) (rx_length n f)"
  by (simp add: content_def segment_def)

lemma rx_length_cnt: "rx_length n f = cnt (unat n) (unat (get_index f)) (unat (put_index f))"
  by (simp add: rx_length_def cnt_def word_le_nat_alt)

lemma unat_next: "i < n \<Longrightarrow> unat (if n \<le> i + 1 then 0 else i + 1) = nxt (unat n) (unat i)" for i n :: u16
proof -
  assume "i < n"
  then have "Suc (unat i) < 65536" using unat_u16_less [of n] by (simp add: word_less_nat_alt)
  then have "unat (i + 1) = Suc (unat i)" by (simp add: unat_word_ariths)
  then show ?thesis by (simp add: nxt_def word_le_nat_alt)
qed

definition next_index :: "u16 \<Rightarrow> u16 \<Rightarrow> u16" where
  "next_index n i = (if n \<le> i + 1 then 0 else i + 1)"

lemma unat_next_index: "i < n \<Longrightarrow> unat (next_index n i) = nxt (unat n) (unat i)"
  using unat_next [of i n] by (simp add: next_index_def)

lemma next_index_less: "i < n \<Longrightarrow> next_index n i < n"
  using unat_next_index [of i n] nxt_less [of "unat i" "unat n"] by (simp add: word_less_nat_alt)

lemma serial_put_eq:
  assumes "fifo_ok n f"
  shows "serial_put n ch f = Some (f\<lparr>buffer := (buffer f)[unat (put_index f) := ch], put_index := next_index n (put_index f),
    get_index := (if next_index n (put_index f) = get_index f then next_index n (get_index f) else get_index f),
    is_full := (is_full f \<or> next_index n (put_index f) = get_index f)\<rparr>)"
proof -
  have "unat (put_index f) < length (buffer f)" using assms by (simp add: fifo_ok_def word_less_nat_alt)
  then show ?thesis
    by (cases f) (auto simp: serial_put_def Let_def next_index_def)
qed

lemma serial_get_eq:
  assumes "fifo_ok n f" "get_index f \<noteq> put_index f"
  shows "serial_get n f = Some (Some (buffer f ! unat (get_index f), f\<lparr>get_index := next_index n (get_index f), is_full := False\<rparr>))"
proof -
  have "unat (get_index f) < length (buffer f)" using assms by (simp add: fifo_ok_def word_less_nat_alt)
  then show ?thesis using assms(2) by (simp add: serial_get_def Let_def next_index_def)
qed

lemmas index_less = word_less_nat_alt [THEN iffD1]

lemma content_put:
  assumes ok: "fifo_ok n f" and put: "serial_put n ch f = Some f'"
  shows "fifo_ok n f' \<and> content n f' = youngest (unat n - 1) (content n f @ [ch])"
proof -
  let ?n = "unat n" and ?p = "unat (put_index f)" and ?g = "unat (get_index f)"
  have b: "2 \<le> ?n" "length (buffer f) = ?n" and w: "put_index f < n" "get_index f < n" using ok by (auto simp: fifo_ok_def)
  then have pg: "?p < ?n" "?g < ?n" by (auto dest: index_less)
  note f' = put [unfolded serial_put_eq [OF ok], simplified, symmetric]
  have full_iff: "next_index n (put_index f) = get_index f \<longleftrightarrow> nxt ?n ?p = ?g"
    using unat_next_index [OF w(1)] by (auto simp: word_unat_eq_iff)
  have st: "segment ?n ?g ((buffer f)[?p := ch]) (Suc (cnt ?n ?g ?p)) = content n f @ [ch]"
    using pg b by (simp add: segment_snoc segment_store cnt_end content_segment rx_length_cnt)
  show ?thesis
  proof (cases "nxt ?n ?p = ?g")
    case False
    then have "content n f' = content n f @ [ch]"
      using st pg by (simp add: content_segment rx_length_cnt f' full_iff unat_next_index w cnt_grow)
    moreover have "length (content n f) < ?n - 1"
      using False cnt_grow [OF pg(2,1)] cnt_less [OF pg(2) nxt_less [OF pg(1)]] by (simp add: content_segment rx_length_cnt)
    moreover have "fifo_ok n f'" using ok False next_index_less [OF w(1)] by (simp add: fifo_ok_def f' full_iff)
    ultimately show ?thesis by (simp add: youngest_def)
  next
    case True
    have c: "cnt ?n ?g ?p = ?n - 1" using cnt_full [OF pg(2,1) True] .
    have ne: "?g \<noteq> nxt ?n ?g" using b pg by (auto simp: nxt_def)
    let ?B = "(buffer f)[?p := ch]" and ?k = "cnt ?n (nxt ?n ?g) ?g"
    have k: "Suc ?k = ?n" using b pg by (auto simp: cnt_def nxt_def)
    have "?B ! ?g # segment ?n (nxt ?n ?g) ?B ?k = content n f @ [ch]"
      using segment_Cons [OF pg(2), of ?B ?k] st c k by simp
    then have "buffer f' ! ?g # content n f' = content n f @ [ch]"
      using True by (simp add: content_segment rx_length_cnt f' full_iff unat_next_index w)
    then have "content n f' = tl (content n f @ [ch])" by (metis list.sel(3))
    moreover have "length (content n f) = ?n - 1" by (simp add: content_segment rx_length_cnt c)
    moreover {
      have "next_index n (get_index f) \<noteq> get_index f"
        using ne unat_next_index [OF w(2)] by auto
      moreover have full: "next_index n (put_index f) = get_index f" using True full_iff by simp
      ultimately have "fifo_ok n f'" using ok next_index_less [OF w(2)] by (auto simp: fifo_ok_def f')
    }
    ultimately show ?thesis using b by (cases "content n f") (simp_all add: youngest_def drop_Suc)
  qed
qed

lemma content_length: "length (content n f) = rx_length n f"
  by (simp add: content_segment)

lemma content_empty_iff:
  assumes "fifo_ok n f"
  shows "content n f = [] \<longleftrightarrow> get_index f = put_index f"
proof -
  have "unat (get_index f) < unat n" "unat (put_index f) < unat n" using assms by (auto simp: fifo_ok_def dest: index_less)
  from cnt_0 [OF this] have "rx_length n f = 0 \<longleftrightarrow> get_index f = put_index f"
    by (simp add: rx_length_cnt word_unat_eq_iff)
  then show ?thesis by (metis content_length length_0_conv)
qed

lemma content_get:
  assumes ok: "fifo_ok n f" and c: "content n f = ch # bs"
  shows "\<exists>f'. serial_get n f = Some (Some (ch, f')) \<and> fifo_ok n f' \<and> content n f' = bs"
proof -
  let ?n = "unat n" and ?p = "unat (put_index f)" and ?g = "unat (get_index f)"
  have ne: "get_index f \<noteq> put_index f" using content_empty_iff [OF ok] c by auto
  have w: "put_index f < n" "get_index f < n" using ok by (auto simp: fifo_ok_def)
  then have pg: "?p < ?n" "?g < ?n" by (auto dest: index_less)
  let ?f = "f\<lparr>get_index := next_index n (get_index f), is_full := False\<rparr>"
  have "content n f = buffer f ! ?g # content n ?f"
    using segment_Cons [OF pg(2), of "buffer f" "cnt ?n (nxt ?n ?g) ?p"] cnt_shrink [OF pg(2,1)] ne
    by (simp add: content_segment rx_length_cnt unat_next_index w word_unat_eq_iff)
  moreover have "fifo_ok n ?f" using ok next_index_less w by (auto simp: fifo_ok_def)
  ultimately show ?thesis using serial_get_eq [OF ok ne] c by auto
qed

text \<open>The receive FIFO of the driver keeps the contract, with one place less than its buffer has.\<close>

interpretation rx: dropping_fifo "fifo_ok n" "content n" "serial_put n" "serial_get n" "unat n - 1" for n
proof
  fix q x xs
  assume ok: "fifo_ok n q"
  show "length (content n q) \<le> unat n - 1"
    using cnt_less [of "unat (get_index q)" "unat n" "unat (put_index q)"] ok
    by (simp add: content_length rx_length_cnt fifo_ok_def word_less_nat_alt)
  show "\<exists>q'. serial_put n x q = Some q' \<and> fifo_ok n q' \<and> content n q' = youngest (unat n - 1) (content n q @ [x])"
    using content_put [OF ok, of x] serial_put_eq [OF ok, of x] by blast
  show "content n q = [] \<Longrightarrow> serial_get n q = Some None"
    using content_empty_iff [OF ok] ok by (auto simp: serial_get_def fifo_ok_def)
  show "content n q = x # xs \<Longrightarrow> \<exists>q'. serial_get n q = Some (Some (x, q')) \<and> fifo_ok n q' \<and> content n q' = xs"
    using content_get [OF ok] .
qed

lemma int_rx_spec:
  "fifo_ok n f \<Longrightarrow> \<exists>f'. serial_int_rx n k f = Some (take k (content n f), f') \<and> fifo_ok n f' \<and> content n f' = drop k (content n f)"
proof (induction k arbitrary: f)
  case (Suc k)
  show ?case
  proof (cases "content n f")
    case Nil
    then show ?thesis using rx.get_empty [OF Suc.prems] Suc.prems by simp
  next
    case (Cons ch bs)
    from rx.get_law [OF Suc.prems Cons] obtain f1 where
      f1: "serial_get n f = Some (Some (ch, f1))" "fifo_ok n f1" "content n f1 = bs" by blast
    then show ?thesis using Suc.IH [OF f1(2)] Cons by (auto simp: bind_eq_Some_conv)
  qed
qed simp

section \<open>The device\<close>

text \<open>A UART that is open for receiving in interrupt mode, and the characters it has taken in but not handed out.\<close>

definition receiving :: "serial_device \<Rightarrow> bool" where
  "receiving s \<longleftrightarrow> open_flag s AND RT_DEVICE_FLAG_INT_RX \<noteq> 0
     \<and> (case serial_rx s of Some f \<Rightarrow> fifo_ok (bufsz s) f | None \<Rightarrow> False)"

definition backlog :: "serial_device \<Rightarrow> u8 list" where
  "backlog s = (case serial_rx s of Some f \<Rightarrow> content (bufsz s) f | None \<Rightarrow> [])"

lemma receivingE:
  assumes "receiving s"
  obtains f where "serial_rx s = Some f" "fifo_ok (bufsz s) f" "open_flag s AND RT_DEVICE_FLAG_INT_RX \<noteq> 0" "backlog s = content (bufsz s) f"
  using assms by (auto simp: receiving_def backlog_def split: option.splits)

lemma isr_spec:
  assumes "receiving s"
  shows "\<exists>s'. rt_hw_serial_isr s = Some (if has_indicate s \<and> backlog s' \<noteq> [] then Some (length (backlog s')) else None, s')
    \<and> receiving s' \<and> backlog s' = youngest (unat (bufsz s) - 1) (backlog s @ line_in s)
    \<and> bufsz s' = bufsz s \<and> has_indicate s' = has_indicate s"
proof -
  from assms obtain f where f: "serial_rx s = Some f" "fifo_ok (bufsz s) f" "open_flag s AND RT_DEVICE_FLAG_INT_RX \<noteq> 0"
    "backlog s = content (bufsz s) f" by (rule receivingE)
  from rx.put_all [OF f(2), of "line_in s"] obtain f' where
    f': "foldM (serial_put (bufsz s)) (line_in s) f = Some f'" "fifo_ok (bufsz s) f'"
    "content (bufsz s) f' = youngest (unat (bufsz s) - 1) (content (bufsz s) f @ line_in s)" by blast
  then show ?thesis using f
    by (auto simp: rt_hw_serial_isr_def Let_def receiving_def backlog_def simp flip: content_length)
qed

lemma read_spec:
  assumes "receiving s"
  shows "\<exists>s'. rt_serial_read k s = Some (take k (backlog s), s') \<and> receiving s' \<and> backlog s' = drop k (backlog s)
    \<and> bufsz s' = bufsz s \<and> has_indicate s' = has_indicate s"
proof -
  from assms obtain f where f: "serial_rx s = Some f" "fifo_ok (bufsz s) f" "open_flag s AND RT_DEVICE_FLAG_INT_RX \<noteq> 0"
    "backlog s = content (bufsz s) f" by (rule receivingE)
  from int_rx_spec [OF f(2), of k] obtain f' where
    f': "serial_int_rx (bufsz s) k f = Some (take k (content (bufsz s) f), f')" "fifo_ok (bufsz s) f'"
    "content (bufsz s) f' = drop k (content (bufsz s) f)" by blast
  show ?thesis
  proof (cases "k = 0")
    case True
    then show ?thesis using assms by (simp add: rt_serial_read_def)
  next
    case False
    then show ?thesis using f f' by (simp add: rt_serial_read_def receiving_def backlog_def)
  qed
qed

lemma new_fifo_ok: "2 \<le> unat n \<Longrightarrow> fifo_ok n (new_fifo n) \<and> content n (new_fifo n) = []"
  by (simp add: fifo_ok_def new_fifo_def content_def rx_length_def word_less_nat_alt)

lemma dev_flag_bits:
  "v AND RT_DEVICE_FLAG_STANDALONE = 0 \<longleftrightarrow> \<not> bit v 3" "v AND RT_DEVICE_FLAG_ACTIVATED = 0 \<longleftrightarrow> \<not> bit v 4"
  "v AND RT_DEVICE_FLAG_STREAM = 0 \<longleftrightarrow> \<not> bit v 6" "v AND RT_DEVICE_FLAG_INT_RX = 0 \<longleftrightarrow> \<not> bit v 8"
  "v AND RT_DEVICE_FLAG_DMA_RX = 0 \<longleftrightarrow> \<not> bit v 9" "v AND RT_DEVICE_FLAG_INT_TX = 0 \<longleftrightarrow> \<not> bit v 10"
  "v AND RT_DEVICE_FLAG_DMA_TX = 0 \<longleftrightarrow> \<not> bit v 11" "v AND RT_DEVICE_OFLAG_OPEN = 0 \<longleftrightarrow> \<not> bit v 3"
  using and_exp_eq_0_iff_not_bit [of v 3] and_exp_eq_0_iff_not_bit [of v 4] and_exp_eq_0_iff_not_bit [of v 6]
    and_exp_eq_0_iff_not_bit [of v 8] and_exp_eq_0_iff_not_bit [of v 9] and_exp_eq_0_iff_not_bit [of v 10]
    and_exp_eq_0_iff_not_bit [of v 11]
  by (simp_all add: RT_DEVICE_FLAG_STANDALONE_def RT_DEVICE_FLAG_ACTIVATED_def RT_DEVICE_FLAG_STREAM_def
      RT_DEVICE_FLAG_INT_RX_def RT_DEVICE_FLAG_DMA_RX_def RT_DEVICE_FLAG_INT_TX_def RT_DEVICE_FLAG_DMA_TX_def RT_DEVICE_OFLAG_OPEN_def)

lemma bits_of_flags [simp]:
  "bit RT_DEVICE_OFLAG_RDWR k \<longleftrightarrow> k < 2" "bit RT_DEVICE_FLAG_INT_RX k \<longleftrightarrow> k = 8" "bit RT_DEVICE_FLAG_INT_TX k \<longleftrightarrow> k = 10"
  "bit RT_DEVICE_FLAG_ACTIVATED k \<longleftrightarrow> k = 4" "bit RT_DEVICE_FLAG_STREAM k \<longleftrightarrow> k = 6" "bit RT_DEVICE_OFLAG_OPEN k \<longleftrightarrow> k = 3"
proof -
  have p: "bit (2 ^ m :: u16) k \<longleftrightarrow> k = m" if "m < 16" for m using that by (auto simp: bit_exp_iff)
  have m: "(3 :: u16) = mask 2" by (simp add: mask_eq_exp_minus_1)
  show "bit RT_DEVICE_OFLAG_RDWR k \<longleftrightarrow> k < 2" unfolding RT_DEVICE_OFLAG_RDWR_def m by (auto simp: bit_simps)
  show "bit RT_DEVICE_FLAG_INT_RX k \<longleftrightarrow> k = 8" "bit RT_DEVICE_FLAG_INT_TX k \<longleftrightarrow> k = 10" "bit RT_DEVICE_FLAG_ACTIVATED k \<longleftrightarrow> k = 4"
    "bit RT_DEVICE_FLAG_STREAM k \<longleftrightarrow> k = 6" "bit RT_DEVICE_OFLAG_OPEN k \<longleftrightarrow> k = 3"
    using p [of 8] p [of 10] p [of 4] p [of 6] p [of 3]
    by (simp_all add: RT_DEVICE_FLAG_INT_RX_def RT_DEVICE_FLAG_INT_TX_def RT_DEVICE_FLAG_ACTIVATED_def
        RT_DEVICE_FLAG_STREAM_def RT_DEVICE_OFLAG_OPEN_def)
qed

lemma int_rx_nonzero [simp]: "RT_DEVICE_FLAG_INT_RX \<noteq> 0"
  by (simp add: RT_DEVICE_FLAG_INT_RX_def)

text \<open>The Modbus port opens a UART nobody has open yet.\<close>

lemma open_spec:
  assumes "dev_flag s AND RT_DEVICE_FLAG_INT_RX \<noteq> 0" "dev_flag s AND RT_DEVICE_FLAG_ACTIVATED = 0"
    "open_flag s = 0" "ref_count s = 0" "2 \<le> unat (bufsz s)"
  shows "\<exists>s'. rt_device_open (RT_DEVICE_OFLAG_RDWR OR RT_DEVICE_FLAG_INT_RX) s = Some (RT_EOK, s')
    \<and> receiving s' \<and> backlog s' = [] \<and> bufsz s' = bufsz s \<and> open_flag s' AND RT_DEVICE_FLAG_STREAM = 0
    \<and> open_flag s' AND RT_DEVICE_FLAG_INT_TX = 0"
  using assms new_fifo_ok [OF assms(5)]
  by (auto simp: rt_device_open_def rt_serial_open_def rt_serial_init_def Let_def receiving_def backlog_def dev_flag_bits bit_simps)

text \<open>
  Such a UART is not a stream device: no carriage return is put before a byte that happens to be a line
  feed.
\<close>

lemma write_raw:
  assumes "open_flag s AND RT_DEVICE_FLAG_STREAM = 0" "open_flag s AND RT_DEVICE_FLAG_INT_TX = 0"
  shows "\<exists>s'. rt_serial_write data s = Some s' \<and> line_out s' = line_out s @ data"
  using assms by (simp add: rt_serial_write_def serial_poll_tx_def)

lemma demo_uart_opens:
  "\<exists>s. rt_device_open (RT_DEVICE_OFLAG_RDWR OR RT_DEVICE_FLAG_INT_RX) demo_uart = Some (RT_EOK, s)
    \<and> receiving s \<and> backlog s = [] \<and> bufsz s = 64"
  using open_spec [of demo_uart] by (auto simp: demo_uart_def RT_DEVICE_FLAG_INT_RX_def RT_DEVICE_FLAG_ACTIVATED_def)

section \<open>Properties\<close>

text \<open>
  C10: the receive side of the driver is a queue that drops its oldest characters. An interrupt appends all
  characters of the line, of which the youngest \<open>bufsz - 1\<close> stay, and indicates how many there are; a read
  of \<open>k\<close> characters then gives the oldest \<open>k\<close> in order and leaves the rest for the next read.
\<close>

theorem receive_fifo_is_queue:
  assumes "receiving s"
  defines "q \<equiv> youngest (unat (bufsz s) - 1) (backlog s @ line_in s)"
  shows "\<exists>s1 s2. rt_hw_serial_isr s = Some (if has_indicate s \<and> q \<noteq> [] then Some (length q) else None, s1)
    \<and> rt_serial_read k s1 = Some (take k q, s2) \<and> receiving s2 \<and> backlog s2 = drop k q"
proof -
  obtain s1 where s1: "rt_hw_serial_isr s = Some (if has_indicate s \<and> backlog s1 \<noteq> [] then Some (length (backlog s1)) else None, s1)"
    "receiving s1" "backlog s1 = q"
    using isr_spec [OF assms(1)] unfolding q_def by blast
  then show ?thesis using read_spec [OF s1(2), of k] by auto
qed

theorem receive_fifo_is_queue_witness:
  "\<exists>s s1 s2. rt_device_open (RT_DEVICE_OFLAG_RDWR OR RT_DEVICE_FLAG_INT_RX) demo_uart = Some (RT_EOK, s)
    \<and> rt_hw_serial_isr (s\<lparr>line_in := replicate 64 7 @ [8]\<rparr>) = Some (if has_indicate s then Some 63 else None, s1)
    \<and> rt_serial_read 63 s1 = Some (replicate 62 7 @ [8], s2) \<and> backlog s2 = []"
proof -
  obtain s where s: "rt_device_open (RT_DEVICE_OFLAG_RDWR OR RT_DEVICE_FLAG_INT_RX) demo_uart = Some (RT_EOK, s)"
    "receiving s" "backlog s = []" "bufsz s = 64" using demo_uart_opens by blast
  have l: "receiving (s\<lparr>line_in := x\<rparr>)" "backlog (s\<lparr>line_in := x\<rparr>) = []" for x
    using s(2,3) by (simp_all add: receiving_def backlog_def split: option.splits)
  have "youngest 63 (replicate 64 7 @ [8]) = replicate 62 7 @ [8 :: u8]" by (simp add: youngest_def)
  then show ?thesis
    using receive_fifo_is_queue [OF l(1) [of "replicate 64 7 @ [8]"], of 63] s(1,4) l(2) by auto
qed

end
