(* ===== verification/MbSerial.thy ===== *)
theory MbSerial
  imports Serial MbRtu
begin

text \<open>
  The receive path of the Modbus port from the UART interrupt to the framing: \<open>rt_hw_serial_isr\<close> drains
  the line into the FIFO of the driver and calls \<open>serial_rx_ind\<close> of portserial.c once, which takes one
  character out of the FIFO for \<open>xMBRTUReceiveFSM\<close>.
\<close>

section \<open>Definitions\<close>

record modbus_line =
  uart :: serial_device
  fsm :: rtu

text \<open>
  \<open>serial_rx_ind\<close>, that is \<open>prvvUARTRxISR\<close>, with the framing's callback and the one character
  \<open>xMBPortSerialGetByte\<close> reads from the device.
\<close>

definition serial_rx_ind :: "modbus_line \<Rightarrow> modbus_line option" where
  "serial_rx_ind s = do {
     (data, u) \<leftarrow> rt_serial_read 1 (uart s);
     r \<leftarrow> xMBRTUReceiveFSM ((fsm s)\<lparr>port := (port (fsm s))\<lparr>uart_in := data\<rparr>\<rparr>);
     Some (s\<lparr>uart := u, fsm := r\<rparr>)
   }"

text \<open>The UART interrupt when the line gives the characters \<open>bs\<close>.\<close>

definition uart_isr :: "u8 list \<Rightarrow> modbus_line \<Rightarrow> modbus_line option" where
  "uart_isr bs s = do {
     (ind, u) \<leftarrow> rt_hw_serial_isr ((uart s)\<lparr>line_in := bs\<rparr>);
     let s = s\<lparr>uart := u\<rparr>;
     (case ind of Some _ \<Rightarrow> serial_rx_ind s | None \<Rightarrow> Some s)
   }"

text \<open>A line whose UART is open for the port.\<close>

definition line_ok :: "modbus_line \<Rightarrow> bool" where
  "line_ok s \<longleftrightarrow> receiving (uart s) \<and> has_indicate (uart s)"

section \<open>One character per interrupt call\<close>

lemma receiving_line_in [simp]: "receiving (u\<lparr>line_in := x\<rparr>) = receiving u" "backlog (u\<lparr>line_in := x\<rparr>) = backlog u"
  by (simp_all add: receiving_def backlog_def split: option.splits)

lemma uart_isr_spec:
  assumes "line_ok s" and q: "backlog (uart s) @ bs = b # q" "length (b # q) < unat (bufsz (uart s))"
    and r: "receive_char b (fsm s) = Some r"
  shows "\<exists>s'. uart_isr bs s = Some s' \<and> line_ok s' \<and> fsm s' = r \<and> backlog (uart s') = q \<and> bufsz (uart s') = bufsz (uart s)"
proof -
  let ?u = "(uart s)\<lparr>line_in := bs\<rparr>"
  have ok: "receiving ?u" "has_indicate ?u" using assms(1) by (auto simp: line_ok_def)
  obtain u1 where u1: "rt_hw_serial_isr ?u = Some (if has_indicate ?u \<and> backlog u1 \<noteq> [] then Some (length (backlog u1)) else None, u1)"
    "receiving u1" "backlog u1 = youngest (unat (bufsz ?u) - 1) (backlog ?u @ line_in ?u)" "bufsz u1 = bufsz ?u" "has_indicate u1 = has_indicate ?u"
    using isr_spec [OF ok(1)] by blast
  have b1: "backlog u1 = b # q" using u1(3) q by (simp add: youngest_def)
  obtain u2 where u2: "rt_serial_read 1 u1 = Some (take 1 (backlog u1), u2)" "receiving u2" "backlog u2 = drop 1 (backlog u1)"
    "bufsz u2 = bufsz u1" "has_indicate u2 = has_indicate u1"
    using read_spec [OF u1(2)] by blast
  have "serial_rx_ind (s\<lparr>uart := u1\<rparr>) = Some (s\<lparr>uart := u2, fsm := r\<rparr>)"
    using u2(1) r by (simp add: serial_rx_ind_def receive_char_def b1)
  then have "uart_isr bs s = Some (s\<lparr>uart := u2, fsm := r\<rparr>)"
    using u1(1) ok b1 by (simp add: uart_isr_def)
  then show ?thesis using u1(4,5) u2 b1 ok by (simp add: line_ok_def)
qed

text \<open>With a backlog the framing gets the characters of the line late, by the length of the backlog.\<close>

lemma lagging_run:
  assumes "line_ok s" "length (backlog (uart s)) + 1 < unat (bufsz (uart s))"
    and "foldM receive_char (take (length bs) (backlog (uart s) @ bs)) (fsm s) = Some r"
  shows "\<exists>s'. foldM uart_isr (map (\<lambda>b. [b]) bs) s = Some s' \<and> line_ok s' \<and> fsm s' = r
    \<and> backlog (uart s') = drop (length bs) (backlog (uart s) @ bs) \<and> bufsz (uart s') = bufsz (uart s)"
  using assms
proof (induction bs arbitrary: s)
  case (Cons b bs)
  obtain c q where cq: "backlog (uart s) @ [b] = c # q" by (cases "backlog (uart s) @ [b]") auto
  have all: "backlog (uart s) @ b # bs = c # q @ bs" using cq by (metis append.assoc append_Cons append_Nil)
  have len: "length q = length (backlog (uart s))" using cq by (metis length_append_singleton length_Cons nat.inject)
  obtain r1 where r1: "receive_char c (fsm s) = Some r1" "foldM receive_char (take (length bs) (q @ bs)) r1 = Some r"
    using Cons.prems(3) by (auto simp: all bind_eq_Some_conv)
  obtain s1 where s1: "uart_isr [b] s = Some s1" "line_ok s1" "fsm s1 = r1" "backlog (uart s1) = q" "bufsz (uart s1) = bufsz (uart s)"
    using uart_isr_spec [OF Cons.prems(1) cq _ r1(1)] Cons.prems(2) len by auto
  from Cons.IH [of s1] show ?case using s1 r1(2) Cons.prems(2) len by (simp add: all)
qed simp

lemma opened_line:
  assumes "rt_device_open (RT_DEVICE_OFLAG_RDWR OR RT_DEVICE_FLAG_INT_RX) demo_uart = Some (RT_EOK, u)"
  shows "line_ok \<lparr>uart = rt_device_set_rx_indicate True u, fsm = r\<rparr>"
    "backlog (rt_device_set_rx_indicate True u) = []" "bufsz (rt_device_set_rx_indicate True u) = 64"
proof -
  have "receiving (u\<lparr>has_indicate := True\<rparr>) = receiving u" "backlog (u\<lparr>has_indicate := True\<rparr>) = backlog u"
    by (simp_all add: receiving_def backlog_def split: option.splits)
  then show "line_ok \<lparr>uart = rt_device_set_rx_indicate True u, fsm = r\<rparr>"
    "backlog (rt_device_set_rx_indicate True u) = []" "bufsz (rt_device_set_rx_indicate True u) = 64"
    using demo_uart_opens assms by (auto simp: rt_device_set_rx_indicate_def line_ok_def)
qed

section \<open>Properties\<close>

text \<open>
  C11: as long as every interrupt finds one character, the driver is transparent for the framing. From an
  empty FIFO, the interrupts for the characters \<open>bs\<close> do to the framing what receiving these characters
  one by one does, whatever the number of characters is, and leave the FIFO empty.
\<close>

theorem uart_feeds_framing:
  assumes "line_ok s" "backlog (uart s) = []" "2 \<le> unat (bufsz (uart s))"
    and "foldM receive_char bs (fsm s) = Some r"
  shows "\<exists>s'. foldM uart_isr (map (\<lambda>b. [b]) bs) s = Some s' \<and> fsm s' = r \<and> line_ok s' \<and> backlog (uart s') = []"
  using lagging_run [of s bs r] assms by auto

theorem uart_feeds_framing_witness:
  "\<exists>u s'. rt_device_open (RT_DEVICE_OFLAG_RDWR OR RT_DEVICE_FLAG_INT_RX) demo_uart = Some (RT_EOK, u)
    \<and> foldM uart_isr [[17], [3]] \<lparr>uart = rt_device_set_rx_indicate True u, fsm = demo_rtu\<lparr>eRcvState := STATE_RX_IDLE\<rparr>\<rparr> = Some s'
    \<and> usRcvBufferPos (fsm s') = 2 \<and> take 2 (ucRTUBuf (fsm s')) = [17, 3]"
proof -
  let ?r = "demo_rtu\<lparr>eRcvState := STATE_RX_IDLE\<rparr>"
  obtain u where u: "rt_device_open (RT_DEVICE_OFLAG_RDWR OR RT_DEVICE_FLAG_INT_RX) demo_uart = Some (RT_EOK, u)"
    using demo_uart_opens by blast
  have "replicate 256 0 = 0 # 0 # replicate 254 (0 :: u8)" by (simp flip: replicate_Suc)
  then have "take (Suc (Suc 0)) ((replicate 256 0)[0 := 17, Suc 0 := 3]) = [17, 3 :: u8]" by (simp only: list_update_code take_Suc_Cons take_0)
  then obtain r where r: "foldM receive_char [17, 3] ?r = Some r" "usRcvBufferPos r = 2" "take 2 (ucRTUBuf r) = [17, 3]"
    by (simp add: receive_char_def xMBRTUReceiveFSM_def demo_rtu_def xMBPortSerialGetByte_def vMBPortTimersEnable_def
        MB_SER_PDU_SIZE_MAX_def numeral_2_eq_2)
  show ?thesis
    using uart_feeds_framing [of "\<lparr>uart = rt_device_set_rx_indicate True u, fsm = ?r\<rparr>" "[17, 3]" r] opened_line [OF u] u r
    by auto
qed

text \<open>
  C19: one interrupt that finds two characters delays all traffic from then on. The indication function is
  called once for both and takes one; the other one stays in the FIFO, and every later interrupt takes
  the character that came before its own. The last character of a request \<open>bs\<close> is not received before
  the next request begins, however long the line is silent.
\<close>

theorem burst_delays_all_frames:
  assumes "line_ok s" "backlog (uart s) = []" "4 \<le> unat (bufsz (uart s))" "bs \<noteq> []"
    and "foldM receive_char (a # b # butlast bs) (fsm s) = Some r"
  shows "\<exists>s'. foldM uart_isr ([a, b] # map (\<lambda>b. [b]) bs) s = Some s' \<and> fsm s' = r \<and> backlog (uart s') = [last bs]"
proof -
  obtain r1 where r1: "receive_char a (fsm s) = Some r1" "foldM receive_char (b # butlast bs) r1 = Some r"
    using assms(5) by (auto simp: bind_eq_Some_conv)
  obtain s1 where s1: "uart_isr [a, b] s = Some s1" "line_ok s1" "fsm s1 = r1" "backlog (uart s1) = [b]" "bufsz (uart s1) = bufsz (uart s)"
    using uart_isr_spec [of s "[a, b]" a "[b]" r1] assms(1-3) r1(1) by auto
  have "take (length bs) (b # bs) = b # butlast bs" "drop (length bs) (b # bs) = [last bs]"
    using assms(4) by (induction bs arbitrary: b) auto
  then show ?thesis using lagging_run [OF s1(2), of bs r] s1 r1(2) assms(3) by auto
qed

theorem burst_delays_all_frames_witness:
  "\<exists>u s'. rt_device_open (RT_DEVICE_OFLAG_RDWR OR RT_DEVICE_FLAG_INT_RX) demo_uart = Some (RT_EOK, u)
    \<and> foldM uart_isr [[17, 3], [0], [9]] \<lparr>uart = rt_device_set_rx_indicate True u, fsm = demo_rtu\<lparr>eRcvState := STATE_RX_IDLE\<rparr>\<rparr> = Some s'
    \<and> usRcvBufferPos (fsm s') = 3 \<and> backlog (uart s') = [9]"
proof -
  let ?r = "demo_rtu\<lparr>eRcvState := STATE_RX_IDLE\<rparr>"
  obtain u where u: "rt_device_open (RT_DEVICE_OFLAG_RDWR OR RT_DEVICE_FLAG_INT_RX) demo_uart = Some (RT_EOK, u)"
    using demo_uart_opens by blast
  obtain r where r: "foldM receive_char [17, 3, 0] ?r = Some r" "usRcvBufferPos r = 3"
    by (simp add: receive_char_def xMBRTUReceiveFSM_def demo_rtu_def xMBPortSerialGetByte_def vMBPortTimersEnable_def
        MB_SER_PDU_SIZE_MAX_def)
  show ?thesis
    using burst_delays_all_frames [of "\<lparr>uart = rt_device_set_rx_indicate True u, fsm = ?r\<rparr>" "[0, 9]" 17 3 r] opened_line [OF u] u r
    by auto
qed

end
