(* ===== verification/KTimer.thy ===== *)
theory KTimer
  imports Prelude
begin

text \<open>
  src/timer.c and src/clock.c: the kernel's tick counter and its hard timers. A timer object is found by
  its address, a natural number; \<open>rt_timer_list\<close> is the list of the started timers (with one skip list
  level, as configured, it is an ordinary list). The state record is extensible, so that the timeout
  functions can act on the state of their owners; calling a function pointer is the parameter \<open>call\<close>.
  The tick counter wraps, and all comparisons of ticks are differences modulo \<open>2 ^ 32\<close>.
\<close>

section \<open>Definitions\<close>

definition RT_TICK_MAX :: u32 where "RT_TICK_MAX = 0xFFFFFFFF"

definition RT_TIMER_FLAG_ACTIVATED :: u8 where "RT_TIMER_FLAG_ACTIVATED = 0x1"
definition RT_TIMER_FLAG_PERIODIC :: u8 where "RT_TIMER_FLAG_PERIODIC = 0x2"

record rt_timer =
  tm_flag :: u8
  timeout_func :: nat
  tm_parameter :: nat
  init_tick :: u32
  timeout_tick :: u32

record ktimers =
  objs :: "nat \<Rightarrow> rt_timer"
  rt_timer_list :: "nat list"
  rt_tick :: u32
  remaining_tick :: u32
  thread_init_tick :: u32
  yielded :: bool

type_synonym 'a callback = "nat \<Rightarrow> nat \<Rightarrow> 'a ktimers_scheme \<Rightarrow> 'a ktimers_scheme option"

definition rt_tick_get :: "'a ktimers_scheme \<Rightarrow> u32" where
  "rt_tick_get s = rt_tick s"

definition rt_tick_set :: "u32 \<Rightarrow> 'a ktimers_scheme \<Rightarrow> 'a ktimers_scheme" where
  "rt_tick_set tick s = s\<lparr>rt_tick := tick\<rparr>"

text \<open>The result is computed in \<open>int\<close> and stored in a \<open>rt_tick_t\<close>.\<close>

definition rt_tick_from_millisecond :: "int \<Rightarrow> u32" where
  "rt_tick_from_millisecond ms =
     (if ms < 0 then - 1
      else of_int (1000 * (ms div 1000)) + of_int ((1000 * (ms mod 1000) + 999) div 1000))"

text \<open>Initialising the list node of a timer that is in the list would break the list.\<close>

definition rt_timer_init :: "nat \<Rightarrow> nat \<Rightarrow> nat \<Rightarrow> u32 \<Rightarrow> u8 \<Rightarrow> 'a ktimers_scheme \<Rightarrow> 'a ktimers_scheme option" where
  "rt_timer_init timer timeout parameter time flag s = do {
     c_assert (timer \<notin> set (rt_timer_list s));
     Some (s\<lparr>objs := (objs s)(timer := \<lparr>tm_flag = flag AND NOT RT_TIMER_FLAG_ACTIVATED, timeout_func = timeout,
        tm_parameter = parameter, init_tick = time, timeout_tick = 0\<rparr>)\<rparr>)
   }"

definition rt_timer_remove :: "nat \<Rightarrow> 'a ktimers_scheme \<Rightarrow> 'a ktimers_scheme" where
  "rt_timer_remove timer s = s\<lparr>rt_timer_list := filter (\<lambda>t. t \<noteq> timer) (rt_timer_list s)\<rparr>"

definition set_flag :: "(u8 \<Rightarrow> u8) \<Rightarrow> nat \<Rightarrow> 'a ktimers_scheme \<Rightarrow> 'a ktimers_scheme" where
  "set_flag f timer s = s\<lparr>objs := (objs s)(timer := (objs s timer)\<lparr>tm_flag := f (tm_flag (objs s timer))\<rparr>)\<rparr>"

definition rt_timer_detach :: "nat \<Rightarrow> 'a ktimers_scheme \<Rightarrow> 'a ktimers_scheme" where
  "rt_timer_detach timer s = rt_timer_remove timer s"

text \<open>The walk along the list: the new timer goes before the first one that expires later.\<close>

primrec insert_timer :: "(nat \<Rightarrow> rt_timer) \<Rightarrow> nat \<Rightarrow> nat list \<Rightarrow> nat list" where
  "insert_timer m timer [] = [timer]"
| "insert_timer m timer (t # ts) =
     (if timeout_tick (m t) - timeout_tick (m timer) = 0 then t # insert_timer m timer ts
      else if timeout_tick (m t) - timeout_tick (m timer) < RT_TICK_MAX div 2 then timer # t # ts
      else t # insert_timer m timer ts)"

definition rt_timer_start :: "nat \<Rightarrow> 'a ktimers_scheme \<Rightarrow> 'a ktimers_scheme option" where
  "rt_timer_start timer s = do {
     let s = rt_timer_remove timer s;
     let s = set_flag (\<lambda>f. f AND NOT RT_TIMER_FLAG_ACTIVATED) timer s;
     c_assert (init_tick (objs s timer) < RT_TICK_MAX div 2);
     let s = s\<lparr>objs := (objs s)(timer := (objs s timer)\<lparr>timeout_tick := rt_tick_get s + init_tick (objs s timer)\<rparr>)\<rparr>;
     let s = s\<lparr>rt_timer_list := insert_timer (objs s) timer (rt_timer_list s)\<rparr>;
     Some (set_flag (\<lambda>f. f OR RT_TIMER_FLAG_ACTIVATED) timer s)
   }"

text \<open>The result is \<open>False\<close> for \<open>-RT_ERROR\<close>.\<close>

definition rt_timer_stop :: "nat \<Rightarrow> 'a ktimers_scheme \<Rightarrow> bool \<times> 'a ktimers_scheme" where
  "rt_timer_stop timer s =
     (if tm_flag (objs s timer) AND RT_TIMER_FLAG_ACTIVATED = 0 then (False, s)
      else (True, set_flag (\<lambda>f. f AND NOT RT_TIMER_FLAG_ACTIVATED) timer (rt_timer_remove timer s)))"

datatype timer_cmd = RT_TIMER_CTRL_GET_TIME | RT_TIMER_CTRL_SET_TIME | RT_TIMER_CTRL_SET_ONESHOT | RT_TIMER_CTRL_SET_PERIODIC

definition rt_timer_control :: "nat \<Rightarrow> timer_cmd \<Rightarrow> u32 \<Rightarrow> 'a ktimers_scheme \<Rightarrow> u32 \<times> 'a ktimers_scheme" where
  "rt_timer_control timer cmd arg s = (case cmd of
     RT_TIMER_CTRL_GET_TIME \<Rightarrow> (init_tick (objs s timer), s)
   | RT_TIMER_CTRL_SET_TIME \<Rightarrow> (arg, s\<lparr>objs := (objs s)(timer := (objs s timer)\<lparr>init_tick := arg\<rparr>)\<rparr>)
   | RT_TIMER_CTRL_SET_ONESHOT \<Rightarrow> (arg, set_flag (\<lambda>f. f AND NOT RT_TIMER_FLAG_PERIODIC) timer s)
   | RT_TIMER_CTRL_SET_PERIODIC \<Rightarrow> (arg, set_flag (\<lambda>f. f OR RT_TIMER_FLAG_PERIODIC) timer s))"

text \<open>The end of a round of \<open>rt_timer_check\<close>: a periodic timer that is still active starts again.\<close>

definition rearm :: "nat \<Rightarrow> 'a ktimers_scheme \<Rightarrow> 'a ktimers_scheme option" where
  "rearm t s =
     (if tm_flag (objs s t) AND RT_TIMER_FLAG_PERIODIC \<noteq> 0 \<and> tm_flag (objs s t) AND RT_TIMER_FLAG_ACTIVATED \<noteq> 0
      then rt_timer_start t (set_flag (\<lambda>f. f AND NOT RT_TIMER_FLAG_ACTIVATED) t s)
      else Some (set_flag (\<lambda>f. f AND NOT RT_TIMER_FLAG_ACTIVATED) t s))"

text \<open>
  The loop of \<open>rt_timer_check\<close>. It need not end: a periodic timer of zero ticks is due again at once.
\<close>

partial_function (option) timer_check_loop :: "'a callback \<Rightarrow> u32 \<Rightarrow> 'a ktimers_scheme \<Rightarrow> 'a ktimers_scheme option" where
  "timer_check_loop call current_tick s =
     (case rt_timer_list s of
        [] \<Rightarrow> Some s
      | t # _ \<Rightarrow>
          if current_tick - timeout_tick (objs s t) < RT_TICK_MAX div 2 then do {
            s \<leftarrow> call (timeout_func (objs s t)) (tm_parameter (objs s t)) (rt_timer_remove t s);
            let current_tick = rt_tick_get s;
            s \<leftarrow> rearm t s;
            timer_check_loop call current_tick s
          } else Some s)"

definition rt_timer_check :: "'a callback \<Rightarrow> 'a ktimers_scheme \<Rightarrow> 'a ktimers_scheme option" where
  "rt_timer_check call s = timer_check_loop call (rt_tick_get s) s"

definition rt_timer_next_timeout_tick :: "'a ktimers_scheme \<Rightarrow> u32" where
  "rt_timer_next_timeout_tick s = (case rt_timer_list s of [] \<Rightarrow> RT_TICK_MAX | t # _ \<Rightarrow> timeout_tick (objs s t))"

definition rt_system_timer_init :: "'a ktimers_scheme \<Rightarrow> 'a ktimers_scheme" where
  "rt_system_timer_init s = s\<lparr>rt_timer_list := []\<rparr>"

text \<open>\<open>rt_thread_yield\<close> of the running thread is recorded in \<open>yielded\<close>.\<close>

definition rt_tick_increase :: "'a callback \<Rightarrow> 'a ktimers_scheme \<Rightarrow> 'a ktimers_scheme option" where
  "rt_tick_increase call s = do {
     let s = s\<lparr>rt_tick := rt_tick s + 1\<rparr>;
     let s = s\<lparr>remaining_tick := remaining_tick s - 1\<rparr>;
     let s = (if remaining_tick s = 0 then s\<lparr>remaining_tick := thread_init_tick s, yielded := True\<rparr> else s);
     rt_timer_check call s
   }"

text \<open>The ticks left until a timer is due.\<close>

definition rest :: "'a ktimers_scheme \<Rightarrow> nat \<Rightarrow> nat" where
  "rest s t = unat (timeout_tick (objs s t) - rt_tick s)"

text \<open>
  The order of the timer list: nobody is in it twice, everybody in it is active, and the ticks left
  ascend and stay below half the range of the counter.
\<close>

definition armed :: "rt_timer \<Rightarrow> bool" where
  "armed t \<longleftrightarrow> tm_flag t AND RT_TIMER_FLAG_ACTIVATED \<noteq> 0 \<and> 0 < init_tick t \<and> init_tick t < RT_TICK_MAX div 2"

definition list_ok :: "'a ktimers_scheme \<Rightarrow> bool" where
  "list_ok s \<longleftrightarrow> distinct (rt_timer_list s) \<and> sorted (map (rest s) (rt_timer_list s))
     \<and> (\<forall>t \<in> set (rt_timer_list s). rest s t < 0x7FFFFFFF \<and> armed (objs s t))"

text \<open>Between two ticks nobody in the list is due.\<close>

definition timers_ok :: "'a ktimers_scheme \<Rightarrow> bool" where
  "timers_ok s \<longleftrightarrow> list_ok s \<and> (\<forall>t \<in> set (rt_timer_list s). 0 < rest s t)"

text \<open>
  What the kernel relies on in a timeout function: it returns, leaves the tick counter and all other
  timers alone, and at most stops its own timer.
\<close>

definition tame :: "'a callback \<Rightarrow> bool" where
  "tame call \<longleftrightarrow> (\<forall>t s. \<exists>s'. call (timeout_func (objs s t)) (tm_parameter (objs s t)) s = Some s'
     \<and> rt_timer_list s' = rt_timer_list s \<and> rt_tick s' = rt_tick s
     \<and> (\<forall>u. u \<noteq> t \<longrightarrow> objs s' u = objs s u)
     \<and> (objs s' t = objs s t \<or> objs s' t = (objs s t)\<lparr>tm_flag := tm_flag (objs s t) AND NOT RT_TIMER_FLAG_ACTIVATED\<rparr>))"

text \<open>The timers that are due, and what becomes of one that was.\<close>

definition due :: "'a ktimers_scheme \<Rightarrow> nat set" where
  "due s = {t \<in> set (rt_timer_list s). rest s t = 0}"

definition served :: "'a ktimers_scheme \<Rightarrow> 'a ktimers_scheme \<Rightarrow> nat \<Rightarrow> bool" where
  "served s s' t \<longleftrightarrow> timeout_func (objs s' t) = timeout_func (objs s t)
     \<and> (if t \<in> set (rt_timer_list s')
      then tm_flag (objs s t) AND RT_TIMER_FLAG_PERIODIC \<noteq> 0 \<and> rest s' t = unat (init_tick (objs s t))
        \<and> objs s' t = (objs s t)\<lparr>timeout_tick := rt_tick s + init_tick (objs s t), tm_flag := tm_flag (objs s t) OR RT_TIMER_FLAG_ACTIVATED\<rparr>
      else tm_flag (objs s' t) AND RT_TIMER_FLAG_ACTIVATED = 0)"

text \<open>The counter has moved on, the timers have not been checked yet.\<close>

definition ticked :: "'a ktimers_scheme \<Rightarrow> 'a ktimers_scheme" where
  "ticked s = (let s = s\<lparr>rt_tick := rt_tick s + 1, remaining_tick := remaining_tick s - 1\<rparr>
     in if remaining_tick s = 0 then s\<lparr>remaining_tick := thread_init_tick s, yielded := True\<rparr> else s)"

text \<open>A system with one periodic timer of five ticks that is due at the next tick.\<close>

definition demo_timers :: ktimers where
  "demo_timers = \<lparr>objs = (\<lambda>_. \<lparr>tm_flag = 3, timeout_func = 0, tm_parameter = 0, init_tick = 5, timeout_tick = 0\<rparr>),
     rt_timer_list = [7], rt_tick = 0xFFFFFFFF, remaining_tick = 3, thread_init_tick = 5, yielded = False\<rparr>"

section \<open>Order of the list\<close>

lemma half: "RT_TICK_MAX div 2 = 0x7FFFFFFF"
  by (simp add: RT_TICK_MAX_def)

lemma insert_timer_set [simp]: "set (insert_timer m t ts) = insert t (set ts)"
  by (induction ts) auto

lemma insert_timer_distinct: "t \<notin> set ts \<Longrightarrow> distinct ts \<Longrightarrow> distinct (insert_timer m t ts)"
  by (induction ts) auto

text \<open>The comparison of two timeouts is that of the ticks left.\<close>

lemma diff_sub: "(a :: u32) - b = (a - c) - (b - c)"
  by simp

lemma later_iff:
  fixes a b now :: u32
  assumes "unat (a - now) < 0x7FFFFFFF" "unat (b - now) < 0x7FFFFFFF"
  shows "a - b \<noteq> 0 \<and> a - b < 0x7FFFFFFF \<longleftrightarrow> unat (b - now) < unat (a - now)"
proof -
  define x y where "x = a - now" and "y = b - now"
  have ab: "a - b = x - y" by (simp add: x_def y_def)
  have xy: "unat x < 0x7FFFFFFF" "unat y < 0x7FFFFFFF" using assms by (simp_all add: x_def y_def)
  have d: "unat (x - y) = (if unat y \<le> unat x then unat x - unat y else unat x + 4294967296 - unat y)"
    using unat_sub_if' [of x y] by simp
  have 0: "x - y = 0 \<longleftrightarrow> unat (x - y) = 0" by (simp only: unat_eq_0)
  have 1: "x - y < 0x7FFFFFFF \<longleftrightarrow> unat (x - y) < 0x7FFFFFFF" by (simp only: word_less_nat_alt) simp
  have "x - y \<noteq> 0 \<and> x - y < 0x7FFFFFFF \<longleftrightarrow> unat y < unat x"
  proof (cases "unat y \<le> unat x")
    case True
    then have "unat (x - y) = unat x - unat y" using d by simp
    then show ?thesis unfolding 0 1 using True xy(1) by linarith
  next
    case False
    then have "unat (x - y) = unat x + 4294967296 - unat y" using d by simp
    then have "\<not> unat (x - y) < 0x7FFFFFFF" using xy(2) by linarith
    then show ?thesis unfolding 1 using False by linarith
  qed
  then show ?thesis by (simp only: ab flip: x_def y_def)
qed

lemma insert_timer_sorted:
  assumes "sorted (map r ts)" "\<And>u. r u = unat (timeout_tick (m u) - now)" "r t < 0x7FFFFFFF"
    and "\<forall>u \<in> set ts. r u < 0x7FFFFFFF"
  shows "sorted (map r (insert_timer m t ts))"
  using assms(1,4)
proof (induction ts)
  case (Cons u ts)
  have *: "timeout_tick (m u) - timeout_tick (m t) \<noteq> 0 \<and> timeout_tick (m u) - timeout_tick (m t) < 0x7FFFFFFF
      \<longleftrightarrow> r t < r u"
    using later_iff [of "timeout_tick (m u)" now "timeout_tick (m t)"] assms(2,3) Cons.prems(2) by simp
  show ?case
  proof (cases "r t < r u")
    case True
    with * Cons.prems show ?thesis by (auto simp: half)
  next
    case False
    then have "insert_timer m t (u # ts) = u # insert_timer m t ts" using * by (auto simp: half)
    with False Cons show ?thesis by auto
  qed
qed simp


section \<open>Starting and stopping\<close>

lemma flag_bits:
  fixes f :: u8
  shows "(f OR RT_TIMER_FLAG_ACTIVATED) AND RT_TIMER_FLAG_ACTIVATED \<noteq> 0"
    "(f AND NOT RT_TIMER_FLAG_ACTIVATED) AND RT_TIMER_FLAG_ACTIVATED = 0"
    "(f OR RT_TIMER_FLAG_ACTIVATED) AND RT_TIMER_FLAG_PERIODIC = f AND RT_TIMER_FLAG_PERIODIC"
    "(f AND NOT RT_TIMER_FLAG_ACTIVATED) AND RT_TIMER_FLAG_PERIODIC = f AND RT_TIMER_FLAG_PERIODIC"
    "(f AND NOT RT_TIMER_FLAG_ACTIVATED) OR RT_TIMER_FLAG_ACTIVATED = f OR RT_TIMER_FLAG_ACTIVATED"
    "RT_TIMER_FLAG_ACTIVATED \<noteq> 0"
  by (simp_all add: RT_TIMER_FLAG_ACTIVATED_def RT_TIMER_FLAG_PERIODIC_def bit.conj_disj_distrib2 and.assoc)
    (simp add: bit.disj_conj_distrib2)?

text \<open>A start arms the timer for its period and keeps the order of the others.\<close>

lemma rt_timer_start_spec:
  assumes "0 < init_tick (objs s t)" "init_tick (objs s t) < RT_TICK_MAX div 2" "list_ok (rt_timer_remove t s)"
  shows "\<exists>s'. rt_timer_start t s = Some s' \<and> list_ok s' \<and> set (rt_timer_list s') = insert t (set (rt_timer_list s))
    \<and> rest s' t = unat (init_tick (objs s t)) \<and> rt_tick s' = rt_tick s \<and> more s' = more s
    \<and> objs s' t = (objs s t)\<lparr>timeout_tick := rt_tick s + init_tick (objs s t), tm_flag := tm_flag (objs s t) OR RT_TIMER_FLAG_ACTIVATED\<rparr>
    \<and> (\<forall>u. u \<noteq> t \<longrightarrow> objs s' u = objs s u \<and> rest s' u = rest s u)"
proof -
  let ?m = "(objs s)(t := (objs s t)\<lparr>tm_flag := tm_flag (objs s t) AND NOT RT_TIMER_FLAG_ACTIVATED,
      timeout_tick := rt_tick s + init_tick (objs s t)\<rparr>)"
  let ?m' = "(objs s)(t := (objs s t)\<lparr>timeout_tick := rt_tick s + init_tick (objs s t),
      tm_flag := tm_flag (objs s t) OR RT_TIMER_FLAG_ACTIVATED\<rparr>)"
  let ?l = "filter (\<lambda>u. u \<noteq> t) (rt_timer_list s)"
  let ?s = "s\<lparr>rt_timer_list := insert_timer ?m t ?l, objs := ?m'\<rparr>"
  have st: "rt_timer_start t s = Some ?s"
    using assms(2) by (simp add: rt_timer_start_def rt_timer_remove_def set_flag_def rt_tick_get_def flag_bits Let_def)
  let ?r = "\<lambda>u. unat (timeout_tick (?m u) - rt_tick s)"
  have r: "rest ?s = ?r" by (auto simp: rest_def)
  have old: "u \<in> set ?l \<Longrightarrow> ?r u = rest (rt_timer_remove t s) u" for u by (simp add: rest_def rt_timer_remove_def)
  have l: "distinct ?l" "sorted (map (rest (rt_timer_remove t s)) ?l)"
    "\<forall>u \<in> set ?l. rest (rt_timer_remove t s) u < 0x7FFFFFFF \<and> armed (objs s u)"
    using assms(3) by (simp_all add: list_ok_def rt_timer_remove_def)
  have rt: "?r t = unat (init_tick (objs s t))" "unat (init_tick (objs s t)) < 0x7FFFFFFF"
    using assms(2) by (simp_all add: half word_less_nat_alt)
  have "map ?r ?l = map (rest (rt_timer_remove t s)) ?l" by (rule map_cong [OF refl old])
  then have "sorted (map ?r ?l)" using l(2) by (simp only:)
  moreover have "\<forall>u \<in> set ?l. ?r u < 0x7FFFFFFF" using l(3) old by simp
  ultimately have "sorted (map ?r (insert_timer ?m t ?l))"
    using rt by (intro insert_timer_sorted [where now = "rt_tick s"]) auto
  moreover have "distinct (insert_timer ?m t ?l)" using l(1) by (intro insert_timer_distinct) auto
  moreover have "rest ?s u < 0x7FFFFFFF \<and> armed (?m' u)" if "u \<in> set (insert_timer ?m t ?l)" for u
    using that l(3) old rt r assms(1,2) by (auto simp: armed_def flag_bits half)
  ultimately have "list_ok ?s" by (simp add: list_ok_def r)
  moreover have "\<forall>u. u \<noteq> t \<longrightarrow> rest ?s u = rest s u" by (simp add: rest_def)
  ultimately show ?thesis using st rt(1) r by (auto intro!: exI [of _ ?s])
qed


text \<open>Restricting the list keeps its order.\<close>

lemma remove_simps [simp]:
  "rest (rt_timer_remove t s) = rest s" "objs (rt_timer_remove t s) = objs s" "rt_tick (rt_timer_remove t s) = rt_tick s"
  "rt_timer_list (rt_timer_remove t s) = filter (\<lambda>u. u \<noteq> t) (rt_timer_list s)"
  by (auto simp: rt_timer_remove_def rest_def)

lemma list_ok_remove: "list_ok s \<Longrightarrow> list_ok (rt_timer_remove t s)"
  by (simp add: list_ok_def sorted_filter)

lemma list_ok_other:
  assumes "list_ok s" "rt_timer_list s' = rt_timer_list s" "rt_tick s' = rt_tick s"
    "\<And>u. u \<in> set (rt_timer_list s) \<Longrightarrow> objs s' u = objs s u"
  shows "list_ok s'"
proof -
  have r: "rest s' u = rest s u" if "u \<in> set (rt_timer_list s)" for u using assms(3,4) that by (simp add: rest_def)
  then have m: "map (rest s') (rt_timer_list s) = map (rest s) (rt_timer_list s)" by simp
  have "sorted (map (rest s') (rt_timer_list s))" unfolding m using assms(1) by (simp add: list_ok_def)
  with assms(1) r show ?thesis by (simp add: list_ok_def assms(2,4))
qed

lemma rt_timer_stop_ok: "timers_ok s \<Longrightarrow> timers_ok (snd (rt_timer_stop t s))"
proof -
  assume s: "timers_ok s"
  let ?r = "rt_timer_remove t s"
  have "list_ok ?r" using s by (simp add: timers_ok_def list_ok_remove)
  then have "list_ok (set_flag (\<lambda>f. f AND NOT RT_TIMER_FLAG_ACTIVATED) t ?r)"
    by (rule list_ok_other) (auto simp: set_flag_def rt_timer_remove_def)
  with s show ?thesis by (auto simp: timers_ok_def rt_timer_stop_def set_flag_def rt_timer_remove_def rest_def)
qed

lemma rt_timer_start_ok:
  assumes "timers_ok s" "0 < init_tick (objs s t)" "init_tick (objs s t) < RT_TICK_MAX div 2" "rt_timer_start t s = Some s'"
  shows "timers_ok s'"
proof -
  have "list_ok (rt_timer_remove t s)" using assms(1) by (simp add: timers_ok_def list_ok_remove)
  from rt_timer_start_spec [OF assms(2,3) this] assms(4) have
    "list_ok s'" "set (rt_timer_list s') = insert t (set (rt_timer_list s))" "rest s' t = unat (init_tick (objs s t))"
    "\<forall>u. u \<noteq> t \<longrightarrow> rest s' u = rest s u" by auto
  then show ?thesis using assms(1,2) by (metis timers_ok_def insert_iff unat_gt_0 word_neq_0_conv)
qed

section \<open>Due timers\<close>

lemma due_iff:
  assumes "rest s t < 0x7FFFFFFF"
  shows "rt_tick s - timeout_tick (objs s t) < RT_TICK_MAX div 2 \<longleftrightarrow> rest s t = 0"
proof -
  let ?d = "timeout_tick (objs s t) - rt_tick s"
  have n: "rt_tick s - timeout_tick (objs s t) = - ?d" by simp
  show ?thesis
  proof (cases "?d = 0")
    case True
    then show ?thesis by (simp add: half rest_def)
  next
    case False
    then have "unat (- ?d) = 4294967296 - unat ?d" using unat_sub_if' [of 0 ?d] by (auto simp: unat_eq_0)
    then have "\<not> unat (- ?d) < 0x7FFFFFFF" using assms unfolding rest_def by linarith
    then have "\<not> - ?d < 0x7FFFFFFF" by (simp only: word_less_nat_alt) simp
    with False show ?thesis by (simp only: n half rest_def) (simp add: unat_eq_0)
  qed
qed


lemma set_flag_simps [simp]:
  "rest (set_flag f t s) = rest s" "rt_timer_list (set_flag f t s) = rt_timer_list s" "rt_tick (set_flag f t s) = rt_tick s"
  "objs (set_flag f t s) = (objs s)(t := (objs s t)\<lparr>tm_flag := f (tm_flag (objs s t))\<rparr>)" "more (set_flag f t s) = more s"
  by (auto simp: set_flag_def rest_def)

lemma tameD:
  assumes "tame call"
  obtains s' where "call (timeout_func (objs s t)) (tm_parameter (objs s t)) s = Some s'"
    "rt_timer_list s' = rt_timer_list s" "rt_tick s' = rt_tick s" "\<And>u. u \<noteq> t \<Longrightarrow> objs s' u = objs s u"
    "objs s' t = objs s t \<or> objs s' t = (objs s t)\<lparr>tm_flag := tm_flag (objs s t) AND NOT RT_TIMER_FLAG_ACTIVATED\<rparr>"
  using assms unfolding tame_def by metis

lemma check_round:
  assumes "list_ok s" "tame call" "rt_timer_list s = t # ts" "rest s t = 0"
  obtains s1 s2 where
    "call (timeout_func (objs s t)) (tm_parameter (objs s t)) (rt_timer_remove t s) = Some s1"
    "rearm t s1 = Some s2" "rt_tick s1 = rt_tick s" "rt_tick s2 = rt_tick s" "list_ok s2" "due s2 = due s - {t}"
    "served s s2 t" "more s2 = more s1"
    "t \<in> set (rt_timer_list s2) \<longleftrightarrow> tm_flag (objs s1 t) AND RT_TIMER_FLAG_PERIODIC \<noteq> 0 \<and> tm_flag (objs s1 t) AND RT_TIMER_FLAG_ACTIVATED \<noteq> 0"
    "\<And>u. u \<noteq> t \<Longrightarrow> objs s2 u = objs s u"
    "\<And>u. u \<noteq> t \<Longrightarrow> u \<in> set (rt_timer_list s2) \<longleftrightarrow> u \<in> set (rt_timer_list s)"
proof -
  let ?r = "rt_timer_remove t s"
  obtain s1 where s1: "call (timeout_func (objs ?r t)) (tm_parameter (objs ?r t)) ?r = Some s1"
    "rt_timer_list s1 = rt_timer_list ?r" "rt_tick s1 = rt_tick ?r" "\<And>u. u \<noteq> t \<Longrightarrow> objs s1 u = objs ?r u"
    "objs s1 t = objs ?r t \<or> objs s1 t = (objs ?r t)\<lparr>tm_flag := tm_flag (objs ?r t) AND NOT RT_TIMER_FLAG_ACTIVATED\<rparr>"
    using tameD [OF assms(2)] by blast
  have t: "t \<notin> set ts" "rt_timer_list s1 = ts" "armed (objs s t)"
    using assms(1,3) s1(2) by (auto simp: list_ok_def filter_id_conv)
  have ok1: "list_ok s1"
    by (rule list_ok_other [OF list_ok_remove [OF assms(1)] s1(2,3)]) (auto simp: s1(4))
  let ?c = "set_flag (\<lambda>f. f AND NOT RT_TIMER_FLAG_ACTIVATED) t s1"
  have okc: "list_ok ?c" by (rule list_ok_other [OF ok1]) (use t in auto)
  have rest1: "rest s1 u = rest s u" if "u \<noteq> t" for u using s1(3,4) that by (simp add: rest_def)
  show ?thesis
  proof (cases "tm_flag (objs s1 t) AND RT_TIMER_FLAG_PERIODIC \<noteq> 0 \<and> tm_flag (objs s1 t) AND RT_TIMER_FLAG_ACTIVATED \<noteq> 0")
    case True
    then have o1: "objs s1 t = objs s t" using s1(5) by (auto simp: flag_bits)
    then have i: "0 < init_tick (objs ?c t)" "init_tick (objs ?c t) < RT_TICK_MAX div 2"
      using t(3) by (simp_all add: armed_def)
    obtain s2 where s2: "rt_timer_start t ?c = Some s2" "list_ok s2" "set (rt_timer_list s2) = insert t (set ts)"
      "rest s2 t = unat (init_tick (objs ?c t))" "rt_tick s2 = rt_tick s1" "more s2 = more s1"
      "objs s2 t = (objs ?c t)\<lparr>timeout_tick := rt_tick s1 + init_tick (objs ?c t), tm_flag := tm_flag (objs ?c t) OR RT_TIMER_FLAG_ACTIVATED\<rparr>"
      "\<And>u. u \<noteq> t \<Longrightarrow> objs s2 u = objs s1 u \<and> rest s2 u = rest s1 u"
      using rt_timer_start_spec [OF i list_ok_remove [OF okc]] t(2) by auto
    have "0 < rest s2 t" using s2(4) i(1) by (simp add: unat_gt_0 word_neq_0_conv)
    moreover have "rest s2 u = rest s u" if "u \<in> set ts" for u using s2(8) rest1 t(1) that by metis
    ultimately have "due s2 = due s - {t}" using s2(3) assms(3) t(1) by (auto simp: due_def)
    moreover have "served s s2 t" using s2(3,4,7) True s1(3) o1 by (simp add: served_def flag_bits)
    ultimately show ?thesis
      using that [of s1 s2] s1 s2 True assms(3) t(1) by (simp add: rearm_def)
  next
    case False
    have "rest s1 u = rest s u" if "u \<in> set ts" for u using rest1 t(1) that by metis
    then have "due ?c = due s - {t}" using assms(3) t(1,2) by (auto simp: due_def)
    moreover have "served s ?c t" using t s1(5) by (auto simp: served_def flag_bits)
    ultimately show ?thesis
      using that [of s1 ?c] s1 False assms(3) t okc by (auto simp: rearm_def)
  qed
qed


text \<open>
  The rule for a check: what holds of the state at the start and is kept when a due timer is called and
  rearmed holds at the end, for all due timers. The check ends, and nobody is due any more.
\<close>

lemma check_loop_inv:
  assumes "list_ok s" "tame call" "I {} s"
    and step: "\<And>D u t ts u1 u2. I D u \<Longrightarrow> list_ok u \<Longrightarrow> rt_tick u = rt_tick s \<Longrightarrow> rt_timer_list u = t # ts \<Longrightarrow> rest u t = 0
      \<Longrightarrow> t \<in> due s \<Longrightarrow> t \<notin> D
      \<Longrightarrow> call (timeout_func (objs u t)) (tm_parameter (objs u t)) (rt_timer_remove t u) = Some u1 \<Longrightarrow> rearm t u1 = Some u2
      \<Longrightarrow> served u u2 t \<Longrightarrow> more u2 = more u1
      \<Longrightarrow> (t \<in> set (rt_timer_list u2) \<longleftrightarrow>
            tm_flag (objs u1 t) AND RT_TIMER_FLAG_PERIODIC \<noteq> 0 \<and> tm_flag (objs u1 t) AND RT_TIMER_FLAG_ACTIVATED \<noteq> 0)
      \<Longrightarrow> (\<And>v. v \<noteq> t \<Longrightarrow> objs u2 v = objs u v)
      \<Longrightarrow> (\<And>v. v \<noteq> t \<Longrightarrow> v \<in> set (rt_timer_list u2) \<longleftrightarrow> v \<in> set (rt_timer_list u)) \<Longrightarrow> rt_tick u2 = rt_tick u
      \<Longrightarrow> I (insert t D) u2"
  shows "\<exists>s'. timer_check_loop call (rt_tick s) s = Some s' \<and> timers_ok s' \<and> rt_tick s' = rt_tick s \<and> I (due s) s'"
proof -
  have "\<exists>s'. timer_check_loop call (rt_tick u) u = Some s' \<and> timers_ok s' \<and> rt_tick s' = rt_tick s \<and> I (due s) s'"
    if "list_ok u" "rt_tick u = rt_tick s" "I (due s - due u) u" "due u \<subseteq> due s" for u
    using that
  proof (induction "card (due u)" arbitrary: u rule: less_induct)
    case less
    have fin: "finite (due u)" by (simp add: due_def)
    show ?case
    proof (cases "rt_timer_list u")
      case Nil
      then show ?thesis using less.prems by (subst timer_check_loop.simps) (auto simp: timers_ok_def due_def)
    next
      case (Cons t ts)
      have small: "rest u t < 0x7FFFFFFF" using less.prems(1) Cons by (simp add: list_ok_def)
      show ?thesis
      proof (cases "rest u t = 0")
        case True
        obtain u1 u2 where r: "call (timeout_func (objs u t)) (tm_parameter (objs u t)) (rt_timer_remove t u) = Some u1"
          "rearm t u1 = Some u2" "rt_tick u1 = rt_tick u" "rt_tick u2 = rt_tick u" "list_ok u2" "due u2 = due u - {t}"
          "served u u2 t" "more u2 = more u1"
          "t \<in> set (rt_timer_list u2) \<longleftrightarrow> tm_flag (objs u1 t) AND RT_TIMER_FLAG_PERIODIC \<noteq> 0 \<and> tm_flag (objs u1 t) AND RT_TIMER_FLAG_ACTIVATED \<noteq> 0"
          "\<And>v. v \<noteq> t \<Longrightarrow> objs u2 v = objs u v"
          "\<And>v. v \<noteq> t \<Longrightarrow> v \<in> set (rt_timer_list u2) \<longleftrightarrow> v \<in> set (rt_timer_list u)"
          using check_round [OF less.prems(1) assms(2) Cons True] by metis
        have t: "t \<in> due u" using True Cons by (simp add: due_def)
        then have "card (due u2) < card (due u)" using r(6) fin by (metis card_Diff1_less)
        moreover have "due s - due u2 = insert t (due s - due u)" using r(6) t less.prems(4) by auto
        moreover have "I (insert t (due s - due u)) u2"
          using step [OF less.prems(3,1,2) Cons True] t less.prems(4) r by blast
        ultimately have "\<exists>s'. timer_check_loop call (rt_tick u2) u2 = Some s' \<and> timers_ok s' \<and> rt_tick s' = rt_tick s \<and> I (due s) s'"
          using less.hyps [of u2] r(4-6) less.prems(2,4) by auto
        then show ?thesis
          using Cons r(1-4) due_iff [OF small] True by (subst timer_check_loop.simps) (simp add: rt_tick_get_def)
      next
        case False
        have "0 < rest u v" if "v \<in> set (rt_timer_list u)" for v
          using less.prems(1) Cons False that by (auto simp: list_ok_def dest: order.strict_trans2)
        then have "timers_ok u" "due u = {}" using less.prems(1) by (auto simp: timers_ok_def due_def)
        then show ?thesis
          using Cons less.prems due_iff [OF small] False by (subst timer_check_loop.simps) simp
      qed
    qed
  qed
  from this [of s] assms(1,3) show ?thesis by simp
qed


section \<open>A tick\<close>

lemma ticked_simps [simp]:
  "objs (ticked s) = objs s" "rt_timer_list (ticked s) = rt_timer_list s" "rt_tick (ticked s) = rt_tick s + 1"
  "more (ticked s) = more s"
  by (simp_all add: ticked_def Let_def)

lemma rt_tick_increase_ticked: "rt_tick_increase call s = timer_check_loop call (rt_tick (ticked s)) (ticked s)"
  by (simp add: rt_tick_increase_def rt_timer_check_def rt_tick_get_def ticked_def Let_def)

lemma rest_ticked: "0 < rest s t \<Longrightarrow> rest (ticked s) t = rest s t - 1"
proof -
  assume "0 < rest s t"
  then have "1 \<le> timeout_tick (objs s t) - rt_tick s" by (simp add: rest_def word_le_nat_alt)
  from unat_sub [OF this] show ?thesis by (simp add: rest_def algebra_simps)
qed

lemma ticked_ok:
  assumes "timers_ok s"
  shows "list_ok (ticked s)" "due (ticked s) = {t \<in> set (rt_timer_list s). rest s t = 1}"
proof -
  have r: "rest (ticked s) t = rest s t - 1" "0 < rest s t" if "t \<in> set (rt_timer_list s)" for t
    using assms that by (auto simp: timers_ok_def rest_ticked)
  have "map (rest (ticked s)) (rt_timer_list s) = map (\<lambda>n. n - 1) (map (rest s) (rt_timer_list s))"
    using r by simp
  moreover have "sorted (map (\<lambda>n. n - 1) ns)" if "sorted ns" for ns :: "nat list"
    using that by (induction ns) auto
  ultimately have "sorted (map (rest (ticked s)) (rt_timer_list s))"
    using assms by (simp only: timers_ok_def list_ok_def)
  then show "list_ok (ticked s)" using assms r by (auto simp: timers_ok_def list_ok_def)
  have "rest (ticked s) t = 0 \<longleftrightarrow> rest s t = 1" if "t \<in> set (rt_timer_list s)" for t using r [OF that] by linarith
  then show "due (ticked s) = {t \<in> set (rt_timer_list s). rest s t = 1}" by (auto simp: due_def)
qed

lemma rt_tick_increase_spec:
  assumes "timers_ok s" "tame call"
  shows "\<exists>s'. rt_tick_increase call s = Some s' \<and> timers_ok s' \<and> rt_tick s' = rt_tick s + 1
    \<and> (\<forall>t \<in> set (rt_timer_list s). if rest s t = 1 then served (ticked s) s' t
         else t \<in> set (rt_timer_list s') \<and> objs s' t = objs s t \<and> rest s' t = rest s t - 1)
    \<and> (\<forall>t. t \<notin> set (rt_timer_list s) \<longrightarrow> t \<notin> set (rt_timer_list s') \<and> objs s' t = objs s t)"
proof -
  let ?s = "ticked s"
  let ?I = "\<lambda>D u. rt_tick u = rt_tick ?s \<and> (\<forall>v \<in> D. served ?s u v)
    \<and> (\<forall>v. v \<notin> D \<longrightarrow> objs u v = objs ?s v \<and> (v \<in> set (rt_timer_list u) \<longleftrightarrow> v \<in> set (rt_timer_list ?s)))"
  have "\<exists>s'. timer_check_loop call (rt_tick ?s) ?s = Some s' \<and> timers_ok s' \<and> rt_tick s' = rt_tick ?s \<and> ?I (due ?s) s'"
  proof (rule check_loop_inv [OF ticked_ok(1) [OF assms(1)] assms(2)])
    fix D u t ts u1 u2
    assume I: "?I D u" and u: "rt_tick u = rt_tick ?s" "t \<notin> D" "served u u2 t" "rt_tick u2 = rt_tick u"
      and o: "\<And>v. v \<noteq> t \<Longrightarrow> objs u2 v = objs u v"
        "\<And>v. v \<noteq> t \<Longrightarrow> v \<in> set (rt_timer_list u2) \<longleftrightarrow> v \<in> set (rt_timer_list u)"
    have "objs u t = objs ?s t" using I u(2) by blast
    then have "served ?s u2 t" using u(1,3) unfolding served_def by metis
    moreover have "served ?s u2 v" if "v \<in> D" for v
    proof -
      have "v \<noteq> t" "served ?s u v" using I that u(2) by auto
      moreover have "rest u2 v = rest u v" using o(1) [OF \<open>v \<noteq> t\<close>] u(4) by (simp add: rest_def)
      ultimately show ?thesis using o [of v] unfolding served_def by metis
    qed
    ultimately show "?I (insert t D) u2" using I o u by auto
  qed simp
  then obtain s' where s': "rt_tick_increase call s = Some s'" "timers_ok s'" "rt_tick s' = rt_tick s + 1" "?I (due ?s) s'"
    by (auto simp: rt_tick_increase_ticked)
  have d: "due ?s = {t \<in> set (rt_timer_list s). rest s t = 1}" by (rule ticked_ok(2) [OF assms(1)])
  have "rest s' t = rest s t - 1" if "t \<in> set (rt_timer_list s)" "rest s t \<noteq> 1" for t
  proof -
    have "objs s' t = objs s t" using s'(4) d that by simp
    then have "rest s' t = rest ?s t" using s'(3) by (simp add: rest_def)
    with that(1) assms(1) show ?thesis by (simp add: rest_ticked timers_ok_def)
  qed
  with s' d show ?thesis by (intro exI [of _ s']) simp
qed


lemma demo_timers_ok: "timers_ok demo_timers"
  by (simp add: timers_ok_def list_ok_def demo_timers_def rest_def armed_def RT_TIMER_FLAG_ACTIVATED_def half)

lemma idle_tame: "tame (\<lambda>_ _. Some)"
  by (simp add: tame_def)

section \<open>Properties\<close>



text \<open>
  A one-shot timer that its own timeout function starts again cannot be stopped. After the check it
  is in the list and will expire, but its active flag is clear, so \<open>rt_timer_stop\<close> reports an error and
  leaves it there.
\<close>

lemma restarted_one_shot_unstoppable:
  assumes "rt_timer_list s = [t]" "rest s t = 0" "armed (objs s t)" "tm_flag (objs s t) AND RT_TIMER_FLAG_PERIODIC = 0"
  shows "\<exists>s'. rt_timer_check (\<lambda>_ _. rt_timer_start t) s = Some s' \<and> t \<in> set (rt_timer_list s')
    \<and> rt_timer_stop t s' = (False, s')"
proof -
  let ?r = "rt_timer_remove t s" and ?clear = "\<lambda>f. f AND NOT RT_TIMER_FLAG_ACTIVATED"
  have i: "0 < init_tick (objs ?r t)" "init_tick (objs ?r t) < RT_TICK_MAX div 2" using assms(3) by (simp_all add: armed_def)
  have "list_ok (rt_timer_remove t ?r)" using assms(1) by (simp add: list_ok_def)
  from rt_timer_start_spec [OF i this] obtain s1 where s1: "rt_timer_start t ?r = Some s1" "list_ok s1"
    "set (rt_timer_list s1) = {t}" "rest s1 t = unat (init_tick (objs s t))" "rt_tick s1 = rt_tick s"
    "tm_flag (objs s1 t) = tm_flag (objs s t) OR RT_TIMER_FLAG_ACTIVATED"
    using assms(1) by auto
  have "distinct xs \<Longrightarrow> set xs = {t} \<Longrightarrow> xs = [t]" for xs by (cases xs; cases "tl xs") auto
  then have l1: "rt_timer_list s1 = [t]" using s1(2,3) by (simp add: list_ok_def)
  let ?s2 = "set_flag ?clear t s1"
  have "rest ?s2 t \<noteq> 0" "rest ?s2 t < 0x7FFFFFFF"
    using s1(2,4) i(1) l1 by (auto simp: list_ok_def unat_eq_0)
  then have "timer_check_loop (\<lambda>_ _. rt_timer_start t) (rt_tick ?s2) ?s2 = Some ?s2"
    using due_iff [of ?s2 t] l1 by (subst timer_check_loop.simps) simp
  moreover have "rearm t s1 = Some ?s2" using s1(6) assms(4) by (simp add: rearm_def flag_bits)
  ultimately have "rt_timer_check (\<lambda>_ _. rt_timer_start t) s = Some ?s2"
    using assms(1,2) due_iff [of s t] s1(1,5) by (simp add: rt_timer_check_def rt_tick_get_def timer_check_loop.simps [of _ "rt_tick s" s])
  then show ?thesis using l1 by (intro exI [of _ ?s2]) (simp add: rt_timer_stop_def flag_bits)
qed

end
