(* ===== verification/OvertimeClock.thy ===== *)
theory OvertimeClock
  imports KTimer AppTimer
begin

text \<open>
  Task/Timer.c on the kernel's timers: \<open>TimerInit\<close> creates a periodic timer of one second whose timeout
  function \<open>NodeOvertimeTiming\<close> advances the seconds counter. The other timers of the system (thread
  delays, the Modbus pause) are arbitrary, with timeout functions of their own.
\<close>

section \<open>Definitions\<close>

record clock = ktimers +
  NodeOvertimeTimerNumber :: u32

definition TIMER_SECOND :: u32 where "TIMER_SECOND = 1000"

text \<open>The address of the function \<open>NodeOvertimeTiming\<close>.\<close>

definition FN_NodeOvertimeTiming :: nat where "FN_NodeOvertimeTiming = 1"

text \<open>\<open>rt_timer_create\<close>: the object allocator gives an address or \<open>NULL\<close>.\<close>

definition rt_timer_create ::
  "nat option \<Rightarrow> nat \<Rightarrow> nat \<Rightarrow> u32 \<Rightarrow> u8 \<Rightarrow> 'a ktimers_scheme \<Rightarrow> (nat option \<times> 'a ktimers_scheme) option" where
  "rt_timer_create alloc timeout parameter time flag s = (case alloc of
     None \<Rightarrow> Some (None, s)
   | Some timer \<Rightarrow> do { s \<leftarrow> rt_timer_init timer timeout parameter time flag s; Some (Some timer, s) })"

definition TimerInit :: "nat option \<Rightarrow> clock \<Rightarrow> clock option" where
  "TimerInit alloc s = do {
     (checkOvertime, s) \<leftarrow> rt_timer_create alloc FN_NodeOvertimeTiming 0 TIMER_SECOND RT_TIMER_FLAG_PERIODIC s;
     (case checkOvertime of Some timer \<Rightarrow> rt_timer_start timer s | None \<Rightarrow> Some s)
   }"

text \<open>Calling a function pointer: \<open>NodeOvertimeTiming\<close>, or a function of another owner.\<close>

definition callbacks :: "(nat \<Rightarrow> nat \<Rightarrow> clock \<Rightarrow> clock option) \<Rightarrow> nat \<Rightarrow> nat \<Rightarrow> clock \<Rightarrow> clock option" where
  "callbacks others f p s =
     (if f = FN_NodeOvertimeTiming then Some (s\<lparr>NodeOvertimeTimerNumber := NodeOvertimeTiming (NodeOvertimeTimerNumber s)\<rparr>)
      else others f p s)"

text \<open>The other owners' functions keep to their timers and do not touch the counter.\<close>

definition foreign :: "(nat \<Rightarrow> nat \<Rightarrow> clock \<Rightarrow> clock option) \<Rightarrow> bool" where
  "foreign others \<longleftrightarrow> tame others
     \<and> (\<forall>f p s s'. others f p s = Some s' \<longrightarrow> NodeOvertimeTimerNumber s' = NodeOvertimeTimerNumber s)"

text \<open>
  The system after \<open>n\<close> ticks: the clock interrupt interleaved with the other owners' operations on their
  timers.
\<close>

inductive ran :: "(nat \<Rightarrow> nat \<Rightarrow> clock \<Rightarrow> clock option) \<Rightarrow> nat \<Rightarrow> clock \<Rightarrow> nat \<Rightarrow> clock \<Rightarrow> bool"
  for others :: "nat \<Rightarrow> nat \<Rightarrow> clock \<Rightarrow> clock option" and c :: nat and s0 :: clock where
  Begin: "ran others c s0 0 s0"
| Tick: "ran others c s0 n s \<Longrightarrow> rt_tick_increase (callbacks others) s = Some s' \<Longrightarrow> ran others c s0 (Suc n) s'"
| Start: "ran others c s0 n s \<Longrightarrow> t \<noteq> c \<Longrightarrow> 0 < init_tick (objs s t) \<Longrightarrow> rt_timer_start t s = Some s' \<Longrightarrow> ran others c s0 n s'"
| Stop: "ran others c s0 n s \<Longrightarrow> t \<noteq> c \<Longrightarrow> rt_timer_stop t s = (b, s') \<Longrightarrow> ran others c s0 n s'"
| Init: "ran others c s0 n s \<Longrightarrow> t \<noteq> c \<Longrightarrow> f \<noteq> FN_NodeOvertimeTiming \<Longrightarrow> rt_timer_init t f p time flag s = Some s'
    \<Longrightarrow> ran others c s0 n s'"

text \<open>The state \<open>n\<close> ticks after the start: how far the second is, and what the counter shows.\<close>

definition counting :: "nat \<Rightarrow> u32 \<Rightarrow> nat \<Rightarrow> clock \<Rightarrow> bool" where
  "counting c n0 n s \<longleftrightarrow> timers_ok s \<and> c \<in> set (rt_timer_list s) \<and> rest s c = 1000 - n mod 1000
     \<and> timeout_func (objs s c) = FN_NodeOvertimeTiming \<and> init_tick (objs s c) = 1000
     \<and> tm_flag (objs s c) AND RT_TIMER_FLAG_PERIODIC \<noteq> 0 \<and> (\<forall>t. t \<noteq> c \<longrightarrow> timeout_func (objs s t) \<noteq> FN_NodeOvertimeTiming)
     \<and> NodeOvertimeTimerNumber s = n0 + of_nat (n div 1000)"

text \<open>A system that has just been booted.\<close>

definition boot :: clock where
  "boot = \<lparr>objs = (\<lambda>_. \<lparr>tm_flag = 0, timeout_func = 0, tm_parameter = 0, init_tick = 0, timeout_tick = 0\<rparr>),
     rt_timer_list = [], rt_tick = 0, remaining_tick = 5, thread_init_tick = 5, yielded = False, NodeOvertimeTimerNumber = 0\<rparr>"

section \<open>The counter\<close>

lemma counter_more: "ktimers.more s = ktimers.more s' \<Longrightarrow> NodeOvertimeTimerNumber (s :: clock) = NodeOvertimeTimerNumber s'"
  by (cases s; cases s') simp

lemma callbacks_tame:
  assumes "foreign others"
  shows "tame (callbacks others)"
proof -
  have o: "tame others" using assms by (simp add: foreign_def)
  show ?thesis unfolding tame_def
  proof (intro allI)
    fix t :: nat and s :: clock
    show "\<exists>s'. callbacks others (timeout_func (objs s t)) (tm_parameter (objs s t)) s = Some s'
      \<and> rt_timer_list s' = rt_timer_list s \<and> rt_tick s' = rt_tick s \<and> (\<forall>u. u \<noteq> t \<longrightarrow> objs s' u = objs s u)
      \<and> (objs s' t = objs s t \<or> objs s' t = (objs s t)\<lparr>tm_flag := tm_flag (objs s t) AND NOT RT_TIMER_FLAG_ACTIVATED\<rparr>)"
      using o by (cases "timeout_func (objs s t) = FN_NodeOvertimeTiming") (auto simp: callbacks_def tame_def)
  qed
qed

lemma counting_start:
  assumes "timers_ok s" "c \<notin> set (rt_timer_list s)" "\<forall>t. t \<noteq> c \<longrightarrow> timeout_func (objs s t) \<noteq> FN_NodeOvertimeTiming"
  shows "\<exists>s'. TimerInit (Some c) s = Some s' \<and> counting c (NodeOvertimeTimerNumber s) 0 s'"
proof -
  let ?t = "\<lparr>tm_flag = RT_TIMER_FLAG_PERIODIC AND NOT RT_TIMER_FLAG_ACTIVATED, timeout_func = FN_NodeOvertimeTiming,
      tm_parameter = 0, init_tick = 1000, timeout_tick = 0\<rparr>"
  let ?s = "s\<lparr>objs := (objs s)(c := ?t)\<rparr>"
  have i: "rt_timer_init c FN_NodeOvertimeTiming 0 TIMER_SECOND RT_TIMER_FLAG_PERIODIC s = Some ?s"
    using assms(2) by (simp add: rt_timer_init_def TIMER_SECOND_def)
  have "list_ok ?s" by (rule list_ok_other [of s]) (use assms in \<open>auto simp: timers_ok_def\<close>)
  then have ok: "timers_ok ?s" using assms(1,2) by (auto simp: timers_ok_def rest_def)
  have p: "0 < init_tick (objs ?s c)" "init_tick (objs ?s c) < RT_TICK_MAX div 2" by (simp_all add: half)
  obtain s' where s': "rt_timer_start c ?s = Some s'" "set (rt_timer_list s') = insert c (set (rt_timer_list s))"
    "rest s' c = 1000" "ktimers.more s' = ktimers.more s" "timeout_func (objs s' c) = FN_NodeOvertimeTiming" "init_tick (objs s' c) = 1000"
    "tm_flag (objs s' c) = tm_flag ?t OR RT_TIMER_FLAG_ACTIVATED" "\<forall>u. u \<noteq> c \<longrightarrow> objs s' u = objs s u"
    using rt_timer_start_spec [OF p list_ok_remove [OF \<open>list_ok ?s\<close>]] by auto
  have "timers_ok s'" by (rule rt_timer_start_ok [OF ok p s'(1)])
  moreover have "tm_flag (objs s' c) AND RT_TIMER_FLAG_PERIODIC \<noteq> 0"
    unfolding s'(7) by (simp add: RT_TIMER_FLAG_PERIODIC_def RT_TIMER_FLAG_ACTIVATED_def)
  ultimately have "counting c (NodeOvertimeTimerNumber s) 0 s'"
    using s' assms(3) counter_more [OF s'(4)] by (simp add: counting_def)
  then show ?thesis using i s'(1) by (simp add: TimerInit_def rt_timer_create_def)
qed


lemma counting_tick:
  assumes "counting c n0 n s" "foreign others"
  shows "\<exists>s'. rt_tick_increase (callbacks others) s = Some s' \<and> counting c n0 (Suc n) s'"
proof -
  let ?s = "ticked s" and ?F = FN_NodeOvertimeTiming
  let ?I = "\<lambda>D u. rt_tick u = rt_tick ?s \<and> c \<in> set (rt_timer_list u) \<and> (\<forall>t. t \<noteq> c \<longrightarrow> timeout_func (objs u t) \<noteq> ?F)
    \<and> NodeOvertimeTimerNumber u = NodeOvertimeTimerNumber s + (if c \<in> D then 1 else 0)
    \<and> (if c \<in> D then served ?s u c else objs u c = objs s c)"
  have c: "timers_ok s" "c \<in> set (rt_timer_list s)" "rest s c = 1000 - n mod 1000" "timeout_func (objs s c) = ?F"
    "init_tick (objs s c) = 1000" "tm_flag (objs s c) AND RT_TIMER_FLAG_PERIODIC \<noteq> 0"
    "\<forall>t. t \<noteq> c \<longrightarrow> timeout_func (objs s t) \<noteq> ?F" "NodeOvertimeTimerNumber s = n0 + of_nat (n div 1000)"
    using assms(1) by (auto simp: counting_def)
  have act: "tm_flag (objs s c) AND RT_TIMER_FLAG_ACTIVATED \<noteq> 0"
    using c(1,2) by (auto simp: timers_ok_def list_ok_def armed_def)
  have nt: "NodeOvertimeTimerNumber ?s = NodeOvertimeTimerNumber s" by (rule counter_more) simp
  have "\<exists>s'. timer_check_loop (callbacks others) (rt_tick ?s) ?s = Some s' \<and> timers_ok s' \<and> rt_tick s' = rt_tick ?s \<and> ?I (due ?s) s'"
  proof (rule check_loop_inv [OF ticked_ok(1) [OF c(1)] callbacks_tame [OF assms(2)]])
    fix D u t ts u1 u2
    assume I: "?I D u" and u: "t \<notin> D" "served u u2 t" "rt_tick u2 = rt_tick u" "ktimers.more u2 = ktimers.more u1"
      and call: "callbacks others (timeout_func (objs u t)) (tm_parameter (objs u t)) (rt_timer_remove t u) = Some u1"
      and mem: "t \<in> set (rt_timer_list u2) \<longleftrightarrow> tm_flag (objs u1 t) AND RT_TIMER_FLAG_PERIODIC \<noteq> 0 \<and> tm_flag (objs u1 t) AND RT_TIMER_FLAG_ACTIVATED \<noteq> 0"
      and o: "\<And>v. v \<noteq> t \<Longrightarrow> objs u2 v = objs u v"
        "\<And>v. v \<noteq> t \<Longrightarrow> v \<in> set (rt_timer_list u2) \<longleftrightarrow> v \<in> set (rt_timer_list u)"
    have nr: "NodeOvertimeTimerNumber (rt_timer_remove t u) = NodeOvertimeTimerNumber u"
      by (simp add: rt_timer_remove_def)
    have n2: "NodeOvertimeTimerNumber u2 = NodeOvertimeTimerNumber u1" by (rule counter_more [OF u(4)])
    have f2: "timeout_func (objs u2 t) = timeout_func (objs u t)" using u(2) by (simp add: served_def)
    show "?I (insert t D) u2"
    proof (cases "t = c")
      case True
      then have oc: "objs u c = objs s c" using I u(1) by simp
      then have u1: "u1 = (rt_timer_remove t u)\<lparr>NodeOvertimeTimerNumber := NodeOvertimeTiming (NodeOvertimeTimerNumber u)\<rparr>"
        using call True c(4) nr by (simp add: callbacks_def)
      then have "c \<in> set (rt_timer_list u2)" using mem True oc act c(6) by simp
      moreover have "NodeOvertimeTimerNumber u2 = NodeOvertimeTimerNumber s + 1"
        using n2 u1 I u(1) True by (simp add: NodeOvertimeTiming_def)
      moreover have "served ?s u2 c" using u(2) True oc I unfolding served_def by (metis ticked_simps(1))
      ultimately show ?thesis using I True o(1) u(3) by simp
    next
      case False
      then have "timeout_func (objs u t) \<noteq> ?F" using I by simp
      then have "NodeOvertimeTimerNumber u1 = NodeOvertimeTimerNumber u"
        using call nr assms(2) by (auto simp: callbacks_def foreign_def)
      moreover have "served ?s u2 c \<longleftrightarrow> served ?s u c"
        using o [of c] False u(3) unfolding served_def rest_def by metis
      ultimately show ?thesis using I False o [of c] o(1) u(3) n2 f2 by (cases "c \<in> D") (auto, metis+)
    qed
  qed (use c nt in auto)
  then obtain s' where s': "rt_tick_increase (callbacks others) s = Some s'" "timers_ok s'" "?I (due ?s) s'" "rt_tick s' = rt_tick ?s"
    by (auto simp: rt_tick_increase_ticked)
  have d: "c \<in> due ?s \<longleftrightarrow> rest s c = 1" using ticked_ok(2) [OF c(1)] c(2) by simp
  have "counting c n0 (Suc n) s'"
  proof (cases "n mod 1000 = 999")
    case True
    then have m: "Suc n mod 1000 = 0" "Suc n div 1000 = Suc (n div 1000)" by (simp_all add: mod_Suc div_Suc)
    have "rest s c = 1" using True c(3) by simp
    then have "served ?s s' c" "c \<in> set (rt_timer_list s')" "NodeOvertimeTimerNumber s' = NodeOvertimeTimerNumber s + 1"
      using s'(3) d by simp_all
    then show ?thesis
      using s'(2,3) c m by (auto simp: counting_def served_def flag_bits)
  next
    case False
    then have m: "Suc n mod 1000 = Suc (n mod 1000)" "Suc n div 1000 = n div 1000" by (auto simp: mod_Suc div_Suc)
    have "rest s c \<noteq> 1" using False c(3) mod_less_divisor [of 1000 n] by linarith
    then have o: "objs s' c = objs s c" "NodeOvertimeTimerNumber s' = NodeOvertimeTimerNumber s" using s'(3) d by simp_all
    have "rest s' c = rest ?s c" using o(1) s'(4) by (simp add: rest_def)
    also have "\<dots> = rest s c - 1" using c(1,2) by (simp add: rest_ticked timers_ok_def)
    finally have "rest s' c = 1000 - Suc n mod 1000" using c(3) m by simp
    then show ?thesis using s'(2,3) c m o by (simp add: counting_def)
  qed
  with s'(1) show ?thesis by blast
qed


text \<open>The other owners do not disturb the second.\<close>

lemma counting_other:
  assumes "counting c n0 n s" "timers_ok s'" "c \<in> set (rt_timer_list s')" "objs s' c = objs s c" "rt_tick s' = rt_tick s"
    "\<forall>t. t \<noteq> c \<longrightarrow> timeout_func (objs s' t) \<noteq> FN_NodeOvertimeTiming" "ktimers.more s' = ktimers.more s"
  shows "counting c n0 n s'"
  using assms counter_more [OF assms(7)] by (simp add: counting_def rest_def)

lemma ran_counting:
  assumes "ran others c s0 n s" "counting c n0 0 s0" "foreign others"
  shows "counting c n0 n s"
  using assms(1)
proof induction
  case Begin
  show ?case by (rule assms(2))
next
  case (Tick n s s')
  then show ?case using counting_tick [OF Tick.IH assms(3)] by simp
next
  case (Start n s t s')
  have ok: "timers_ok s" and f: "\<forall>t. t \<noteq> c \<longrightarrow> timeout_func (objs s t) \<noteq> FN_NodeOvertimeTiming"
    using Start.IH by (simp_all add: counting_def)
  have p: "init_tick (objs s t) < RT_TICK_MAX div 2"
    using Start.hyps by (auto simp: rt_timer_start_def Let_def bind_eq_Some_conv)
  have "list_ok (rt_timer_remove t s)" using ok by (simp add: timers_ok_def list_ok_remove)
  note spec = rt_timer_start_spec [OF Start.hyps(3) p this]
  have "objs s' t = (objs s t)\<lparr>timeout_tick := rt_tick s + init_tick (objs s t), tm_flag := tm_flag (objs s t) OR RT_TIMER_FLAG_ACTIVATED\<rparr>"
    using spec Start.hyps(4) by auto
  then have "\<forall>u. u \<noteq> c \<longrightarrow> timeout_func (objs s' u) \<noteq> FN_NodeOvertimeTiming"
    using spec Start.hyps(4) f by (metis option.sel rt_timer.select_convs(2) rt_timer.surjective rt_timer.update_convs(1,5))
  then show ?case
    using spec Start.hyps(2,4) Start.IH rt_timer_start_ok [OF ok Start.hyps(3) p Start.hyps(4)]
    by (intro counting_other [OF Start.IH]) (auto simp: counting_def)
next
  case (Stop n s t b s')
  have "timers_ok s'" using rt_timer_stop_ok [of s t] Stop by (simp add: counting_def)
  then show ?case
    using Stop.hyps(2,3) Stop.IH
    by (intro counting_other [OF Stop.IH]) (auto simp: rt_timer_stop_def counting_def rt_timer_remove_def set_flag_def split: if_splits)
next
  case (Init n s t f p time flag s')
  have t: "t \<notin> set (rt_timer_list s)" "rt_timer_list s' = rt_timer_list s" "rt_tick s' = rt_tick s" "ktimers.more s' = ktimers.more s"
    "\<And>u. u \<noteq> t \<Longrightarrow> objs s' u = objs s u" "timeout_func (objs s' t) = f"
    using Init.hyps(4) by (auto simp: rt_timer_init_def bind_eq_Some_conv)
  have "objs s' u = objs s u" if "u \<in> set (rt_timer_list s)" for u using t(1,5) that by metis
  moreover have "list_ok s" using Init.IH by (simp add: counting_def timers_ok_def)
  ultimately have "list_ok s'" using list_ok_other t(2,3) by metis
  moreover have "\<forall>u \<in> set (rt_timer_list s). rest s' u = rest s u" using t by (metis rest_def)
  ultimately have "timers_ok s'" using Init.IH t(2) by (simp add: counting_def timers_ok_def)
  moreover have "\<forall>u. u \<noteq> c \<longrightarrow> timeout_func (objs s' u) \<noteq> FN_NodeOvertimeTiming"
    using t(5,6) Init.hyps(3) Init.IH by (metis counting_def)
  ultimately show ?case using t Init.hyps(2) Init.IH by (intro counting_other [OF Init.IH]) (auto simp: counting_def)
qed

lemma ran_exists:
  assumes "counting c n0 0 s0" "foreign others"
  shows "\<exists>s. ran others c s0 n s"
proof (induction n)
  case 0
  show ?case using ran.Begin by blast
next
  case (Suc n)
  then obtain s where r: "ran others c s0 n s" by blast
  from counting_tick [OF ran_counting [OF r assms] assms(2)] show ?case using ran.Tick [OF r] by blast
qed

section \<open>Properties\<close>



end
