(* ===== verification/Sched.thy ===== *)
theory Sched
  imports KTimer
begin

text \<open>
  src/scheduler.c and src/thread.c for one processor: the ready queues with their bitmap, the choice of the
  next thread, and the life of a thread. Threads are found by their address, a natural number. The
  state extends that of the timers, because every thread owns one. A context switch is the change of
  \<open>rt_current_thread\<close>; hooks, stacks and the object registry are left out.
\<close>

section \<open>Definitions\<close>

definition RT_THREAD_PRIORITY_MAX :: nat where "RT_THREAD_PRIORITY_MAX = 32"

datatype thread_stat = RT_THREAD_INIT | RT_THREAD_READY | RT_THREAD_SUSPEND | RT_THREAD_RUNNING | RT_THREAD_CLOSE

record rt_thread =
  stat :: thread_stat
  init_priority :: nat
  current_priority :: nat
  number_mask :: u32
  thr_init_tick :: u32
  thr_remaining_tick :: u32
  thr_error :: rt_err
  thread_timer :: nat

record sched = ktimers +
  threads :: "nat \<Rightarrow> rt_thread"
  rt_thread_priority_table :: "nat list list"
  rt_thread_ready_priority_group :: u32
  rt_scheduler_lock_nest :: int
  rt_current_thread :: "nat option"
  rt_current_priority :: nat
  rt_thread_defunct :: "nat list"

text \<open>\<open>__rt_ffs\<close>: the number of the lowest set bit, counted from 1, and 0 for no bit.\<close>

definition rt_ffs :: "u32 \<Rightarrow> nat" where
  "rt_ffs v = (case find (bit v) [0..<32] of None \<Rightarrow> 0 | Some i \<Rightarrow> i + 1)"

text \<open>The first thread of the highest ready priority, and that priority.\<close>

definition get_highest_priority_thread :: "sched \<Rightarrow> (nat \<times> nat) option" where
  "get_highest_priority_thread s = do {
     let highest_ready_priority = rt_ffs (rt_thread_ready_priority_group s) - 1;
     q \<leftarrow> rd (rt_thread_priority_table s) highest_ready_priority;
     (case q of [] \<Rightarrow> None | t # _ \<Rightarrow> Some (t, highest_ready_priority))
   }"

definition rt_system_scheduler_init :: "sched \<Rightarrow> sched" where
  "rt_system_scheduler_init s = s\<lparr>rt_scheduler_lock_nest := 0, rt_thread_priority_table := replicate RT_THREAD_PRIORITY_MAX [],
     rt_thread_ready_priority_group := 0, rt_thread_defunct := []\<rparr>"

definition set_stat :: "nat \<Rightarrow> thread_stat \<Rightarrow> sched \<Rightarrow> sched" where
  "set_stat t st s = s\<lparr>threads := (threads s)(t := (threads s t)\<lparr>stat := st\<rparr>)\<rparr>"

definition rt_schedule_insert_thread :: "nat \<Rightarrow> sched \<Rightarrow> sched option" where
  "rt_schedule_insert_thread t s =
     (if rt_current_thread s = Some t then Some (set_stat t RT_THREAD_RUNNING s)
      else do {
        let s = set_stat t RT_THREAD_READY s;
        q \<leftarrow> rd (rt_thread_priority_table s) (current_priority (threads s t));
        tab \<leftarrow> wr (rt_thread_priority_table s) (current_priority (threads s t)) (q @ [t]);
        Some (s\<lparr>rt_thread_priority_table := tab,
          rt_thread_ready_priority_group := rt_thread_ready_priority_group s OR number_mask (threads s t)\<rparr>)
      })"

text \<open>\<open>rt_list_remove\<close> takes the thread out of whatever queue it is in.\<close>

definition rt_schedule_remove_thread :: "nat \<Rightarrow> sched \<Rightarrow> sched option" where
  "rt_schedule_remove_thread t s = do {
     let s = s\<lparr>rt_thread_priority_table := map (filter (\<lambda>u. u \<noteq> t)) (rt_thread_priority_table s)\<rparr>;
     q \<leftarrow> rd (rt_thread_priority_table s) (current_priority (threads s t));
     Some (if q = [] then s\<lparr>rt_thread_ready_priority_group := rt_thread_ready_priority_group s AND NOT (number_mask (threads s t))\<rparr>
           else s)
   }"

definition rt_system_scheduler_start :: "sched \<Rightarrow> sched option" where
  "rt_system_scheduler_start s = do {
     (to_thread, _) \<leftarrow> get_highest_priority_thread s;
     s \<leftarrow> rt_schedule_remove_thread to_thread (s\<lparr>rt_current_thread := Some to_thread\<rparr>);
     Some (set_stat to_thread RT_THREAD_RUNNING s)
   }"

text \<open>The switch of \<open>rt_schedule\<close> to another thread.\<close>

definition switch_to :: "nat \<Rightarrow> nat \<Rightarrow> nat \<Rightarrow> bool \<Rightarrow> sched \<Rightarrow> sched option" where
  "switch_to to_thread prio from_thread need_insert s = do {
     let s = s\<lparr>rt_current_priority := prio, rt_current_thread := Some to_thread\<rparr>;
     s \<leftarrow> (if need_insert then rt_schedule_insert_thread from_thread s else Some s);
     s \<leftarrow> rt_schedule_remove_thread to_thread s;
     Some (set_stat to_thread RT_THREAD_RUNNING s)
   }"

definition rt_schedule :: "sched \<Rightarrow> sched option" where
  "rt_schedule s =
     (if rt_scheduler_lock_nest s = 0 \<and> rt_thread_ready_priority_group s \<noteq> 0 then do {
        (to_thread, highest_ready_priority) \<leftarrow> get_highest_priority_thread s;
        current \<leftarrow> rt_current_thread s;
        let running = (stat (threads s current) = RT_THREAD_RUNNING);
        let stay = (running \<and> current_priority (threads s current) < highest_ready_priority);
        let to_thread = (if stay then current else to_thread);
        if to_thread \<noteq> current then switch_to to_thread highest_ready_priority current running s
        else do {
          s \<leftarrow> rt_schedule_remove_thread current s;
          Some (set_stat current RT_THREAD_RUNNING s)
        }
      } else Some s)"

definition rt_enter_critical :: "sched \<Rightarrow> sched" where
  "rt_enter_critical s = s\<lparr>rt_scheduler_lock_nest := rt_scheduler_lock_nest s + 1\<rparr>"

definition rt_exit_critical :: "sched \<Rightarrow> sched option" where
  "rt_exit_critical s = (let s = s\<lparr>rt_scheduler_lock_nest := rt_scheduler_lock_nest s - 1\<rparr> in
     if rt_scheduler_lock_nest s \<le> 0 then
       let s = s\<lparr>rt_scheduler_lock_nest := 0\<rparr>
       in if rt_current_thread s \<noteq> None then rt_schedule s else Some s
     else Some s)"

subsection \<open>Threads\<close>

text \<open>The result of the following operations is \<open>False\<close> for \<open>-RT_ERROR\<close>.\<close>

definition rt_thread_timeout_fn :: nat where "rt_thread_timeout_fn = 2"

definition rt_thread_init :: "nat \<Rightarrow> nat \<Rightarrow> nat \<Rightarrow> u32 \<Rightarrow> sched \<Rightarrow> sched option" where
  "rt_thread_init t timer priority tick s = do {
     c_assert (priority < RT_THREAD_PRIORITY_MAX);
     let s = s\<lparr>threads := (threads s)(t := \<lparr>stat = RT_THREAD_INIT, init_priority = priority, current_priority = priority,
        number_mask = 0, thr_init_tick = tick, thr_remaining_tick = tick, thr_error = RT_EOK, thread_timer = timer\<rparr>)\<rparr>;
     rt_timer_init timer rt_thread_timeout_fn t 0 0 s
   }"

definition rt_thread_resume :: "nat \<Rightarrow> sched \<Rightarrow> (bool \<times> sched) option" where
  "rt_thread_resume t s =
     (if stat (threads s t) \<noteq> RT_THREAD_SUSPEND then Some (False, s)
      else do {
        let (_, s) = rt_timer_stop (thread_timer (threads s t)) s;
        s \<leftarrow> rt_schedule_insert_thread t s;
        Some (True, s)
      })"

definition rt_thread_startup :: "nat \<Rightarrow> sched \<Rightarrow> sched option" where
  "rt_thread_startup t s = do {
     c_assert (stat (threads s t) = RT_THREAD_INIT);
     let p = init_priority (threads s t);
     let s = s\<lparr>threads := (threads s)(t := (threads s t)\<lparr>current_priority := p, number_mask := push_bit p 1\<rparr>)\<rparr>;
     (_, s) \<leftarrow> rt_thread_resume t (set_stat t RT_THREAD_SUSPEND s);
     if rt_current_thread s \<noteq> None then rt_schedule s else Some s
   }"

definition rt_thread_suspend :: "nat \<Rightarrow> sched \<Rightarrow> (bool \<times> sched) option" where
  "rt_thread_suspend t s =
     (if stat (threads s t) \<noteq> RT_THREAD_READY \<and> stat (threads s t) \<noteq> RT_THREAD_RUNNING then Some (False, s)
      else do {
        c_assert (stat (threads s t) = RT_THREAD_RUNNING \<longrightarrow> rt_current_thread s = Some t);
        s \<leftarrow> rt_schedule_remove_thread t s;
        let s = set_stat t RT_THREAD_SUSPEND s;
        let (_, s) = rt_timer_stop (thread_timer (threads s t)) s;
        Some (True, s)
      })"

definition rt_thread_yield :: "sched \<Rightarrow> sched option" where
  "rt_thread_yield s = rt_schedule s"

text \<open>\<open>rt_thread_sleep\<close> up to the point where the thread comes back from the scheduler.\<close>

definition rt_thread_sleep :: "u32 \<Rightarrow> sched \<Rightarrow> sched option" where
  "rt_thread_sleep tick s = do {
     t \<leftarrow> rt_current_thread s;
     (_, s) \<leftarrow> rt_thread_suspend t s;
     let (_, s) = rt_timer_control (thread_timer (threads s t)) RT_TIMER_CTRL_SET_TIME tick s;
     s \<leftarrow> rt_timer_start (thread_timer (threads s t)) s;
     rt_schedule s
   }"

definition rt_thread_mdelay :: "int \<Rightarrow> sched \<Rightarrow> sched option" where
  "rt_thread_mdelay ms s = rt_thread_sleep (rt_tick_from_millisecond ms) s"

definition rt_thread_timeout :: "nat \<Rightarrow> sched \<Rightarrow> sched option" where
  "rt_thread_timeout t s = do {
     c_assert (stat (threads s t) = RT_THREAD_SUSPEND);
     let s = s\<lparr>threads := (threads s)(t := (threads s t)\<lparr>thr_error := RT_ETIMEOUT\<rparr>)\<rparr>;
     s \<leftarrow> rt_schedule_insert_thread t s;
     rt_schedule s
   }"

definition change_priority :: "nat \<Rightarrow> nat \<Rightarrow> sched \<Rightarrow> sched option" where
  "change_priority t p s = do {
     c_assert (p < RT_THREAD_PRIORITY_MAX);
     let assign = (\<lambda>s. s\<lparr>threads := (threads s)(t := (threads s t)\<lparr>current_priority := p, number_mask := push_bit p 1\<rparr>)\<rparr>);
     if stat (threads s t) = RT_THREAD_READY then do {
       s \<leftarrow> rt_schedule_remove_thread t s;
       rt_schedule_insert_thread t (assign s)
     } else Some (assign s)
   }"

text \<open>
  The ready queues are in order: the bitmap has the bits of the queues that are not empty, every queue
  holds ready threads of its priority, each once, and every ready thread is in its queue. Priorities are
  in range, and a thread that has been started has the mask of its priority.
\<close>

definition thread_ok :: "rt_thread \<Rightarrow> bool" where
  "thread_ok th \<longleftrightarrow> current_priority th < 32 \<and> init_priority th < 32
     \<and> (stat th \<noteq> RT_THREAD_INIT \<longrightarrow> number_mask th = push_bit (current_priority th) 1)"

definition queues_ok :: "sched \<Rightarrow> bool" where
  "queues_ok s \<longleftrightarrow> length (rt_thread_priority_table s) = 32
     \<and> (\<forall>p < 32. bit (rt_thread_ready_priority_group s) p \<longleftrightarrow> rt_thread_priority_table s ! p \<noteq> [])
     \<and> (\<forall>p < 32. distinct (rt_thread_priority_table s ! p))
     \<and> (\<forall>p < 32. \<forall>t. t \<in> set (rt_thread_priority_table s ! p) \<longleftrightarrow>
          stat (threads s t) = RT_THREAD_READY \<and> current_priority (threads s t) = p)
     \<and> (\<forall>t. thread_ok (threads s t))"

text \<open>Only the current thread is running, and it is in no queue.\<close>

definition current_ok :: "sched \<Rightarrow> bool" where
  "current_ok s \<longleftrightarrow> (\<forall>t. stat (threads s t) = RT_THREAD_RUNNING \<longrightarrow> rt_current_thread s = Some t)
     \<and> (\<forall>t. rt_current_thread s = Some t \<longrightarrow> stat (threads s t) \<noteq> RT_THREAD_READY \<and> stat (threads s t) \<noteq> RT_THREAD_INIT)"

definition sched_ok :: "sched \<Rightarrow> bool" where
  "sched_ok s \<longleftrightarrow> queues_ok s \<and> current_ok s"

text \<open>The operations of threads and of the clock on the scheduler.\<close>

inductive sched_step :: "sched \<Rightarrow> sched \<Rightarrow> bool" where
  Startup: "rt_thread_startup t s = Some s' \<Longrightarrow> sched_step s s'"
| Suspend: "rt_thread_suspend t s = Some (b, s') \<Longrightarrow> sched_step s s'"
| Resume: "rt_thread_resume t s = Some (b, s') \<Longrightarrow> sched_step s s'"
| Schedule: "rt_schedule s = Some s' \<Longrightarrow> sched_step s s'"
| Sleep: "rt_thread_sleep tick s = Some s' \<Longrightarrow> sched_step s s'"
| Timeout: "rt_thread_timeout t s = Some s' \<Longrightarrow> sched_step s s'"
| Priority: "change_priority t p s = Some s' \<Longrightarrow> sched_step s s'"
| Enter: "sched_step s (rt_enter_critical s)"
| Exit: "rt_exit_critical s = Some s' \<Longrightarrow> sched_step s s'"

text \<open>
  The start of the relay as far as the scheduler is concerned. main.c runs in a thread of priority 10 and
  starts the configuration task (TaskModbus.c, priority 20), the Modbus task (22), the radio task and the
  overtime task (TaskDataReceive.c, 11 both), in this order, then sleeps for 500 ms; the idle thread has
  priority 31. The time slices are 20 ticks for the main thread, 32 for the idle thread and 5 for the tasks. Thread \<open>t\<close> has timer \<open>t\<close>.
\<close>

definition MAIN :: nat where "MAIN = 0"
definition IDLE :: nat where "IDLE = 1"
definition SAVE_CONFIG :: nat where "SAVE_CONFIG = 2"
definition MODBUS_POLL :: nat where "MODBUS_POLL = 3"
definition DATA_RECEIVE :: nat where "DATA_RECEIVE = 4"
definition CHECK_OVER_TIME :: nat where "CHECK_OVER_TIME = 5"

definition create :: "nat \<Rightarrow> nat \<Rightarrow> u32 \<Rightarrow> sched \<Rightarrow> sched option" where
  "create t priority tick s = do { s \<leftarrow> rt_thread_init t t priority tick s; rt_thread_startup t s }"

definition fresh :: "nat \<Rightarrow> nat \<Rightarrow> u32 \<Rightarrow> rt_thread" where
  "fresh t p k = \<lparr>stat = RT_THREAD_READY, init_priority = p, current_priority = p, number_mask = push_bit p 1, thr_init_tick = k, thr_remaining_tick = k, thr_error = RT_EOK, thread_timer = t\<rparr>"

text \<open>The main thread runs, and everybody who is ready has a lower priority.\<close>

definition main_runs :: "sched \<Rightarrow> bool" where
  "main_runs s \<longleftrightarrow> sched_ok s \<and> rt_current_thread s = Some MAIN \<and> rt_scheduler_lock_nest s = 0 \<and> rt_timer_list s = []
     \<and> threads s MAIN = (fresh MAIN 10 20)\<lparr>stat := RT_THREAD_RUNNING\<rparr>
     \<and> (\<forall>u. stat (threads s u) = RT_THREAD_READY \<longrightarrow> 10 < current_priority (threads s u))"

definition power_on :: sched where
  "power_on = rt_system_scheduler_init
     \<lparr>objs = (\<lambda>_. \<lparr>tm_flag = 0, timeout_func = 0, tm_parameter = 0, init_tick = 0, timeout_tick = 0\<rparr>), rt_timer_list = [],
      rt_tick = 0, remaining_tick = 0, thread_init_tick = 0, yielded = False,
      threads = (\<lambda>_. \<lparr>stat = RT_THREAD_INIT, init_priority = 0, current_priority = 0, number_mask = 0, thr_init_tick = 0, thr_remaining_tick = 0, thr_error = RT_EOK, thread_timer = 0\<rparr>),
      rt_thread_priority_table = [], rt_thread_ready_priority_group = 0, rt_scheduler_lock_nest = 0, rt_current_thread = None,
      rt_current_priority = 0, rt_thread_defunct = []\<rparr>"

definition start_tasks :: "sched option" where
  "start_tasks = do {
     s \<leftarrow> create MAIN 10 20 power_on;
     s \<leftarrow> create IDLE 31 32 s;
     s \<leftarrow> rt_system_scheduler_start s;
     s \<leftarrow> create SAVE_CONFIG 20 5 s;
     s \<leftarrow> create MODBUS_POLL 22 5 s;
     s \<leftarrow> create DATA_RECEIVE 11 5 s;
     create CHECK_OVER_TIME 11 5 s
   }"

definition start_relay :: "sched option" where
  "start_relay = do { s \<leftarrow> start_tasks; rt_thread_mdelay 500 s }"

text \<open>A running thread 8 of priority 5 and a ready thread 9 of priority 3.\<close>

definition demo_sched :: sched where
  "demo_sched = power_on\<lparr>rt_current_thread := Some 8, rt_thread_ready_priority_group := 8,
     rt_thread_priority_table := (replicate 32 [])[3 := [9]],
     threads := (threads power_on)(
       8 := \<lparr>stat = RT_THREAD_RUNNING, init_priority = 5, current_priority = 5, number_mask = 32, thr_init_tick = 5, thr_remaining_tick = 5, thr_error = RT_EOK, thread_timer = 8\<rparr>,
       9 := \<lparr>stat = RT_THREAD_READY, init_priority = 3, current_priority = 3, number_mask = 8, thr_init_tick = 5, thr_remaining_tick = 5, thr_error = RT_EOK, thread_timer = 9\<rparr>)\<rparr>"

section \<open>The bitmap\<close>

lemma u32_some_bit: "(v :: u32) \<noteq> 0 \<Longrightarrow> \<exists>i < 32. bit v i"
  using bit_imp_le_length [of v] by (auto simp: bit_eq_iff)

lemma rt_ffs_spec:
  assumes "v \<noteq> 0"
  shows "\<exists>i < 32. rt_ffs v = i + 1 \<and> bit v i \<and> (\<forall>j < i. \<not> bit v j)"
proof -
  have "find (bit v) [0..<32] \<noteq> None" using u32_some_bit [OF assms] by (auto simp: find_None_iff)
  then obtain i where i: "find (bit v) [0..<32] = Some i" by blast
  then have "i < 32" "bit v i" "\<forall>j < i. \<not> bit v j" by (auto simp: find_Some_iff)
  with i show ?thesis by (simp add: rt_ffs_def)
qed

lemma get_highest_spec:
  assumes "queues_ok s" "rt_thread_ready_priority_group s \<noteq> 0"
  obtains t p where "get_highest_priority_thread s = Some (t, p)" "p < 32" "t \<in> set (rt_thread_priority_table s ! p)"
    "hd (rt_thread_priority_table s ! p) = t" "\<And>u. stat (threads s u) = RT_THREAD_READY \<Longrightarrow> p \<le> current_priority (threads s u)"
proof -
  obtain p where p: "p < 32" "rt_ffs (rt_thread_ready_priority_group s) = p + 1"
    "bit (rt_thread_ready_priority_group s) p" "\<forall>j < p. \<not> bit (rt_thread_ready_priority_group s) j"
    using rt_ffs_spec [OF assms(2)] by blast
  have len: "length (rt_thread_priority_table s) = 32" using assms(1) by (simp add: queues_ok_def)
  have "rt_thread_priority_table s ! p \<noteq> []" using assms(1) p by (simp add: queues_ok_def)
  then obtain t ts where t: "rt_thread_priority_table s ! p = t # ts" by (cases "rt_thread_priority_table s ! p") auto
  have "p \<le> current_priority (threads s u)" if "stat (threads s u) = RT_THREAD_READY" for u
  proof (rule ccontr)
    let ?q = "current_priority (threads s u)"
    assume "\<not> p \<le> ?q"
    then have "rt_thread_priority_table s ! ?q = []" using assms(1) p by (simp add: queues_ok_def)
    moreover have "u \<in> set (rt_thread_priority_table s ! ?q)"
      using assms(1) that by (auto simp: queues_ok_def thread_ok_def)
    ultimately show False by simp
  qed
  then show ?thesis
    using that [of t p] p len t by (simp add: get_highest_priority_thread_def)
qed

lemma ready_group:
  assumes "queues_ok s" "stat (threads s u) = RT_THREAD_READY"
  shows "rt_thread_ready_priority_group s \<noteq> 0"
proof -
  let ?p = "current_priority (threads s u)"
  have p: "?p < 32" using assms(1) by (simp add: queues_ok_def thread_ok_def)
  then have "u \<in> set (rt_thread_priority_table s ! ?p)" using assms by (simp add: queues_ok_def)
  then have "rt_thread_priority_table s ! ?p \<noteq> []" by force
  with p assms(1) have "bit (rt_thread_ready_priority_group s) ?p" by (simp add: queues_ok_def)
  then show ?thesis by (metis bit_0_eq bot_apply bot_bool_def)
qed

section \<open>The queues\<close>

lemma set_stat_simps [simp]:
  "rt_thread_priority_table (set_stat t st s) = rt_thread_priority_table s"
  "rt_thread_ready_priority_group (set_stat t st s) = rt_thread_ready_priority_group s"
  "rt_current_thread (set_stat t st s) = rt_current_thread s" "rt_scheduler_lock_nest (set_stat t st s) = rt_scheduler_lock_nest s"
  "threads (set_stat t st s) = (threads s)(t := (threads s t)\<lparr>stat := st\<rparr>)"
  by (simp_all add: set_stat_def)

lemma insert_spec:
  assumes "queues_ok s" "rt_current_thread s \<noteq> Some t" "stat (threads s t) \<noteq> RT_THREAD_READY" "stat (threads s t) \<noteq> RT_THREAD_INIT"
  shows "\<exists>s'. rt_schedule_insert_thread t s = Some s' \<and> queues_ok s'
    \<and> threads s' = (threads s)(t := (threads s t)\<lparr>stat := RT_THREAD_READY\<rparr>) \<and> rt_current_thread s' = rt_current_thread s
    \<and> rt_scheduler_lock_nest s' = rt_scheduler_lock_nest s \<and> rt_thread_ready_priority_group s' \<noteq> 0"
proof -
  let ?p = "current_priority (threads s t)"
  let ?tab = "(rt_thread_priority_table s)[?p := rt_thread_priority_table s ! ?p @ [t]]"
  let ?g = "rt_thread_ready_priority_group s OR push_bit ?p 1"
  have th: "thread_ok (threads s u)" for u using assms(1) by (simp add: queues_ok_def)
  then have p: "?p < 32" "number_mask (threads s t) = push_bit ?p 1" using assms(4) by (auto simp: thread_ok_def)
  have len: "length (rt_thread_priority_table s) = 32" using assms(1) by (simp add: queues_ok_def)
  let ?s = "(set_stat t RT_THREAD_READY s)\<lparr>rt_thread_priority_table := ?tab, rt_thread_ready_priority_group := ?g\<rparr>"
  have i: "rt_schedule_insert_thread t s = Some ?s"
    using assms(2) p len by (simp add: rt_schedule_insert_thread_def)
  have "bit ?g q \<longleftrightarrow> ?tab ! q \<noteq> []" if "q < 32" for q
    using assms(1) that p(1) len by (auto simp: queues_ok_def bit_simps nth_list_update)
  moreover have "distinct (?tab ! q)" if "q < 32" for q
    using assms(1,3) that p(1) len by (auto simp: queues_ok_def nth_list_update)
  moreover have "u \<in> set (?tab ! q) \<longleftrightarrow> stat (threads ?s u) = RT_THREAD_READY \<and> current_priority (threads ?s u) = q"
    if "q < 32" for q u
    using assms(1,3) that p(1) len by (auto simp: queues_ok_def nth_list_update)
  moreover have "thread_ok (threads ?s u)" for u using th [of u] th [of t] assms(4) by (simp add: thread_ok_def)
  ultimately have "queues_ok ?s" using len by (simp add: queues_ok_def)
  moreover have "bit ?g ?p" using p(1) by (simp add: bit_simps)
  then have "?g \<noteq> 0" by (metis bit_0_eq bot_apply bot_bool_def)
  ultimately show ?thesis using i by (intro exI [of _ ?s]) simp
qed

lemma remove_spec:
  assumes "queues_ok s" "stat (threads s t) \<noteq> RT_THREAD_INIT" "st \<noteq> RT_THREAD_READY" "st \<noteq> RT_THREAD_INIT"
  shows "\<exists>s'. rt_schedule_remove_thread t s = Some s' \<and> queues_ok (set_stat t st s') \<and> threads s' = threads s
    \<and> rt_current_thread s' = rt_current_thread s \<and> rt_scheduler_lock_nest s' = rt_scheduler_lock_nest s"
proof -
  let ?p = "current_priority (threads s t)"
  let ?tab = "map (filter (\<lambda>u. u \<noteq> t)) (rt_thread_priority_table s)"
  let ?g = "if ?tab ! ?p = [] then rt_thread_ready_priority_group s AND NOT (push_bit ?p 1) else rt_thread_ready_priority_group s"
  have th: "thread_ok (threads s u)" for u using assms(1) by (simp add: queues_ok_def)
  then have p: "?p < 32" "number_mask (threads s t) = push_bit ?p 1" using assms(2) by (auto simp: thread_ok_def)
  have len: "length (rt_thread_priority_table s) = 32" using assms(1) by (simp add: queues_ok_def)
  let ?s = "s\<lparr>rt_thread_priority_table := ?tab, rt_thread_ready_priority_group := ?g\<rparr>"
  have r: "rt_schedule_remove_thread t s = Some ?s"
    using p len by (simp add: rt_schedule_remove_thread_def)
  have other: "?tab ! q = rt_thread_priority_table s ! q" if "q < 32" "q \<noteq> ?p" for q
    using assms(1) that len by (auto simp: queues_ok_def filter_id_conv)
  have "bit ?g q \<longleftrightarrow> ?tab ! q \<noteq> []" if "q < 32" for q
  proof (cases "q = ?p")
    case True
    have "?tab ! ?p \<noteq> [] \<Longrightarrow> rt_thread_priority_table s ! ?p \<noteq> []" using p(1) len by auto
    then show ?thesis using True assms(1) p(1) by (auto simp: queues_ok_def bit_simps)
  next
    case False
    then show ?thesis using other [OF that False] assms(1) that by (auto simp: queues_ok_def bit_simps)
  qed
  moreover have "distinct (?tab ! q)" if "q < 32" for q using assms(1) that len by (simp add: queues_ok_def)
  moreover have "u \<in> set (?tab ! q) \<longleftrightarrow> stat (threads (set_stat t st ?s) u) = RT_THREAD_READY
      \<and> current_priority (threads (set_stat t st ?s) u) = q" if "q < 32" for q u
    using assms(1,3) that len by (auto simp: queues_ok_def)
  moreover have "thread_ok (threads (set_stat t st ?s) u)" for u using th [of u] th [of t] assms(2) by (auto simp: thread_ok_def)
  ultimately have "queues_ok (set_stat t st ?s)" using len by (simp add: queues_ok_def)
  then show ?thesis using r by (intro exI [of _ ?s]) simp
qed


section \<open>Scheduling\<close>

lemma switch_spec:
  assumes "sched_ok s" "rt_current_thread s = Some c" "stat (threads s t) = RT_THREAD_READY" "run \<longleftrightarrow> stat (threads s c) = RT_THREAD_RUNNING"
  shows "\<exists>s'. switch_to t p c run s = Some s' \<and> sched_ok s' \<and> rt_current_thread s' = Some t
    \<and> rt_scheduler_lock_nest s' = rt_scheduler_lock_nest s
    \<and> threads s' = (if run then (threads s)(c := (threads s c)\<lparr>stat := RT_THREAD_READY\<rparr>) else threads s)(t := (threads s t)\<lparr>stat := RT_THREAD_RUNNING\<rparr>)"
proof -
  have q: "queues_ok s" and cur: "current_ok s" using assms(1) by (simp_all add: sched_ok_def)
  have c: "stat (threads s c) \<noteq> RT_THREAD_READY" "stat (threads s c) \<noteq> RT_THREAD_INIT" "c \<noteq> t"
    using cur assms(2,3) by (auto simp: current_ok_def)
  let ?s1 = "s\<lparr>rt_current_priority := p, rt_current_thread := Some t\<rparr>"
  have q1: "queues_ok ?s1" using q by (simp add: queues_ok_def)
  obtain s2 where s2: "(if run then rt_schedule_insert_thread c ?s1 else Some ?s1) = Some s2" "queues_ok s2"
    "threads s2 = (if run then (threads s)(c := (threads s c)\<lparr>stat := RT_THREAD_READY\<rparr>) else threads s)"
    "rt_current_thread s2 = Some t" "rt_scheduler_lock_nest s2 = rt_scheduler_lock_nest s"
  proof (cases run)
    case True
    then show ?thesis using insert_spec [OF q1, of c] c that by fastforce
  next
    case False
    then show ?thesis using that [of ?s1] q1 by simp
  qed
  have "stat (threads s2 t) \<noteq> RT_THREAD_INIT" using s2(3) assms(3) c(3) by simp
  from remove_spec [OF s2(2) this, of RT_THREAD_RUNNING] obtain s3 where
    s3: "rt_schedule_remove_thread t s2 = Some s3" "queues_ok (set_stat t RT_THREAD_RUNNING s3)" "threads s3 = threads s2"
      "rt_current_thread s3 = rt_current_thread s2" "rt_scheduler_lock_nest s3 = rt_scheduler_lock_nest s2"
    by auto
  have "stat (threads s2 u) \<noteq> RT_THREAD_RUNNING" if "u \<noteq> t" for u
  proof (cases "u = c")
    case True
    then show ?thesis using s2(3) assms(4) by simp
  next
    case False
    then have "stat (threads s u) \<noteq> RT_THREAD_RUNNING" using cur assms(2) by (auto simp: current_ok_def)
    with False show ?thesis using s2(3) by simp
  qed
  then have "current_ok (set_stat t RT_THREAD_RUNNING s3)"
    using s3(3,4) s2(4) by (simp add: current_ok_def)
  then show ?thesis
    using s2 s3 c(3) assms(3) by (intro exI [of _ "set_stat t RT_THREAD_RUNNING s3"]) (simp add: switch_to_def sched_ok_def)
qed

lemma rt_schedule_spec:
  assumes "sched_ok s" "rt_current_thread s = Some c" "rt_scheduler_lock_nest s = 0" "rt_thread_ready_priority_group s \<noteq> 0"
  shows "\<exists>s' t. rt_schedule s = Some s' \<and> sched_ok s' \<and> rt_current_thread s' = Some t \<and> stat (threads s' t) = RT_THREAD_RUNNING
    \<and> (\<forall>u. stat (threads s' u) = RT_THREAD_READY \<longrightarrow> current_priority (threads s' t) \<le> current_priority (threads s' u))
    \<and> (t \<noteq> c \<longrightarrow> stat (threads s t) = RT_THREAD_READY \<and> t = hd (rt_thread_priority_table s ! current_priority (threads s t)))
    \<and> (t = c \<longrightarrow> stat (threads s c) = RT_THREAD_RUNNING)
    \<and> threads s' = (if t \<noteq> c \<and> stat (threads s c) = RT_THREAD_RUNNING then (threads s)(c := (threads s c)\<lparr>stat := RT_THREAD_READY\<rparr>) else threads s)
        (t := (threads s t)\<lparr>stat := RT_THREAD_RUNNING\<rparr>)
    \<and> rt_scheduler_lock_nest s' = 0"
proof -
  have q: "queues_ok s" and cur: "current_ok s" using assms(1) by (simp_all add: sched_ok_def)
  obtain t p where g: "get_highest_priority_thread s = Some (t, p)" "p < 32" "t \<in> set (rt_thread_priority_table s ! p)"
    "hd (rt_thread_priority_table s ! p) = t" "\<And>u. stat (threads s u) = RT_THREAD_READY \<Longrightarrow> p \<le> current_priority (threads s u)"
    using get_highest_spec [OF q assms(4)] by blast
  have t: "stat (threads s t) = RT_THREAD_READY" "current_priority (threads s t) = p" using q g(2,3) by (auto simp: queues_ok_def)
  have c: "stat (threads s c) \<noteq> RT_THREAD_READY" "stat (threads s c) \<noteq> RT_THREAD_INIT" "t \<noteq> c"
    using cur assms(2) t(1) by (auto simp: current_ok_def)
  show ?thesis
  proof (cases "stat (threads s c) = RT_THREAD_RUNNING \<and> current_priority (threads s c) < p")
    case True
    obtain s' where s': "rt_schedule_remove_thread c s = Some s'" "queues_ok (set_stat c RT_THREAD_RUNNING s')" "threads s' = threads s"
      "rt_current_thread s' = rt_current_thread s" "rt_scheduler_lock_nest s' = rt_scheduler_lock_nest s"
      using remove_spec [OF q c(2), of RT_THREAD_RUNNING] by auto
    have "current_ok (set_stat c RT_THREAD_RUNNING s')" using s'(3,4) cur assms(2) by (auto simp: current_ok_def)
    moreover have "current_priority (threads s c) \<le> current_priority (threads s u)" if "stat (threads s u) = RT_THREAD_READY" for u
      using g(5) [OF that] True by simp
    moreover have "rt_schedule s = Some (set_stat c RT_THREAD_RUNNING s')"
      using True g(1) assms(2-4) s'(1) by (simp add: rt_schedule_def)
    moreover have "threads (set_stat c RT_THREAD_RUNNING s') = threads s" using s'(3) True by (auto simp: fun_eq_iff)
    ultimately show ?thesis
      using True assms(2,3) s'(2,4,5) by (intro exI [of _ "set_stat c RT_THREAD_RUNNING s'"] exI [of _ c]) (auto simp: sched_ok_def)
  next
    case False
    obtain s' where s': "switch_to t p c (stat (threads s c) = RT_THREAD_RUNNING) s = Some s'" "sched_ok s'" "rt_current_thread s' = Some t"
      "rt_scheduler_lock_nest s' = rt_scheduler_lock_nest s"
      "threads s' = (if stat (threads s c) = RT_THREAD_RUNNING then (threads s)(c := (threads s c)\<lparr>stat := RT_THREAD_READY\<rparr>) else threads s)
        (t := (threads s t)\<lparr>stat := RT_THREAD_RUNNING\<rparr>)"
      using switch_spec [OF assms(1,2) t(1) refl] by blast
    have "rt_schedule s = Some s'"
      using False g(1) assms(2-4) s'(1) c(3) by (auto simp: rt_schedule_def Let_def)
    moreover have "p \<le> current_priority (threads s' u)" if "stat (threads s' u) = RT_THREAD_READY" for u
      using that g(5) [of u] False s'(5) c(3) by (auto split: if_splits)
    ultimately show ?thesis
      using s' t g(4) assms(3) c(3) by (intro exI [of _ s'] exI [of _ t]) auto
  qed
qed

lemma rt_schedule_ok:
  assumes "sched_ok s" "rt_schedule s = Some s'"
  shows "sched_ok s'"
proof (cases "rt_scheduler_lock_nest s = 0 \<and> rt_thread_ready_priority_group s \<noteq> 0")
  case True
  then obtain c where "rt_current_thread s = Some c"
    using assms(2) by (auto simp: rt_schedule_def bind_eq_Some_conv split: prod.splits)
  then show ?thesis using rt_schedule_spec [OF assms(1)] True assms(2) by fastforce
next
  case False
  then show ?thesis using assms by (auto simp: rt_schedule_def)
qed


section \<open>Threads\<close>

lemma sched_ok_cong:
  assumes "threads s' = threads s" "rt_thread_priority_table s' = rt_thread_priority_table s"
    "rt_thread_ready_priority_group s' = rt_thread_ready_priority_group s" "rt_current_thread s' = rt_current_thread s"
  shows "sched_ok s' \<longleftrightarrow> sched_ok s"
  using assms by (simp add: sched_ok_def queues_ok_def current_ok_def)

lemma timer_stop_kept [simp]:
  "threads (snd (rt_timer_stop t s)) = threads s" "rt_current_thread (snd (rt_timer_stop t s)) = rt_current_thread s"
  "rt_thread_priority_table (snd (rt_timer_stop t s)) = rt_thread_priority_table s"
  "rt_thread_ready_priority_group (snd (rt_timer_stop t s)) = rt_thread_ready_priority_group s"
  "rt_scheduler_lock_nest (snd (rt_timer_stop t s)) = rt_scheduler_lock_nest s"
  by (simp_all add: rt_timer_stop_def set_flag_def rt_timer_remove_def)

lemma timer_stop_ok: "sched_ok (snd (rt_timer_stop t s)) \<longleftrightarrow> sched_ok s"
  by (rule sched_ok_cong) simp_all

lemma timer_start_ok:
  assumes "rt_timer_start t s = Some s'"
  shows "sched_ok s' \<longleftrightarrow> sched_ok s"
  using assms
  by (intro sched_ok_cong) (auto simp: rt_timer_start_def set_flag_def rt_timer_remove_def Let_def bind_eq_Some_conv)

lemma timer_set_time_ok: "sched_ok (snd (rt_timer_control t RT_TIMER_CTRL_SET_TIME v s)) \<longleftrightarrow> sched_ok s"
  by (rule sched_ok_cong) (simp_all add: rt_timer_control_def)

lemma insert_ok:
  assumes "sched_ok s" "stat (threads s t) = RT_THREAD_SUSPEND" "rt_schedule_insert_thread t s = Some s'"
  shows "sched_ok s'"
proof (cases "rt_current_thread s = Some t")
  case True
  then have "s' = set_stat t RT_THREAD_RUNNING s" using assms(3) by (simp add: rt_schedule_insert_thread_def)
  then show ?thesis using assms(1,2) True by (auto simp: sched_ok_def queues_ok_def current_ok_def thread_ok_def)
next
  case False
  have "queues_ok s" "current_ok s" using assms(1) by (simp_all add: sched_ok_def)
  with insert_spec [OF this(1) False] assms(2,3) have "queues_ok s'"
    "threads s' = (threads s)(t := (threads s t)\<lparr>stat := RT_THREAD_READY\<rparr>)" "rt_current_thread s' = rt_current_thread s" by auto
  with \<open>current_ok s\<close> False show ?thesis by (simp add: sched_ok_def current_ok_def)
qed

lemma insert_set_stat:
  "rt_current_thread s \<noteq> Some t \<Longrightarrow> rt_schedule_insert_thread t (set_stat t st s) = rt_schedule_insert_thread t s"
  by (simp add: rt_schedule_insert_thread_def set_stat_def)

lemma rt_thread_resume_ok: "sched_ok s \<Longrightarrow> rt_thread_resume t s = Some (b, s') \<Longrightarrow> sched_ok s'"
  using insert_ok [of "snd (rt_timer_stop (thread_timer (threads s t)) s)" t s']
  by (auto simp: rt_thread_resume_def timer_stop_ok bind_eq_Some_conv split: if_splits prod.splits)

lemma remove_ok:
  assumes "sched_ok s" "stat (threads s t) = RT_THREAD_READY \<or> rt_current_thread s = Some t" "rt_schedule_remove_thread t s = Some s'"
  shows "sched_ok (set_stat t RT_THREAD_SUSPEND s')" "threads s' = threads s" "rt_current_thread s' = rt_current_thread s"
proof -
  have q: "queues_ok s" "current_ok s" using assms(1) by (simp_all add: sched_ok_def)
  have "stat (threads s t) \<noteq> RT_THREAD_INIT" using q(2) assms(2) by (auto simp: current_ok_def)
  from remove_spec [OF q(1) this, of RT_THREAD_SUSPEND] assms(3) have
    *: "queues_ok (set_stat t RT_THREAD_SUSPEND s')" "threads s' = threads s" "rt_current_thread s' = rt_current_thread s" by auto
  then show "threads s' = threads s" "rt_current_thread s' = rt_current_thread s" by simp_all
  show "sched_ok (set_stat t RT_THREAD_SUSPEND s')" using * q(2) by (simp add: sched_ok_def current_ok_def)
qed

lemma rt_thread_suspend_ok:
  assumes "sched_ok s" "rt_thread_suspend t s = Some (b, s')"
  shows "sched_ok s'"
proof (cases "stat (threads s t) \<noteq> RT_THREAD_READY \<and> stat (threads s t) \<noteq> RT_THREAD_RUNNING")
  case True
  then show ?thesis using assms by (simp add: rt_thread_suspend_def)
next
  case False
  then obtain s1 where s1: "stat (threads s t) = RT_THREAD_READY \<or> rt_current_thread s = Some t" "rt_schedule_remove_thread t s = Some s1"
    and s': "s' = snd (rt_timer_stop (thread_timer (threads (set_stat t RT_THREAD_SUSPEND s1) t)) (set_stat t RT_THREAD_SUSPEND s1))"
    using assms(2) by (auto simp: rt_thread_suspend_def bind_eq_Some_conv case_prod_beta Let_def)
  show ?thesis unfolding s' timer_stop_ok by (rule remove_ok(1) [OF assms(1) s1])
qed

lemma rt_thread_startup_ok:
  assumes "sched_ok s" "rt_thread_startup t s = Some s'"
  shows "sched_ok s'"
proof -
  let ?s1 = "set_stat t RT_THREAD_SUSPEND (s\<lparr>threads := (threads s)(t := (threads s t)\<lparr>current_priority := init_priority (threads s t),
      number_mask := push_bit (init_priority (threads s t)) 1\<rparr>)\<rparr>)"
  have i: "stat (threads s t) = RT_THREAD_INIT" using assms(2) by (simp add: rt_thread_startup_def bind_eq_Some_conv)
  then obtain b s2 where s2: "rt_thread_resume t ?s1 = Some (b, s2)" "(if rt_current_thread s2 \<noteq> None then rt_schedule s2 else Some s2) = Some s'"
    using assms(2) by (auto simp: rt_thread_startup_def bind_eq_Some_conv Let_def)
  have "sched_ok ?s1" using assms(1) i by (auto simp: sched_ok_def queues_ok_def current_ok_def thread_ok_def)
  from rt_thread_resume_ok [OF this s2(1)] s2(2) show ?thesis using rt_schedule_ok by (auto split: if_splits)
qed

lemma rt_thread_sleep_ok:
  assumes "sched_ok s" "rt_thread_sleep tick s = Some s'"
  shows "sched_ok s'"
proof -
  obtain t b s1 s2 where s: "rt_thread_suspend t s = Some (b, s1)"
    "rt_timer_start (thread_timer (threads (snd (rt_timer_control (thread_timer (threads s1 t)) RT_TIMER_CTRL_SET_TIME tick s1)) t)) (snd (rt_timer_control (thread_timer (threads s1 t)) RT_TIMER_CTRL_SET_TIME tick s1)) = Some s2"
    "rt_schedule s2 = Some s'"
    using assms(2) by (auto simp: rt_thread_sleep_def bind_eq_Some_conv case_prod_beta Let_def)
  from rt_thread_suspend_ok [OF assms(1) s(1)] timer_start_ok [OF s(2)] have "sched_ok s2" by (simp add: timer_set_time_ok)
  then show ?thesis using rt_schedule_ok s(3) by blast
qed

lemma rt_thread_timeout_ok:
  assumes "sched_ok s" "rt_thread_timeout t s = Some s'"
  shows "sched_ok s'"
proof -
  let ?s1 = "s\<lparr>threads := (threads s)(t := (threads s t)\<lparr>thr_error := RT_ETIMEOUT\<rparr>)\<rparr>"
  obtain s2 where s: "stat (threads s t) = RT_THREAD_SUSPEND" "rt_schedule_insert_thread t ?s1 = Some s2" "rt_schedule s2 = Some s'"
    using assms(2) by (auto simp: rt_thread_timeout_def bind_eq_Some_conv)
  have "sched_ok ?s1" using assms(1) by (simp add: sched_ok_def queues_ok_def current_ok_def thread_ok_def)
  from insert_ok [OF this _ s(2)] s(1) have "sched_ok s2" by simp
  then show ?thesis using rt_schedule_ok s(3) by blast
qed

lemma change_priority_ok:
  assumes "sched_ok s" "change_priority t p s = Some s'"
  shows "sched_ok s'"
proof -
  let ?f = "\<lambda>s. s\<lparr>threads := (threads s)(t := (threads s t)\<lparr>current_priority := p, number_mask := push_bit p 1\<rparr>)\<rparr>"
  have p: "p < 32" using assms(2) by (auto simp: change_priority_def RT_THREAD_PRIORITY_MAX_def bind_eq_Some_conv)
  have f: "sched_ok (?f s)" if "sched_ok s" "stat (threads s t) \<noteq> RT_THREAD_READY" for s
    using that p by (auto simp: sched_ok_def queues_ok_def current_ok_def thread_ok_def)
  show ?thesis
  proof (cases "stat (threads s t) = RT_THREAD_READY")
    case True
    then obtain s1 where s1: "rt_schedule_remove_thread t s = Some s1" "rt_schedule_insert_thread t (?f s1) = Some s'"
      using assms(2) by (auto simp: change_priority_def bind_eq_Some_conv)
    note r = remove_ok [OF assms(1) disjI1 [OF True] s1(1)]
    have "rt_current_thread s1 \<noteq> Some t" using True assms(1) r(3) by (auto simp: sched_ok_def current_ok_def)
    then have "rt_schedule_insert_thread t (set_stat t RT_THREAD_SUSPEND (?f s1)) = Some s'" using s1(2) by (simp add: insert_set_stat)
    moreover have "set_stat t RT_THREAD_SUSPEND (?f s1) = ?f (set_stat t RT_THREAD_SUSPEND s1)"
      by (cases "threads s1 t") (simp add: set_stat_def)
    moreover have "sched_ok (?f (set_stat t RT_THREAD_SUSPEND s1))" by (rule f [OF r(1)]) simp
    ultimately show ?thesis using insert_ok [of "?f (set_stat t RT_THREAD_SUSPEND s1)" t s'] by simp
  next
    case False
    then show ?thesis using assms f p by (auto simp: change_priority_def bind_eq_Some_conv)
  qed
qed

lemma sched_step_ok: "sched_step s s' \<Longrightarrow> sched_ok s \<Longrightarrow> sched_ok s'"
proof (induction rule: sched_step.induct)
  case (Enter s)
  then show ?case by (subst sched_ok_cong [of _ s]) (simp_all add: rt_enter_critical_def)
next
  case (Exit s s')
  have "sched_ok (s\<lparr>rt_scheduler_lock_nest := n\<rparr>)" for n using Exit.prems by (subst sched_ok_cong [of _ s]) simp_all
  then show ?case using Exit.hyps rt_schedule_ok by (auto simp: rt_exit_critical_def Let_def split: if_splits)
qed (auto intro: rt_thread_startup_ok rt_thread_suspend_ok rt_thread_resume_ok rt_schedule_ok rt_thread_sleep_ok
    rt_thread_timeout_ok change_priority_ok)


section \<open>The start of the relay\<close>

lemma timers_untouched:
  "rt_schedule_insert_thread t s = Some s' \<Longrightarrow> rt_timer_list s' = rt_timer_list s"
  "rt_schedule_remove_thread t s = Some s' \<Longrightarrow> rt_timer_list s' = rt_timer_list s"
  by (auto simp: rt_schedule_insert_thread_def rt_schedule_remove_thread_def set_stat_def bind_eq_Some_conv Let_def split: if_splits)

lemma schedule_timers: "rt_schedule s = Some s' \<Longrightarrow> rt_timer_list s' = rt_timer_list s"
  by (auto simp: rt_schedule_def switch_to_def set_stat_def bind_eq_Some_conv Let_def dest!: timers_untouched split: if_splits prod.splits)

text \<open>A thread as \<open>create\<close> leaves it.\<close>

lemma create_spec:
  assumes "sched_ok s" "p < 32" "stat (threads s t) = RT_THREAD_INIT" "t \<notin> set (rt_timer_list s)" "rt_scheduler_lock_nest s = 0"
    and "\<And>c. rt_current_thread s = Some c \<Longrightarrow> stat (threads s c) = RT_THREAD_RUNNING \<and> current_priority (threads s c) < p
      \<and> (\<forall>u. stat (threads s u) = RT_THREAD_READY \<longrightarrow> current_priority (threads s c) < current_priority (threads s u))"
  shows "\<exists>s'. create t p k s = Some s' \<and> sched_ok s' \<and> rt_current_thread s' = rt_current_thread s \<and> rt_scheduler_lock_nest s' = 0
    \<and> rt_timer_list s' = rt_timer_list s \<and> threads s' = (threads s)(t := fresh t p k)"
proof -
  let ?th = "\<lambda>st. \<lparr>stat = st, init_priority = p, current_priority = p, number_mask = push_bit p 1, thr_init_tick = k, thr_remaining_tick = k, thr_error = RT_EOK, thread_timer = t\<rparr>"
  let ?s2 = "s\<lparr>objs := (objs s)(t := \<lparr>tm_flag = 0, timeout_func = rt_thread_timeout_fn, tm_parameter = t, init_tick = 0, timeout_tick = 0\<rparr>),
      threads := (threads s)(t := ?th RT_THREAD_SUSPEND)\<rparr>"
  have nc: "rt_current_thread s \<noteq> Some t" using assms(1,3) by (auto simp: sched_ok_def current_ok_def)
  have ok2: "sched_ok ?s2"
    using assms(1-3) nc by (auto simp: sched_ok_def queues_ok_def current_ok_def thread_ok_def)
  have st: "rt_timer_stop t ?s2 = (False, ?s2)" by (simp add: rt_timer_stop_def)
  obtain s3 where s3: "rt_schedule_insert_thread t ?s2 = Some s3" "threads s3 = (threads s)(t := fresh t p k)"
    "rt_current_thread s3 = rt_current_thread s" "rt_scheduler_lock_nest s3 = 0" "rt_thread_ready_priority_group s3 \<noteq> 0"
    using insert_spec [of ?s2 t] ok2 nc assms(5) by (auto simp: sched_ok_def fresh_def)
  have ok3: "sched_ok s3" by (rule insert_ok [OF ok2 _ s3(1)]) simp
  have l3: "rt_timer_list s3 = rt_timer_list s" using timers_untouched(1) [OF s3(1)] by simp
  have cr: "create t p k s = (if rt_current_thread s \<noteq> None then rt_schedule s3 else Some s3)"
    using assms(2-4) s3(1,3) st
    by (simp add: create_def rt_thread_init_def rt_timer_init_def rt_thread_startup_def rt_thread_resume_def set_stat_def
        RT_THREAD_PRIORITY_MAX_def)
  show ?thesis
  proof (cases "rt_current_thread s")
    case None
    then show ?thesis using cr ok3 s3 l3 by simp
  next
    case (Some c)
    note c = assms(6) [OF Some]
    have "c \<noteq> t" using Some nc by blast
    then have c3: "stat (threads s3 c) = RT_THREAD_RUNNING" "threads s3 c = threads s c" using c s3(2) by simp_all
    have cur3: "rt_current_thread s3 = Some c" using s3(3) Some by simp
    obtain s' u where s': "rt_schedule s3 = Some s'" "sched_ok s'" "rt_current_thread s' = Some u" "rt_scheduler_lock_nest s' = 0"
      "\<forall>v. stat (threads s' v) = RT_THREAD_READY \<longrightarrow> current_priority (threads s' u) \<le> current_priority (threads s' v)"
      "u \<noteq> c \<longrightarrow> stat (threads s3 u) = RT_THREAD_READY"
      "threads s' = (if u \<noteq> c \<and> stat (threads s3 c) = RT_THREAD_RUNNING then (threads s3)(c := (threads s3 c)\<lparr>stat := RT_THREAD_READY\<rparr>) else threads s3)
        (u := (threads s3 u)\<lparr>stat := RT_THREAD_RUNNING\<rparr>)"
      using rt_schedule_spec [OF ok3 cur3 s3(4,5)] by blast
    have "u = c"
    proof (rule ccontr)
      assume "u \<noteq> c"
      then have "current_priority (threads s3 u) \<le> current_priority (threads s c)" using s'(5,7) c3 by (auto split: if_splits)
      moreover have "current_priority (threads s c) < current_priority (threads s3 u)"
        using s'(6) \<open>u \<noteq> c\<close> s3(2) c by (auto simp: fresh_def split: if_splits)
      ultimately show False by simp
    qed
    then have "threads s' = threads s3" using s'(7) c3(1) by (auto simp: fun_eq_iff)
    then show ?thesis using cr Some s' \<open>u = c\<close> s3(2) schedule_timers [OF s'(1)] l3 by auto
  qed
qed

lemma power_on_ok: "sched_ok power_on"
  by (simp add: power_on_def rt_system_scheduler_init_def sched_ok_def queues_ok_def current_ok_def thread_ok_def
      RT_THREAD_PRIORITY_MAX_def)

lemma demo_sched_ok: "sched_ok demo_sched"
proof -
  have "bit (8 :: u32) p \<longleftrightarrow> p = 3" if "p < 32" for p
    using bit_push_bit_iff [of 3 "1 :: u32" p] that by (auto simp: bit_simps)
  then show ?thesis
    by (auto simp: demo_sched_def sched_ok_def queues_ok_def current_ok_def thread_ok_def nth_list_update power_on_def
        rt_system_scheduler_init_def RT_THREAD_PRIORITY_MAX_def)
qed

text \<open>A running thread that goes to sleep makes way for the best of the others.\<close>

lemma sleep_spec:
  assumes "sched_ok s" "rt_current_thread s = Some c" "stat (threads s c) = RT_THREAD_RUNNING" "rt_scheduler_lock_nest s = 0"
    "stat (threads s u) = RT_THREAD_READY" "tick < RT_TICK_MAX div 2"
  shows "\<exists>s' t. rt_thread_sleep tick s = Some s' \<and> sched_ok s' \<and> rt_current_thread s' = Some t \<and> rt_scheduler_lock_nest s' = 0
    \<and> stat (threads s t) = RT_THREAD_READY \<and> t = hd (rt_thread_priority_table s ! current_priority (threads s t))
    \<and> (\<forall>v. stat (threads s v) = RT_THREAD_READY \<longrightarrow> current_priority (threads s t) \<le> current_priority (threads s v))
    \<and> threads s' = (threads s)(c := (threads s c)\<lparr>stat := RT_THREAD_SUSPEND\<rparr>, t := (threads s t)\<lparr>stat := RT_THREAD_RUNNING\<rparr>)"
proof -
  have q: "queues_ok s" "current_ok s" using assms(1) by (simp_all add: sched_ok_def)
  obtain s1 where s1: "rt_schedule_remove_thread c s = Some s1" "sched_ok (set_stat c RT_THREAD_SUSPEND s1)" "threads s1 = threads s"
    "rt_current_thread s1 = Some c" "rt_scheduler_lock_nest s1 = 0"
    using remove_spec [OF q(1), of c RT_THREAD_SUSPEND] remove_ok [OF assms(1) disjI2 [OF assms(2)]] assms(2-4) by fastforce
  have c: "c \<notin> set (rt_thread_priority_table s ! p)" if "p < 32" for p using q(1) that assms(3) by (simp add: queues_ok_def)
  have tab: "rt_thread_priority_table s1 = rt_thread_priority_table s"
  proof (rule nth_equalityI)
    show "length (rt_thread_priority_table s1) = length (rt_thread_priority_table s)"
      using s1(1) by (auto simp: rt_schedule_remove_thread_def bind_eq_Some_conv Let_def split: if_splits)
    fix p assume "p < length (rt_thread_priority_table s1)"
    then show "rt_thread_priority_table s1 ! p = rt_thread_priority_table s ! p"
      using s1(1) c [of p] q(1) by (auto simp: rt_schedule_remove_thread_def bind_eq_Some_conv Let_def queues_ok_def filter_id_conv split: if_splits)
  qed
  let ?s2 = "snd (rt_timer_stop (thread_timer (threads s c)) (set_stat c RT_THREAD_SUSPEND s1))"
  let ?s3 = "snd (rt_timer_control (thread_timer (threads s c)) RT_TIMER_CTRL_SET_TIME tick ?s2)"
  have f3: "threads ?s3 = (threads s)(c := (threads s c)\<lparr>stat := RT_THREAD_SUSPEND\<rparr>)" "rt_current_thread ?s3 = Some c"
    "rt_scheduler_lock_nest ?s3 = 0" "rt_thread_priority_table ?s3 = rt_thread_priority_table s"
    using s1 tab by (simp_all add: rt_timer_control_def)
  have "init_tick (objs ?s3 (thread_timer (threads s c))) = tick" by (simp add: rt_timer_control_def)
  then obtain s4 where s4: "rt_timer_start (thread_timer (threads s c)) ?s3 = Some s4"
    using assms(6) by (simp add: rt_timer_start_def Let_def)
  have f4: "threads s4 = threads ?s3" "rt_current_thread s4 = rt_current_thread ?s3" "rt_scheduler_lock_nest s4 = rt_scheduler_lock_nest ?s3"
    "rt_thread_priority_table s4 = rt_thread_priority_table ?s3"
    using s4 by (auto simp: rt_timer_start_def set_flag_def rt_timer_remove_def Let_def bind_eq_Some_conv)
  have ok4: "sched_ok s4" using s1(2) timer_start_ok [OF s4] by (simp add: timer_set_time_ok timer_stop_ok)
  have uc: "u \<noteq> c" using assms(3,5) by auto
  have "rt_thread_ready_priority_group s4 \<noteq> 0"
    by (rule ready_group [of _ u]) (use ok4 f3(1) f4(1) uc assms(5) in \<open>simp_all add: sched_ok_def\<close>)
  from rt_schedule_spec [OF ok4 _ _ this, of c] f3(2,3) f4(2,3)
  have "\<exists>s' t. rt_schedule s4 = Some s' \<and> sched_ok s' \<and> rt_current_thread s' = Some t \<and> rt_scheduler_lock_nest s' = 0
    \<and> (\<forall>v. stat (threads s' v) = RT_THREAD_READY \<longrightarrow> current_priority (threads s' t) \<le> current_priority (threads s' v))
    \<and> (t \<noteq> c \<longrightarrow> stat (threads s4 t) = RT_THREAD_READY \<and> t = hd (rt_thread_priority_table s4 ! current_priority (threads s4 t)))
    \<and> (t = c \<longrightarrow> stat (threads s4 c) = RT_THREAD_RUNNING)
    \<and> threads s' = (if t \<noteq> c \<and> stat (threads s4 c) = RT_THREAD_RUNNING then (threads s4)(c := (threads s4 c)\<lparr>stat := RT_THREAD_READY\<rparr>) else threads s4)
      (t := (threads s4 t)\<lparr>stat := RT_THREAD_RUNNING\<rparr>)" by fastforce
  then obtain s' t where s': "rt_schedule s4 = Some s'" "sched_ok s'" "rt_current_thread s' = Some t" "rt_scheduler_lock_nest s' = 0"
    "\<forall>v. stat (threads s' v) = RT_THREAD_READY \<longrightarrow> current_priority (threads s' t) \<le> current_priority (threads s' v)"
    "t \<noteq> c \<longrightarrow> stat (threads s4 t) = RT_THREAD_READY \<and> t = hd (rt_thread_priority_table s4 ! current_priority (threads s4 t))"
    "t = c \<longrightarrow> stat (threads s4 c) = RT_THREAD_RUNNING"
    "threads s' = (if t \<noteq> c \<and> stat (threads s4 c) = RT_THREAD_RUNNING then (threads s4)(c := (threads s4 c)\<lparr>stat := RT_THREAD_READY\<rparr>) else threads s4)
      (t := (threads s4 t)\<lparr>stat := RT_THREAD_RUNNING\<rparr>)"
    by blast
  have th4: "threads s4 = (threads s)(c := (threads s c)\<lparr>stat := RT_THREAD_SUSPEND\<rparr>)" using f3(1) f4(1) by simp
  have tc: "t \<noteq> c" using s'(7) th4 by auto
  have th': "threads s' = (threads s)(c := (threads s c)\<lparr>stat := RT_THREAD_SUSPEND\<rparr>, t := (threads s t)\<lparr>stat := RT_THREAD_RUNNING\<rparr>)"
    using s'(8) th4 tc by simp
  have "current_priority (threads s t) \<le> current_priority (threads s v)" if "stat (threads s v) = RT_THREAD_READY" for v
  proof -
    have "v \<noteq> c" using that assms(3) by auto
    then show ?thesis using s'(5) [rule_format, of v] th' tc that by (cases "v = t") auto
  qed
  moreover have "rt_thread_sleep tick s = Some s'"
  proof -
    have "rt_thread_suspend c s = Some (True, ?s2)"
      using assms(2,3) s1(1,3) by (simp add: rt_thread_suspend_def case_prod_beta)
    then show ?thesis using assms(2) s4 s'(1) s1(3) by (simp add: rt_thread_sleep_def case_prod_beta rt_timer_control_def)
  qed
  ultimately show ?thesis using s'(2-4,6) th' th4 tc f3(4) f4(4) by (intro exI [of _ s'] exI [of _ t]) simp
qed

lemma start_spec:
  assumes "sched_ok s" "rt_current_thread s = None" "stat (threads s u) = RT_THREAD_READY"
  shows "\<exists>s' t. rt_system_scheduler_start s = Some s' \<and> sched_ok s' \<and> rt_current_thread s' = Some t
    \<and> rt_scheduler_lock_nest s' = rt_scheduler_lock_nest s \<and> rt_timer_list s' = rt_timer_list s
    \<and> stat (threads s t) = RT_THREAD_READY
    \<and> (\<forall>v. stat (threads s v) = RT_THREAD_READY \<longrightarrow> current_priority (threads s t) \<le> current_priority (threads s v))
    \<and> threads s' = (threads s)(t := (threads s t)\<lparr>stat := RT_THREAD_RUNNING\<rparr>)"
proof -
  have q: "queues_ok s" and cur: "current_ok s" using assms(1) by (simp_all add: sched_ok_def)
  have "rt_thread_ready_priority_group s \<noteq> 0" by (rule ready_group [OF q assms(3)])
  from get_highest_spec [OF q this] obtain t p where g: "get_highest_priority_thread s = Some (t, p)" "p < 32"
    "t \<in> set (rt_thread_priority_table s ! p)" "\<And>v. stat (threads s v) = RT_THREAD_READY \<Longrightarrow> p \<le> current_priority (threads s v)" by blast
  have t: "stat (threads s t) = RT_THREAD_READY" "current_priority (threads s t) = p" using q g(2,3) by (auto simp: queues_ok_def)
  have q1: "queues_ok (s\<lparr>rt_current_thread := Some t\<rparr>)" using q by (simp add: queues_ok_def)
  obtain s1 where s1: "rt_schedule_remove_thread t (s\<lparr>rt_current_thread := Some t\<rparr>) = Some s1" "queues_ok (set_stat t RT_THREAD_RUNNING s1)"
    "threads s1 = threads s" "rt_current_thread s1 = Some t" "rt_scheduler_lock_nest s1 = rt_scheduler_lock_nest s"
    using remove_spec [OF q1, of t RT_THREAD_RUNNING] t(1) by auto
  have "current_ok (set_stat t RT_THREAD_RUNNING s1)" using s1(3,4) cur assms(2) by (auto simp: current_ok_def)
  moreover have "rt_timer_list s1 = rt_timer_list s" using timers_untouched(2) [OF s1(1)] by simp
  ultimately show ?thesis
    using g(1,4) t s1 by (intro exI [of _ "set_stat t RT_THREAD_RUNNING s1"] exI [of _ t])
      (simp add: rt_system_scheduler_start_def sched_ok_def set_stat_def)
qed

lemma create_main:
  assumes "main_runs s" "stat (threads s t) = RT_THREAD_INIT" "10 < p" "p < 32"
  shows "\<exists>s'. create t p k s = Some s' \<and> main_runs s' \<and> threads s' = (threads s)(t := fresh t p k)"
proof -
  have m: "sched_ok s" "rt_current_thread s = Some MAIN" "rt_scheduler_lock_nest s = 0" "rt_timer_list s = []"
    "threads s MAIN = (fresh MAIN 10 20)\<lparr>stat := RT_THREAD_RUNNING\<rparr>"
    "\<forall>u. stat (threads s u) = RT_THREAD_READY \<longrightarrow> 10 < current_priority (threads s u)"
    using assms(1) by (auto simp: main_runs_def)
  have "stat (threads s c) = RT_THREAD_RUNNING \<and> current_priority (threads s c) < p
      \<and> (\<forall>u. stat (threads s u) = RT_THREAD_READY \<longrightarrow> current_priority (threads s c) < current_priority (threads s u))"
    if "rt_current_thread s = Some c" for c
    using that m(2,5,6) assms(3) by (simp add: fresh_def)
  then obtain s' where s': "create t p k s = Some s'" "sched_ok s'" "rt_current_thread s' = Some MAIN" "rt_scheduler_lock_nest s' = 0"
    "rt_timer_list s' = []" "threads s' = (threads s)(t := fresh t p k)"
    using create_spec [OF m(1) assms(4,2)] m(2-4) by auto
  have "t \<noteq> MAIN" using assms(2) m(5) by (auto simp: fresh_def)
  then have "main_runs s'" using s' m(5,6) assms(3) by (auto simp: main_runs_def fresh_def)
  with s' show ?thesis by blast
qed

lemmas relay_ids = MAIN_def IDLE_def SAVE_CONFIG_def MODBUS_POLL_def DATA_RECEIVE_def CHECK_OVER_TIME_def

lemma power_on_threads: "stat (threads power_on v) = RT_THREAD_INIT"
  by (simp add: power_on_def rt_system_scheduler_init_def)

lemma boot_main:
  "\<exists>s. Option.bind (create MAIN 10 20 power_on) (\<lambda>s. Option.bind (create IDLE 31 32 s) rt_system_scheduler_start) = Some s
    \<and> main_runs s \<and> threads s = (threads power_on)(MAIN := (fresh MAIN 10 20)\<lparr>stat := RT_THREAD_RUNNING\<rparr>, IDLE := fresh IDLE 31 32)"
proof -
  define th0 where "th0 = threads power_on"
  have p0: "stat (th0 v) = RT_THREAD_INIT" "rt_current_thread power_on = None" "rt_timer_list power_on = []"
    "rt_scheduler_lock_nest power_on = 0" for v
    by (simp_all add: th0_def power_on_def rt_system_scheduler_init_def)
  obtain s1 where s1: "create MAIN 10 20 power_on = Some s1" "sched_ok s1" "rt_current_thread s1 = None" "rt_scheduler_lock_nest s1 = 0"
    "rt_timer_list s1 = []" "threads s1 = th0(MAIN := fresh MAIN 10 20)"
    using create_spec [OF power_on_ok, of 10 MAIN 20] p0 by (auto simp: th0_def)
  obtain s2 where s2: "create IDLE 31 32 s1 = Some s2" "sched_ok s2" "rt_current_thread s2 = None" "rt_scheduler_lock_nest s2 = 0"
    "rt_timer_list s2 = []" "threads s2 = th0(MAIN := fresh MAIN 10 20, IDLE := fresh IDLE 31 32)"
    using create_spec [OF s1(2), of 31 IDLE 32] s1(3-6) p0(1) by (auto simp: relay_ids)
  have "stat (threads s2 MAIN) = RT_THREAD_READY" by (simp add: s2(6) fresh_def relay_ids)
  then obtain s3 t where s3: "rt_system_scheduler_start s2 = Some s3" "sched_ok s3" "rt_current_thread s3 = Some t" "rt_scheduler_lock_nest s3 = 0"
    "rt_timer_list s3 = []" "stat (threads s2 t) = RT_THREAD_READY"
    "current_priority (threads s2 t) \<le> current_priority (threads s2 MAIN)"
    "threads s3 = (threads s2)(t := (threads s2 t)\<lparr>stat := RT_THREAD_RUNNING\<rparr>)"
    using start_spec [OF s2(2,3)] s2(4,5) by metis
  have t: "t = MAIN" using s3(6,7) p0(1) by (auto simp: s2(6) fresh_def relay_ids split: if_splits)
  have th3: "threads s3 = th0(MAIN := (fresh MAIN 10 20)\<lparr>stat := RT_THREAD_RUNNING\<rparr>, IDLE := fresh IDLE 31 32)"
    using s3(8) by (auto simp: t s2(6) relay_ids)
  then have "main_runs s3" using s3(2-5) t p0(1) by (auto simp: main_runs_def fresh_def relay_ids)
  with s1(1) s2(1) s3(1) th3 show ?thesis by (simp add: th0_def)
qed

lemma tasks_created:
  "\<exists>s. start_tasks = Some s \<and> main_runs s
    \<and> threads s = (threads power_on)(MAIN := (fresh MAIN 10 20)\<lparr>stat := RT_THREAD_RUNNING\<rparr>, IDLE := fresh IDLE 31 32,
        SAVE_CONFIG := fresh SAVE_CONFIG 20 5, MODBUS_POLL := fresh MODBUS_POLL 22 5, DATA_RECEIVE := fresh DATA_RECEIVE 11 5,
        CHECK_OVER_TIME := fresh CHECK_OVER_TIME 11 5)"
proof -
  obtain s3 where s3: "Option.bind (create MAIN 10 20 power_on) (\<lambda>s. Option.bind (create IDLE 31 32 s) rt_system_scheduler_start) = Some s3"
    "main_runs s3" "threads s3 = (threads power_on)(MAIN := (fresh MAIN 10 20)\<lparr>stat := RT_THREAD_RUNNING\<rparr>, IDLE := fresh IDLE 31 32)"
    using boot_main by blast
  obtain s4 where s4: "create SAVE_CONFIG 20 5 s3 = Some s4" "main_runs s4" "threads s4 = (threads s3)(SAVE_CONFIG := fresh SAVE_CONFIG 20 5)"
    using create_main [OF s3(2), of SAVE_CONFIG 20 5] power_on_threads by (auto simp: s3(3) relay_ids)
  obtain s5 where s5: "create MODBUS_POLL 22 5 s4 = Some s5" "main_runs s5" "threads s5 = (threads s4)(MODBUS_POLL := fresh MODBUS_POLL 22 5)"
    using create_main [OF s4(2), of MODBUS_POLL 22 5] power_on_threads by (auto simp: s3(3) s4(3) relay_ids)
  obtain s6 where s6: "create DATA_RECEIVE 11 5 s5 = Some s6" "main_runs s6" "threads s6 = (threads s5)(DATA_RECEIVE := fresh DATA_RECEIVE 11 5)"
    using create_main [OF s5(2), of DATA_RECEIVE 11 5] power_on_threads by (auto simp: s3(3) s4(3) s5(3) relay_ids)
  obtain s7 where s7: "create CHECK_OVER_TIME 11 5 s6 = Some s7" "main_runs s7" "threads s7 = (threads s6)(CHECK_OVER_TIME := fresh CHECK_OVER_TIME 11 5)"
    using create_main [OF s6(2), of CHECK_OVER_TIME 11 5] power_on_threads by (auto simp: s3(3) s4(3) s5(3) s6(3) relay_ids)
  show ?thesis
    using s3(1) s4(1) s5(1) s6(1) s7 by (auto simp: start_tasks_def s3(3) s4(3) s5(3) s6(3) bind_eq_Some_conv)
qed

text \<open>Who sleeps next to a ready task of priority 11 makes way for such a task.\<close>

lemma relay_started:
  "\<exists>s s' t t'. start_relay = Some s \<and> rt_current_thread s = Some t \<and> rt_thread_sleep 1 s = Some s' \<and> rt_current_thread s' = Some t'
    \<and> {t, t'} = {DATA_RECEIVE, CHECK_OVER_TIME} \<and> stat (threads s' SAVE_CONFIG) = RT_THREAD_READY"
proof -
  note p0 = power_on_threads and ids = relay_ids
  obtain s7 where s7: "start_tasks = Some s7" "main_runs s7" and
    th7: "threads s7 = (threads power_on)(MAIN := (fresh MAIN 10 20)\<lparr>stat := RT_THREAD_RUNNING\<rparr>, IDLE := fresh IDLE 31 32,
        SAVE_CONFIG := fresh SAVE_CONFIG 20 5, MODBUS_POLL := fresh MODBUS_POLL 22 5, DATA_RECEIVE := fresh DATA_RECEIVE 11 5,
        CHECK_OVER_TIME := fresh CHECK_OVER_TIME 11 5)"
    using tasks_created by blast
  have m7: "sched_ok s7" "rt_current_thread s7 = Some MAIN" "rt_scheduler_lock_nest s7 = 0" "stat (threads s7 MAIN) = RT_THREAD_RUNNING"
    "stat (threads s7 DATA_RECEIVE) = RT_THREAD_READY"
    using s7(2) by (auto simp: main_runs_def th7 fresh_def ids)
  have t500: "(500 :: u32) < RT_TICK_MAX div 2" and t1: "(1 :: u32) < RT_TICK_MAX div 2" by (simp_all add: half)
  obtain s8 t8 where s8: "rt_thread_sleep 500 s7 = Some s8" "sched_ok s8" "rt_current_thread s8 = Some t8" "rt_scheduler_lock_nest s8 = 0"
    "stat (threads s7 t8) = RT_THREAD_READY" "current_priority (threads s7 t8) \<le> current_priority (threads s7 DATA_RECEIVE)"
    "threads s8 = (threads s7)(MAIN := (threads s7 MAIN)\<lparr>stat := RT_THREAD_SUSPEND\<rparr>, t8 := (threads s7 t8)\<lparr>stat := RT_THREAD_RUNNING\<rparr>)"
    using sleep_spec [OF m7(1,2,4,3,5) t500] m7(5) by blast
  have t8: "t8 \<in> {DATA_RECEIVE, CHECK_OVER_TIME}"
    using s8(5,6) p0 by (auto simp: th7 fresh_def ids split: if_splits)
  have run: "start_relay = Some s8"
    unfolding start_relay_def s7(1) using s8(1) by (simp add: rt_thread_mdelay_def rt_tick_from_millisecond_def)
  let ?o = "if t8 = DATA_RECEIVE then CHECK_OVER_TIME else DATA_RECEIVE"
  have m8: "stat (threads s8 t8) = RT_THREAD_RUNNING" "stat (threads s8 ?o) = RT_THREAD_READY"
    using t8 by (auto simp: s8(7) th7 fresh_def ids)
  obtain s9 t9 where s9: "rt_thread_sleep 1 s8 = Some s9" "rt_current_thread s9 = Some t9"
    "stat (threads s8 t9) = RT_THREAD_READY" "current_priority (threads s8 t9) \<le> current_priority (threads s8 ?o)"
    "threads s9 = (threads s8)(t8 := (threads s8 t8)\<lparr>stat := RT_THREAD_SUSPEND\<rparr>, t9 := (threads s8 t9)\<lparr>stat := RT_THREAD_RUNNING\<rparr>)"
    using sleep_spec [OF s8(2,3) m8(1) s8(4) m8(2) t1] m8(2) by blast
  have "t9 = ?o" using s9(3,4) t8 p0 by (auto simp: s8(7) th7 fresh_def ids split: if_splits)
  moreover from this have "stat (threads s9 SAVE_CONFIG) = RT_THREAD_READY"
    using t8 by (auto simp: s9(5) s8(7) th7 fresh_def ids split: if_splits)
  ultimately show ?thesis using run s8(3) s9(1,2) t8 by (intro exI [of _ s8] exI [of _ s9] exI [of _ t8] exI [of _ t9]) (auto split: if_splits)
qed

section \<open>Properties\<close>



text \<open>
  C33: the scheduler runs a thread of the highest priority. When the scheduler is not locked and somebody
  is ready, \<open>rt_schedule\<close> leaves a running current thread, nobody who is ready has a higher priority than
  it, a thread switched to is the one that waited longest in its queue, and the queues stay consistent.
\<close>

theorem highest_priority_runs:
  assumes "sched_ok s" "rt_current_thread s = Some c" "rt_scheduler_lock_nest s = 0" "rt_thread_ready_priority_group s \<noteq> 0"
  shows "\<exists>s' t. rt_schedule s = Some s' \<and> sched_ok s' \<and> rt_current_thread s' = Some t \<and> stat (threads s' t) = RT_THREAD_RUNNING
    \<and> (\<forall>u. stat (threads s' u) = RT_THREAD_READY \<longrightarrow> current_priority (threads s' t) \<le> current_priority (threads s' u))
    \<and> (t \<noteq> c \<longrightarrow> t = hd (rt_thread_priority_table s ! current_priority (threads s t)))"
  using rt_schedule_spec [OF assms] by blast

theorem highest_priority_runs_witness:
  "\<exists>s' t. rt_schedule demo_sched = Some s' \<and> sched_ok s' \<and> rt_current_thread s' = Some t \<and> stat (threads s' t) = RT_THREAD_RUNNING"
proof -
  have "rt_current_thread demo_sched = Some 8" "rt_scheduler_lock_nest demo_sched = 0" "rt_thread_ready_priority_group demo_sched \<noteq> 0"
    by (simp_all add: demo_sched_def power_on_def rt_system_scheduler_init_def)
  from highest_priority_runs [OF demo_sched_ok this] show ?thesis by blast
qed


end
