(* ===== verification/Sleep.thy ===== *)
theory Sleep
  imports Sched
begin

text \<open>
  The clock tick on the scheduler: every thread sleeps on its own one-shot timer, whose timeout function
  is \<open>rt_thread_timeout\<close>. The timers of other owners run functions of their own, which keep to their
  timers and to their own data.
\<close>

section \<open>Definitions\<close>

definition sched_callbacks :: "(nat \<Rightarrow> nat \<Rightarrow> sched \<Rightarrow> sched option) \<Rightarrow> nat \<Rightarrow> nat \<Rightarrow> sched \<Rightarrow> sched option" where
  "sched_callbacks others f p s = (if f = rt_thread_timeout_fn then rt_thread_timeout p s else others f p s)"

definition others_ok :: "(nat \<Rightarrow> nat \<Rightarrow> sched \<Rightarrow> sched option) \<Rightarrow> bool" where
  "others_ok others \<longleftrightarrow> tame others \<and> (\<forall>f p s s'. others f p s = Some s' \<longrightarrow> ktimers.more s' = ktimers.more s)"

text \<open>
  \<open>rt_tick_increase\<close> with the threads in place: the time slice is that of the running thread, and the
  yield at its end is carried out.
\<close>

definition thread_tick :: "(nat \<Rightarrow> nat \<Rightarrow> sched \<Rightarrow> sched option) \<Rightarrow> sched \<Rightarrow> sched option" where
  "thread_tick call s = do {
     let s = s\<lparr>rt_tick := rt_tick s + 1\<rparr>;
     c \<leftarrow> rt_current_thread s;
     let s = s\<lparr>threads := (threads s)(c := (threads s c)\<lparr>thr_remaining_tick := thr_remaining_tick (threads s c) - 1\<rparr>)\<rparr>;
     s \<leftarrow> (if thr_remaining_tick (threads s c) = 0
          then rt_thread_yield (s\<lparr>threads := (threads s)(c := (threads s c)\<lparr>thr_remaining_tick := thr_init_tick (threads s c)\<rparr>)\<rparr>)
          else Some s);
     rt_timer_check call s
   }"

text \<open>The timer of a thread is one-shot and calls \<open>rt_thread_timeout\<close> on the thread.\<close>

definition owns :: "sched \<Rightarrow> nat \<Rightarrow> bool" where
  "owns s c \<longleftrightarrow> (let v = objs s (thread_timer (threads s c)) in timeout_func v = rt_thread_timeout_fn
     \<and> tm_parameter v = c \<and> tm_flag v AND RT_TIMER_FLAG_PERIODIC = 0)"

text \<open>Whoever has a running thread timer is suspended.\<close>

definition sleeping_ok :: "sched \<Rightarrow> bool" where
  "sleeping_ok s \<longleftrightarrow> sched_ok s \<and> rt_scheduler_lock_nest s = 0 \<and> rt_current_thread s \<noteq> None
     \<and> (\<forall>c. stat (threads s c) \<noteq> RT_THREAD_INIT \<longrightarrow> owns s c)
     \<and> (\<forall>v \<in> set (rt_timer_list s). timeout_func (objs s v) = rt_thread_timeout_fn \<longrightarrow>
          stat (threads s (tm_parameter (objs s v))) = RT_THREAD_SUSPEND \<and> thread_timer (threads s (tm_parameter (objs s v))) = v)"

definition awake :: "sched \<Rightarrow> nat \<Rightarrow> bool" where
  "awake s c \<longleftrightarrow> stat (threads s c) = RT_THREAD_READY \<or> stat (threads s c) = RT_THREAD_RUNNING"

definition same_timers :: "sched \<Rightarrow> sched \<Rightarrow> bool" where
  "same_timers s s' \<longleftrightarrow> objs s' = objs s \<and> rt_timer_list s' = rt_timer_list s \<and> rt_tick s' = rt_tick s"

text \<open>The kernel after \<open>k\<close> ticks in which the threads that ran went to sleep or yielded.\<close>

inductive sleep_run :: "(nat \<Rightarrow> nat \<Rightarrow> sched \<Rightarrow> sched option) \<Rightarrow> sched \<Rightarrow> nat \<Rightarrow> sched \<Rightarrow> bool"
  for others :: "nat \<Rightarrow> nat \<Rightarrow> sched \<Rightarrow> sched option" and s0 :: sched where
  Begin: "sleep_run others s0 0 s0"
| Tick: "sleep_run others s0 k s \<Longrightarrow> thread_tick (sched_callbacks others) s = Some s' \<Longrightarrow> sleep_run others s0 (Suc k) s'"
| Sleep: "sleep_run others s0 k s \<Longrightarrow> rt_current_thread s = Some c \<Longrightarrow> stat (threads s c) = RT_THREAD_RUNNING
    \<Longrightarrow> stat (threads s u) = RT_THREAD_READY \<Longrightarrow> 0 < tick \<Longrightarrow> tick < RT_TICK_MAX div 2
    \<Longrightarrow> rt_thread_sleep tick s = Some s' \<Longrightarrow> sleep_run others s0 k s'"
| Yield: "sleep_run others s0 k s \<Longrightarrow> rt_thread_yield s = Some s' \<Longrightarrow> sleep_run others s0 k s'"

section \<open>Waking a thread\<close>

lemma same_timers_trans: "same_timers s s' \<Longrightarrow> same_timers s' s'' \<Longrightarrow> same_timers s s''"
  by (simp add: same_timers_def)

lemma queue_same_timers:
  "rt_schedule_insert_thread t s = Some s' \<Longrightarrow> same_timers s s'"
  "rt_schedule_remove_thread t s = Some s' \<Longrightarrow> same_timers s s'"
  "same_timers s (set_stat t st s)"
  by (auto simp: rt_schedule_insert_thread_def rt_schedule_remove_thread_def set_stat_def bind_eq_Some_conv Let_def
      same_timers_def split: if_splits)

lemma schedule_same_timers: "rt_schedule s = Some s' \<Longrightarrow> same_timers s s'"
  by (auto simp: rt_schedule_def switch_to_def bind_eq_Some_conv Let_def set_stat_def same_timers_def
      dest!: queue_same_timers(1,2) split: if_splits prod.splits)

lemma timeout_same_timers: "rt_thread_timeout p s = Some s' \<Longrightarrow> same_timers s s'"
  by (auto simp: rt_thread_timeout_def bind_eq_Some_conv same_timers_def dest!: queue_same_timers(1) schedule_same_timers)

lemma sched_more:
  assumes "ktimers.more s = ktimers.more s'"
  shows "threads s = threads s'" "rt_current_thread s = rt_current_thread s'" "rt_scheduler_lock_nest s = rt_scheduler_lock_nest s'"
    "rt_thread_priority_table s = rt_thread_priority_table s'" "rt_thread_ready_priority_group s = rt_thread_ready_priority_group s'"
  using assms by (cases s; cases s'; simp)+

lemma sched_ok_more: "ktimers.more s = ktimers.more s' \<Longrightarrow> sched_ok s \<longleftrightarrow> sched_ok s'"
  by (intro sched_ok_cong sched_more)

text \<open>What a change of running and ready threads does to the others.\<close>

definition only_wakes :: "nat \<Rightarrow> sched \<Rightarrow> sched \<Rightarrow> bool" where
  "only_wakes p s s' \<longleftrightarrow> awake s' p \<and> (\<forall>q. q \<noteq> p \<longrightarrow> (awake s q \<longrightarrow> awake s' q) \<and> (\<not> awake s q \<longrightarrow> stat (threads s' q) = stat (threads s q)))
     \<and> (\<forall>q. thread_timer (threads s' q) = thread_timer (threads s q))"

lemma schedule_wakes:
  assumes "sched_ok s" "rt_current_thread s = Some c" "rt_scheduler_lock_nest s = 0"
  shows "\<exists>s'. rt_schedule s = Some s' \<and> sched_ok s' \<and> rt_current_thread s' \<noteq> None \<and> rt_scheduler_lock_nest s' = 0
    \<and> (\<forall>q. (awake s q \<longrightarrow> awake s' q) \<and> (\<not> awake s q \<longrightarrow> stat (threads s' q) = stat (threads s q)))
    \<and> (\<forall>q. thread_timer (threads s' q) = thread_timer (threads s q))"
proof (cases "rt_thread_ready_priority_group s = 0")
  case True
  then show ?thesis using assms by (simp add: rt_schedule_def)
next
  case False
  from rt_schedule_spec [OF assms False] obtain s' t where s': "rt_schedule s = Some s'" "sched_ok s'" "rt_current_thread s' = Some t"
    "t \<noteq> c \<longrightarrow> stat (threads s t) = RT_THREAD_READY" "t = c \<longrightarrow> stat (threads s c) = RT_THREAD_RUNNING"
    "threads s' = (if t \<noteq> c \<and> stat (threads s c) = RT_THREAD_RUNNING then (threads s)(c := (threads s c)\<lparr>stat := RT_THREAD_READY\<rparr>) else threads s)
        (t := (threads s t)\<lparr>stat := RT_THREAD_RUNNING\<rparr>)" "rt_scheduler_lock_nest s' = 0" by blast
  then show ?thesis by (auto simp: awake_def)
qed

lemma timeout_spec:
  assumes "sched_ok s" "rt_current_thread s \<noteq> None" "rt_scheduler_lock_nest s = 0" "stat (threads s p) = RT_THREAD_SUSPEND"
  shows "\<exists>s'. rt_thread_timeout p s = Some s' \<and> sched_ok s' \<and> rt_current_thread s' \<noteq> None \<and> rt_scheduler_lock_nest s' = 0
    \<and> only_wakes p s s'"
proof -
  let ?s1 = "s\<lparr>threads := (threads s)(p := (threads s p)\<lparr>thr_error := RT_ETIMEOUT\<rparr>)\<rparr>"
  have ok1: "sched_ok ?s1" using assms(1) by (simp add: sched_ok_def queues_ok_def current_ok_def thread_ok_def)
  obtain c where c: "rt_current_thread s = Some c" using assms(2) by auto
  obtain s2 where s2: "rt_schedule_insert_thread p ?s1 = Some s2" "sched_ok s2" "rt_current_thread s2 = Some c" "rt_scheduler_lock_nest s2 = 0"
    "only_wakes p s s2"
  proof (cases "c = p")
    case True
    then have i: "rt_schedule_insert_thread p ?s1 = Some (set_stat p RT_THREAD_RUNNING ?s1)"
      using c by (simp add: rt_schedule_insert_thread_def)
    have "sched_ok (set_stat p RT_THREAD_RUNNING ?s1)" using insert_ok [OF ok1 _ i] assms(4) by simp
    then show ?thesis using that [OF i] c assms(3) by (simp add: only_wakes_def awake_def)
  next
    case False
    have q: "queues_ok ?s1" using ok1 by (simp add: sched_ok_def)
    obtain s2 where i: "rt_schedule_insert_thread p ?s1 = Some s2"
      "threads s2 = (threads ?s1)(p := (threads ?s1 p)\<lparr>stat := RT_THREAD_READY\<rparr>)" "rt_current_thread s2 = rt_current_thread ?s1"
      "rt_scheduler_lock_nest s2 = rt_scheduler_lock_nest ?s1"
      using insert_spec [OF q, of p] c False assms(4) by auto
    then show ?thesis using that [OF i(1) insert_ok [OF ok1 _ i(1)]] c assms(3,4) by (simp add: only_wakes_def awake_def)
  qed
  from schedule_wakes [OF s2(2-4)] obtain s3 where "rt_schedule s2 = Some s3" "sched_ok s3" "rt_current_thread s3 \<noteq> None"
    "rt_scheduler_lock_nest s3 = 0" "\<forall>q. (awake s2 q \<longrightarrow> awake s3 q) \<and> (\<not> awake s2 q \<longrightarrow> stat (threads s3 q) = stat (threads s2 q))"
    "\<forall>q. thread_timer (threads s3 q) = thread_timer (threads s2 q)" by blast
  with s2(1,5) show ?thesis using assms(4)
    by (auto simp: rt_thread_timeout_def only_wakes_def awake_def)
qed


lemma timer_ops_more [simp]: "ktimers.more (rt_timer_remove t s) = ktimers.more s" "ktimers.more (set_flag f t s) = ktimers.more s"
  by (simp_all add: rt_timer_remove_def set_flag_def)

lemma only_wakes_cong: "only_wakes p s s1 \<Longrightarrow> threads s' = threads s \<Longrightarrow> threads s1' = threads s1 \<Longrightarrow> only_wakes p s' s1'"
  by (simp add: only_wakes_def awake_def)

text \<open>Serving the timer of a thread wakes the thread.\<close>

lemma serve_thread_timer:
  assumes "sleeping_ok u" "t \<in> set (rt_timer_list u)" "timeout_func (objs u t) = rt_thread_timeout_fn"
    "rt_thread_timeout (tm_parameter (objs u t)) (rt_timer_remove t u) = Some u1" "rearm t u1 = Some u2"
  shows "sleeping_ok u2" "only_wakes (tm_parameter (objs u t)) u u2"
proof -
  let ?p = "tm_parameter (objs u t)" and ?r = "rt_timer_remove t u"
  have p: "stat (threads u ?p) = RT_THREAD_SUSPEND" "thread_timer (threads u ?p) = t"
    using assms(1-3) by (auto simp: sleeping_ok_def)
  have ok: "sched_ok ?r" "rt_current_thread ?r \<noteq> None" "rt_scheduler_lock_nest ?r = 0" "threads ?r = threads u"
    using assms(1) sched_ok_more [OF timer_ops_more(1), of t u] sched_more [OF timer_ops_more(1), of t u] by (auto simp: sleeping_ok_def)
  from timeout_spec [OF ok(1-3), of ?p] obtain w where w: "rt_thread_timeout ?p ?r = Some w" "sched_ok w" "rt_current_thread w \<noteq> None"
    "rt_scheduler_lock_nest w = 0" "only_wakes ?p ?r w" using p ok(4) by auto
  then have u1: "sched_ok u1" "rt_current_thread u1 \<noteq> None" "rt_scheduler_lock_nest u1 = 0" "only_wakes ?p ?r u1" using assms(4) by auto
  have st: "same_timers ?r u1" by (rule timeout_same_timers [OF assms(4)])
  then have ob: "objs u1 = objs u" "rt_timer_list u1 = rt_timer_list ?r" by (simp_all add: same_timers_def)
  have own: "owns u ?p" using assms(1) p(1) by (simp add: sleeping_ok_def)
  then have "tm_flag (objs u1 t) AND RT_TIMER_FLAG_PERIODIC = 0" using p(2) ob(1) by (simp add: owns_def Let_def)
  then have u2: "u2 = set_flag (\<lambda>f. f AND NOT RT_TIMER_FLAG_ACTIVATED) t u1" using assms(5) by (simp add: rearm_def)
  have m: "ktimers.more u2 = ktimers.more u1" by (simp add: u2 set_flag_def)
  note same = sched_more [OF m]
  have w2: "only_wakes ?p u u2" using only_wakes_cong [OF u1(4)] same(1) ok(4) by simp
  have own2: "owns u2 q" if "owns u q" for q
    using that w2 ob by (auto simp: owns_def Let_def u2 set_flag_def only_wakes_def flag_bits)
  have ini: "stat (threads u2 q) = RT_THREAD_INIT" if "stat (threads u q) = RT_THREAD_INIT" for q
    using w2 that p(1) by (cases "q = ?p") (auto simp: only_wakes_def awake_def)
  have lst: "stat (threads u2 (tm_parameter (objs u2 v))) = RT_THREAD_SUSPEND \<and> thread_timer (threads u2 (tm_parameter (objs u2 v))) = v"
    if "v \<in> set (rt_timer_list u2)" "timeout_func (objs u2 v) = rt_thread_timeout_fn" for v
  proof -
    have v: "v \<noteq> t" "v \<in> set (rt_timer_list u)" "objs u2 v = objs u v" using that(1) ob by (auto simp: u2 set_flag_def rt_timer_remove_def)
    then have o: "stat (threads u (tm_parameter (objs u v))) = RT_THREAD_SUSPEND" "thread_timer (threads u (tm_parameter (objs u v))) = v"
      using that(2) assms(1) by (auto simp: sleeping_ok_def)
    then have "tm_parameter (objs u v) \<noteq> ?p" using p(2) v(1) by metis
    with o w2 v(3) show ?thesis by (auto simp: only_wakes_def awake_def)
  qed
  show "only_wakes ?p u u2" by (rule w2)
  have "sched_ok u2" "rt_scheduler_lock_nest u2 = 0" "rt_current_thread u2 \<noteq> None" using u1(1-3) same(2,3) sched_ok_more [OF m] by simp_all
  then show "sleeping_ok u2" using ini lst own2 assms(1) unfolding sleeping_ok_def by metis
qed

text \<open>Serving another timer leaves the threads alone.\<close>

lemma serve_other_timer:
  assumes "sleeping_ok u" "t \<in> set (rt_timer_list u)" "timeout_func (objs u t) \<noteq> rt_thread_timeout_fn"
    "ktimers.more u2 = ktimers.more u" "timeout_func (objs u2 t) = timeout_func (objs u t)"
    "\<And>v. v \<noteq> t \<Longrightarrow> objs u2 v = objs u v" "\<And>v. v \<noteq> t \<Longrightarrow> v \<in> set (rt_timer_list u2) \<longleftrightarrow> v \<in> set (rt_timer_list u)"
  shows "sleeping_ok u2" "threads u2 = threads u"
proof -
  note same = sched_more [OF assms(4)]
  show "threads u2 = threads u" by (rule same(1))
  have "owns u2 q" if "owns u q" for q
  proof -
    have "thread_timer (threads u q) \<noteq> t" using that assms(3) by (auto simp: owns_def Let_def)
    with that assms(6) same(1) show ?thesis by (simp add: owns_def)
  qed
  moreover have "stat (threads u2 (tm_parameter (objs u2 v))) = RT_THREAD_SUSPEND \<and> thread_timer (threads u2 (tm_parameter (objs u2 v))) = v"
    if "v \<in> set (rt_timer_list u2)" "timeout_func (objs u2 v) = rt_thread_timeout_fn" for v
  proof -
    have "v \<noteq> t" using that(2) assms(3,5) by auto
    with that assms(1,6,7) show ?thesis by (auto simp: sleeping_ok_def same(1))
  qed
  ultimately show "sleeping_ok u2"
    using assms(1) same sched_ok_more [OF assms(4)] unfolding sleeping_ok_def by simp
qed

section \<open>A tick\<close>

text \<open>What has become of the state \<open>s\<close> when the timers in \<open>D\<close> have been served.\<close>

definition woken :: "sched \<Rightarrow> nat set \<Rightarrow> sched \<Rightarrow> bool" where
  "woken s D u \<longleftrightarrow> sleeping_ok u \<and> (\<forall>v \<in> D. timeout_func (objs s v) = rt_thread_timeout_fn \<longrightarrow> awake u (tm_parameter (objs s v)))
     \<and> (\<forall>v. v \<notin> D \<longrightarrow> objs u v = objs s v \<and> (v \<in> set (rt_timer_list u) \<longleftrightarrow> v \<in> set (rt_timer_list s)))
     \<and> (\<forall>q. thread_timer (threads u q) = thread_timer (threads s q))
     \<and> (\<forall>q. stat (threads s q) = RT_THREAD_SUSPEND \<longrightarrow> thread_timer (threads s q) \<notin> D \<longrightarrow> stat (threads u q) = RT_THREAD_SUSPEND)"

lemma woken_step:
  assumes "woken s D u" "others_ok others" "t \<notin> D" "t \<in> set (rt_timer_list u)"
    "sched_callbacks others (timeout_func (objs u t)) (tm_parameter (objs u t)) (rt_timer_remove t u) = Some u1" "rearm t u1 = Some u2"
    "timeout_func (objs u2 t) = timeout_func (objs u t)" "ktimers.more u2 = ktimers.more u1"
    and o: "\<And>v. v \<noteq> t \<Longrightarrow> objs u2 v = objs u v" "\<And>v. v \<noteq> t \<Longrightarrow> v \<in> set (rt_timer_list u2) \<longleftrightarrow> v \<in> set (rt_timer_list u)"
  shows "woken s (insert t D) u2"
proof (cases "timeout_func (objs u t) = rt_thread_timeout_fn")
  case True
  have ok: "sleeping_ok u" and ot: "objs u t = objs s t" using assms(1,3) by (auto simp: woken_def)
  have p: "stat (threads u (tm_parameter (objs u t))) = RT_THREAD_SUSPEND" "thread_timer (threads u (tm_parameter (objs u t))) = t"
    using ok assms(4) True by (auto simp: sleeping_ok_def)
  have "rt_thread_timeout (tm_parameter (objs u t)) (rt_timer_remove t u) = Some u1" using assms(5) True by (simp add: sched_callbacks_def)
  from serve_thread_timer [OF ok assms(4) True this assms(6)] have s: "sleeping_ok u2" "only_wakes (tm_parameter (objs u t)) u u2" .
  have "awake u2 q" if "awake u q" for q using s(2) that by (cases "q = tm_parameter (objs u t)") (auto simp: only_wakes_def)
  moreover have "stat (threads u2 q) = RT_THREAD_SUSPEND" if "stat (threads u q) = RT_THREAD_SUSPEND" "thread_timer (threads u q) \<noteq> t" for q
  proof -
    have "q \<noteq> tm_parameter (objs u t)" using that(2) p(2) by metis
    with s(2) that(1) show ?thesis by (simp add: only_wakes_def awake_def)
  qed
  moreover have "awake u2 (tm_parameter (objs s t))" "\<forall>q. thread_timer (threads u2 q) = thread_timer (threads u q)"
    using s(2) ot by (simp_all add: only_wakes_def)
  ultimately show ?thesis using assms(1) s(1) o by (auto simp: woken_def)
next
  case False
  have ok: "sleeping_ok u" using assms(1) by (simp add: woken_def)
  have "others (timeout_func (objs u t)) (tm_parameter (objs u t)) (rt_timer_remove t u) = Some u1"
    using assms(5) False by (simp add: sched_callbacks_def)
  then have "ktimers.more u1 = ktimers.more u" using assms(2) by (metis others_ok_def timer_ops_more(1))
  then have m: "ktimers.more u2 = ktimers.more u" using assms(8) by simp
  have s: "sleeping_ok u2" "threads u2 = threads u" using serve_other_timer [OF ok assms(4) False m assms(7)] o by blast+
  have "objs u t = objs s t" using assms(1,3) by (simp add: woken_def)
  then show ?thesis using assms(1) s o False by (auto simp: woken_def awake_def)
qed

text \<open>The timeout functions return on the states that occur; elsewhere they are taken not to act.\<close>

definition or_skip :: "(nat \<Rightarrow> nat \<Rightarrow> sched \<Rightarrow> sched option) \<Rightarrow> nat \<Rightarrow> nat \<Rightarrow> sched \<Rightarrow> sched option" where
  "or_skip call f p s = Some (case call f p s of None \<Rightarrow> s | Some s' \<Rightarrow> s')"

lemma or_skip_tame:
  assumes "others_ok others"
  shows "tame (or_skip (sched_callbacks others))"
  unfolding tame_def
proof (intro allI)
  fix t and s :: sched
  show "\<exists>s'. or_skip (sched_callbacks others) (timeout_func (objs s t)) (tm_parameter (objs s t)) s = Some s'
     \<and> rt_timer_list s' = rt_timer_list s \<and> rt_tick s' = rt_tick s \<and> (\<forall>u. u \<noteq> t \<longrightarrow> objs s' u = objs s u)
     \<and> (objs s' t = objs s t \<or> objs s' t = (objs s t)\<lparr>tm_flag := tm_flag (objs s t) AND NOT RT_TIMER_FLAG_ACTIVATED\<rparr>)"
  proof (cases "timeout_func (objs s t) = rt_thread_timeout_fn")
    case True
    then show ?thesis
      by (auto simp: or_skip_def sched_callbacks_def same_timers_def dest!: timeout_same_timers split: option.splits)
  next
    case False
    have "tame others" using assms by (simp add: others_ok_def)
    then obtain s' where "others (timeout_func (objs s t)) (tm_parameter (objs s t)) s = Some s'"
      "rt_timer_list s' = rt_timer_list s" "rt_tick s' = rt_tick s" "\<forall>u. u \<noteq> t \<longrightarrow> objs s' u = objs s u"
      "objs s' t = objs s t \<or> objs s' t = (objs s t)\<lparr>tm_flag := tm_flag (objs s t) AND NOT RT_TIMER_FLAG_ACTIVATED\<rparr>"
      unfolding tame_def by blast
    with False show ?thesis by (intro exI [of _ s']) (simp add: or_skip_def sched_callbacks_def)
  qed
qed

lemma callback_returns:
  assumes "sleeping_ok u" "others_ok others" "t \<in> set (rt_timer_list u)"
  shows "\<exists>u1. sched_callbacks others (timeout_func (objs u t)) (tm_parameter (objs u t)) (rt_timer_remove t u) = Some u1"
proof (cases "timeout_func (objs u t) = rt_thread_timeout_fn")
  case True
  note same = sched_more [OF timer_ops_more(1), of t u] sched_ok_more [OF timer_ops_more(1), of t u]
  have "stat (threads (rt_timer_remove t u) (tm_parameter (objs u t))) = RT_THREAD_SUSPEND" using assms(1,3) True same(1) by (auto simp: sleeping_ok_def)
  then have "\<exists>u1. rt_thread_timeout (tm_parameter (objs u t)) (rt_timer_remove t u) = Some u1"
    using timeout_spec [of "rt_timer_remove t u" "tm_parameter (objs u t)"] assms(1) same by (simp add: sleeping_ok_def) blast
  with True show ?thesis by (simp add: sched_callbacks_def)
next
  case False
  have "tame others" using assms(2) by (simp add: others_ok_def)
  then have "\<exists>u1. others (timeout_func (objs (rt_timer_remove t u) t)) (tm_parameter (objs (rt_timer_remove t u) t)) (rt_timer_remove t u) = Some u1"
    unfolding tame_def by blast
  with False show ?thesis by (simp add: sched_callbacks_def rt_timer_remove_def)
qed

lemma check_wakes:
  assumes "list_ok s" "sleeping_ok s" "others_ok others"
  shows "\<exists>s'. rt_timer_check (sched_callbacks others) s = Some s' \<and> timers_ok s' \<and> rt_tick s' = rt_tick s \<and> woken s (due s) s'"
proof -
  let ?real = "sched_callbacks others" and ?total = "or_skip (sched_callbacks others)"
  let ?loop = "timer_check_loop ?real"
  let ?I = "\<lambda>D u. woken s D u \<and> ?loop (rt_tick u) u = ?loop (rt_tick s) s"
  have "\<exists>s'. timer_check_loop ?total (rt_tick s) s = Some s' \<and> timers_ok s' \<and> rt_tick s' = rt_tick s \<and> ?I (due s) s'"
  proof (rule check_loop_inv [OF assms(1) or_skip_tame [OF assms(3)]])
    show "?I {} s" using assms(2) by (simp add: woken_def)
  next
    fix D u t ts u1 u2
    assume I: "?I D u" and u: "list_ok u" "rt_tick u = rt_tick s" "rt_timer_list u = t # ts" "rest u t = 0" "t \<notin> D"
      "?total (timeout_func (objs u t)) (tm_parameter (objs u t)) (rt_timer_remove t u) = Some u1" "rearm t u1 = Some u2"
      "served u u2 t" "ktimers.more u2 = ktimers.more u1"
      and o: "\<And>v. v \<noteq> t \<Longrightarrow> objs u2 v = objs u v"
        "\<And>v. v \<noteq> t \<Longrightarrow> v \<in> set (rt_timer_list u2) \<longleftrightarrow> v \<in> set (rt_timer_list u)" "rt_tick u2 = rt_tick u"
    have t: "t \<in> set (rt_timer_list u)" "rest u t < 0x7FFFFFFF" using u(1,3) by (simp_all add: list_ok_def)
    have "sleeping_ok u" using I by (simp add: woken_def)
    from callback_returns [OF this assms(3) t(1)] u(6)
    have r: "?real (timeout_func (objs u t)) (tm_parameter (objs u t)) (rt_timer_remove t u) = Some u1" by (auto simp: or_skip_def)
    have "\<exists>w. ?total (timeout_func (objs r t)) (tm_parameter (objs r t)) r = Some w \<and> rt_tick w = rt_tick r" for r
      using or_skip_tame [OF assms(3)] unfolding tame_def by blast
    from this [of "rt_timer_remove t u"] u(6) have k: "rt_tick u1 = rt_tick u" by simp
    have "woken s (insert t D) u2"
      using woken_step [OF _ assms(3) u(5) t(1) r u(7)] I u(8,9) o(1,2) by (simp add: served_def)
    moreover have "?loop (rt_tick u) u = ?loop (rt_tick u2) u2"
      by (subst timer_check_loop.simps) (use u(3,4,7) r k o(3) due_iff [OF t(2)] in \<open>simp add: rt_tick_get_def\<close>)
    ultimately show "?I (insert t D) u2" using I by simp
  qed
  then obtain s' where s': "timers_ok s'" "rt_tick s' = rt_tick s" "woken s (due s) s'" "?loop (rt_tick s') s' = ?loop (rt_tick s) s" by blast
  have "?loop (rt_tick s') s' = Some s'"
    using s'(1) due_iff [of s'] by (subst timer_check_loop.simps) (auto simp: timers_ok_def list_ok_def split: list.split)
  with s' show ?thesis by (auto simp: rt_timer_check_def rt_tick_get_def)
qed

text \<open>Before the timers are checked a tick at most hands the processor on.\<close>

lemma sleeping_ok_cong:
  assumes "sleeping_ok s" "sched_ok s'" "rt_current_thread s' \<noteq> None" "rt_scheduler_lock_nest s' = 0"
    "objs s' = objs s" "rt_timer_list s' = rt_timer_list s" "\<And>q. thread_timer (threads s' q) = thread_timer (threads s q)"
    "\<And>q. stat (threads s q) = RT_THREAD_INIT \<Longrightarrow> stat (threads s' q) = RT_THREAD_INIT"
    "\<And>q. stat (threads s q) = RT_THREAD_SUSPEND \<Longrightarrow> stat (threads s' q) = RT_THREAD_SUSPEND"
  shows "sleeping_ok s'"
  using assms unfolding sleeping_ok_def owns_def by metis

lemma slice_ok:
  assumes "sleeping_ok s" "rt_current_thread s = Some c"
  shows "sleeping_ok (s\<lparr>rt_tick := k, threads := (threads s)(c := (threads s c)\<lparr>thr_remaining_tick := n\<rparr>)\<rparr>)"
proof (rule sleeping_ok_cong [OF assms(1)])
  show "sched_ok (s\<lparr>rt_tick := k, threads := (threads s)(c := (threads s c)\<lparr>thr_remaining_tick := n\<rparr>)\<rparr>)"
    using assms(1) by (simp add: sleeping_ok_def sched_ok_def queues_ok_def current_ok_def thread_ok_def)
qed (use assms in \<open>auto simp: sleeping_ok_def\<close>)

lemma yield_ok:
  assumes "sleeping_ok s"
  shows "\<exists>s'. rt_thread_yield s = Some s' \<and> sleeping_ok s' \<and> same_timers s s'
    \<and> (\<forall>q. thread_timer (threads s' q) = thread_timer (threads s q) \<and> (stat (threads s q) = RT_THREAD_SUSPEND \<longrightarrow> stat (threads s' q) = RT_THREAD_SUSPEND))"
proof -
  obtain c where c: "rt_current_thread s = Some c" "sched_ok s" "rt_scheduler_lock_nest s = 0" using assms by (auto simp: sleeping_ok_def)
  from schedule_wakes [OF c(2,1,3)] obtain s' where s': "rt_schedule s = Some s'" "sched_ok s'" "rt_current_thread s' \<noteq> None"
    "rt_scheduler_lock_nest s' = 0" "\<forall>q. (awake s q \<longrightarrow> awake s' q) \<and> (\<not> awake s q \<longrightarrow> stat (threads s' q) = stat (threads s q))"
    "\<forall>q. thread_timer (threads s' q) = thread_timer (threads s q)" by blast
  have st: "same_timers s s'" by (rule schedule_same_timers [OF s'(1)])
  then have "sleeping_ok s'" using s'(2-6) by (intro sleeping_ok_cong [OF assms]) (auto simp: same_timers_def awake_def)
  with s' st show ?thesis by (auto simp: rt_thread_yield_def awake_def)
qed

lemma tick_wakes:
  assumes "timers_ok s" "sleeping_ok s" "others_ok others"
  shows "\<exists>s'. thread_tick (sched_callbacks others) s = Some s' \<and> timers_ok s' \<and> sleeping_ok s' \<and> rt_tick s' = rt_tick s + 1
    \<and> (\<forall>q. stat (threads s q) = RT_THREAD_SUSPEND \<longrightarrow> thread_timer (threads s q) \<in> set (rt_timer_list s) \<longrightarrow>
         (if rest s (thread_timer (threads s q)) = 1 then awake s' q
          else stat (threads s' q) = RT_THREAD_SUSPEND \<and> thread_timer (threads s' q) = thread_timer (threads s q)
            \<and> thread_timer (threads s q) \<in> set (rt_timer_list s') \<and> rest s' (thread_timer (threads s q)) = rest s (thread_timer (threads s q)) - 1))"
proof -
  obtain c where c: "rt_current_thread s = Some c" using assms(2) by (auto simp: sleeping_ok_def)
  let ?n = "thr_remaining_tick (threads s c) - 1"
  let ?s = "\<lambda>n. s\<lparr>rt_tick := rt_tick s + 1, threads := (threads s)(c := (threads s c)\<lparr>thr_remaining_tick := n\<rparr>)\<rparr>"
  have "\<exists>s1. (if ?n = 0 then rt_thread_yield (?s (thr_init_tick (threads s c))) else Some (?s ?n)) = Some s1 \<and> sleeping_ok s1
    \<and> objs s1 = objs s \<and> rt_timer_list s1 = rt_timer_list s \<and> rt_tick s1 = rt_tick s + 1
    \<and> (\<forall>q. thread_timer (threads s1 q) = thread_timer (threads s q) \<and> (stat (threads s q) = RT_THREAD_SUSPEND \<longrightarrow> stat (threads s1 q) = RT_THREAD_SUSPEND))"
  proof (cases "?n = 0")
    case True
    from yield_ok [OF slice_ok [OF assms(2) c, where k = "rt_tick s + 1" and n = "thr_init_tick (threads s c)"]] obtain s1
      where y: "rt_thread_yield (?s (thr_init_tick (threads s c))) = Some s1" "sleeping_ok s1" "same_timers (?s (thr_init_tick (threads s c))) s1"
        "\<forall>q. thread_timer (threads s1 q) = thread_timer (threads (?s (thr_init_tick (threads s c))) q)
          \<and> (stat (threads (?s (thr_init_tick (threads s c))) q) = RT_THREAD_SUSPEND \<longrightarrow> stat (threads s1 q) = RT_THREAD_SUSPEND)" by blast
    show ?thesis unfolding True using y by (intro exI [of _ s1]) (auto simp: same_timers_def split: if_splits)
  next
    case False
    then show ?thesis using slice_ok [OF assms(2) c, where k = "rt_tick s + 1" and n = ?n] by auto
  qed
  then obtain s1 where s1: "(if ?n = 0 then rt_thread_yield (?s (thr_init_tick (threads s c))) else Some (?s ?n)) = Some s1" "sleeping_ok s1"
    "objs s1 = objs s" "rt_timer_list s1 = rt_timer_list s" "rt_tick s1 = rt_tick s + 1"
    "\<forall>q. thread_timer (threads s1 q) = thread_timer (threads s q) \<and> (stat (threads s q) = RT_THREAD_SUSPEND \<longrightarrow> stat (threads s1 q) = RT_THREAD_SUSPEND)"
    by blast
  have r1: "rest s1 = rest (ticked s)" using s1(3,5) by (auto simp: rest_def)
  have "list_ok s1" by (rule list_ok_other [OF ticked_ok(1) [OF assms(1)]]) (use s1(3-5) in simp_all)
  from check_wakes [OF this s1(2) assms(3)] obtain s' where s': "rt_timer_check (sched_callbacks others) s1 = Some s'" "timers_ok s'"
    "rt_tick s' = rt_tick s1" "woken s1 (due s1) s'" by blast
  have due: "due s1 = {t \<in> set (rt_timer_list s). rest s t = 1}" using ticked_ok(2) [OF assms(1)] by (simp add: due_def r1 s1(4))
  have "thread_tick (sched_callbacks others) s = Some s'"
    using s1(1) s'(1) c by (auto simp: thread_tick_def split: if_splits)
  moreover have "sleeping_ok s'" using s'(4) by (simp add: woken_def)
  moreover have "if rest s (thread_timer (threads s q)) = 1 then awake s' q
      else stat (threads s' q) = RT_THREAD_SUSPEND \<and> thread_timer (threads s' q) = thread_timer (threads s q)
        \<and> thread_timer (threads s q) \<in> set (rt_timer_list s') \<and> rest s' (thread_timer (threads s q)) = rest s (thread_timer (threads s q)) - 1"
    if q: "stat (threads s q) = RT_THREAD_SUSPEND" "thread_timer (threads s q) \<in> set (rt_timer_list s)" for q
  proof -
    let ?t = "thread_timer (threads s q)"
    have "owns s q" using assms(2) q(1) by (simp add: sleeping_ok_def)
    then have o: "timeout_func (objs s1 ?t) = rt_thread_timeout_fn" "tm_parameter (objs s1 ?t) = q" using s1(3) by (simp_all add: owns_def Let_def)
    have "rest s' ?t = rest s ?t - 1" if "?t \<notin> due s1"
    proof -
      have "objs s' ?t = objs s ?t" using s'(4) that s1(3) by (simp add: woken_def)
      then have "rest s' ?t = rest (ticked s) ?t" using s'(3) s1(5) by (simp add: rest_def)
      with rest_ticked [of s ?t] assms(1) q(2) show ?thesis by (simp add: timers_ok_def)
    qed
    with s'(4) due o q s1(4,6) show ?thesis by (auto simp: woken_def)
  qed
  ultimately show ?thesis using s'(2,3) s1(5) by (intro exI [of _ s']) simp
qed

section \<open>Going to sleep\<close>

text \<open>The timer operations of \<open>rt_thread_sleep\<close>.\<close>

lemma sleep_timers:
  assumes "timers_ok s" "rt_current_thread s = Some c" "stat (threads s c) = RT_THREAD_RUNNING" "rt_thread_sleep tick s = Some s'"
    and "0 < tick" "tick < RT_TICK_MAX div 2" "tc = thread_timer (threads s c)" "tc \<notin> set (rt_timer_list s)"
  shows "timers_ok s'" "set (rt_timer_list s') = insert tc (set (rt_timer_list s))" "rest s' tc = unat tick" "rt_tick s' = rt_tick s"
    "timeout_func (objs s' tc) = timeout_func (objs s tc)" "tm_parameter (objs s' tc) = tm_parameter (objs s tc)"
    "tm_flag (objs s' tc) AND RT_TIMER_FLAG_PERIODIC = tm_flag (objs s tc) AND RT_TIMER_FLAG_PERIODIC"
    "\<And>v. v \<noteq> tc \<Longrightarrow> objs s' v = objs s v \<and> rest s' v = rest s v"
proof -
  obtain s1 where s1: "rt_schedule_remove_thread c s = Some s1" using assms(2-4) by (auto simp: rt_thread_sleep_def rt_thread_suspend_def bind_eq_Some_conv)
  have th1: "threads s1 = threads s" using s1 by (auto simp: rt_schedule_remove_thread_def bind_eq_Some_conv Let_def split: if_splits)
  define w where "w = set_stat c RT_THREAD_SUSPEND s1"
  have w: "objs w = objs s" "rt_timer_list w = rt_timer_list s" "rt_tick w = rt_tick s" "thread_timer (threads w c) = tc"
    using queue_same_timers(2) [OF s1] queue_same_timers(3) [of s1 c RT_THREAD_SUSPEND] th1 assms(7) by (simp_all add: w_def same_timers_def set_stat_def)
  define w2 where "w2 = snd (rt_timer_stop tc w)"
  define w3 where "w3 = w2\<lparr>objs := (objs w2)(tc := (objs w2 tc)\<lparr>init_tick := tick\<rparr>)\<rparr>"
  have w2: "rt_timer_list w2 = rt_timer_list s" "rt_tick w2 = rt_tick s" "\<And>v. v \<noteq> tc \<Longrightarrow> objs w2 v = objs s v"
    "objs w2 tc = objs s tc \<or> objs w2 tc = (objs s tc)\<lparr>tm_flag := tm_flag (objs s tc) AND NOT RT_TIMER_FLAG_ACTIVATED\<rparr>"
    using assms(8) by (auto simp: w2_def rt_timer_stop_def w set_flag_def filter_id_conv)
  have l3: "list_ok w3"
    by (rule list_ok_other [of s]) (use assms(1,8) w2 in \<open>auto simp: timers_ok_def w3_def\<close>)
  have i3: "init_tick (objs w3 tc) = tick" "rt_tick w3 = rt_tick s" by (simp_all add: w3_def w2(2))
  obtain s4 where s4: "rt_timer_start tc w3 = Some s4" "list_ok s4" "set (rt_timer_list s4) = insert tc (set (rt_timer_list w3))"
    "rest s4 tc = unat tick" "rt_tick s4 = rt_tick w3"
    "objs s4 tc = (objs w3 tc)\<lparr>timeout_tick := rt_tick w3 + tick, tm_flag := tm_flag (objs w3 tc) OR RT_TIMER_FLAG_ACTIVATED\<rparr>"
    "\<And>v. v \<noteq> tc \<Longrightarrow> objs s4 v = objs w3 v \<and> rest s4 v = rest w3 v"
    using rt_timer_start_spec [of w3 tc] assms(5,6) list_ok_remove [OF l3] i3(1) by auto
  have "threads w2 = threads w" "thread_timer (threads s1 c) = tc" by (simp_all add: w2_def th1 assms(7))
  then have "rt_schedule s4 = Some s'"
    using assms(2-4) s1 s4(1) w(4)
    by (simp add: rt_thread_sleep_def rt_thread_suspend_def case_prod_beta rt_timer_control_def flip: w_def w2_def w3_def)
  then have e: "objs s' = objs s4" "rt_timer_list s' = rt_timer_list s4" "rt_tick s' = rt_tick s4"
    using schedule_same_timers by (auto simp: same_timers_def)
  then have r: "rest s' = rest s4" by (auto simp: rest_def)
  show k: "rest s' tc = unat tick" "rt_tick s' = rt_tick s" by (simp_all add: r s4(4,5) e(3) i3(2))
  show l: "set (rt_timer_list s') = insert tc (set (rt_timer_list s))" by (simp add: e(2) s4(3) w3_def w2(1))
  show o: "objs s' v = objs s v \<and> rest s' v = rest s v" if "v \<noteq> tc" for v
    using s4(7) [OF that] w2(3) [OF that] that k(2) by (simp add: e(1) w3_def rest_def)
  have "list_ok s'" by (rule list_ok_other [OF s4(2) e(2,3)]) (simp add: e(1))
  moreover have "0 < rest s' v" if "v \<in> set (rt_timer_list s')" for v
    using that l o k(1) assms(1,5) by (cases "v = tc") (auto simp: timers_ok_def unat_gt_0)
  ultimately show "timers_ok s'" by (simp add: timers_ok_def)
  show "timeout_func (objs s' tc) = timeout_func (objs s tc)" "tm_parameter (objs s' tc) = tm_parameter (objs s tc)"
    "tm_flag (objs s' tc) AND RT_TIMER_FLAG_PERIODIC = tm_flag (objs s tc) AND RT_TIMER_FLAG_PERIODIC"
    using w2(4) by (auto simp: e(1) s4(6) w3_def flag_bits)
qed

lemma sleep_keeps:
  assumes "timers_ok s" "sleeping_ok s" "rt_current_thread s = Some c" "stat (threads s c) = RT_THREAD_RUNNING"
    "stat (threads s u) = RT_THREAD_READY" "0 < tick" "tick < RT_TICK_MAX div 2"
  shows "\<exists>s'. rt_thread_sleep tick s = Some s' \<and> timers_ok s' \<and> sleeping_ok s' \<and> rt_tick s' = rt_tick s
    \<and> stat (threads s' c) = RT_THREAD_SUSPEND \<and> thread_timer (threads s' c) = thread_timer (threads s c)
    \<and> thread_timer (threads s c) \<in> set (rt_timer_list s') \<and> rest s' (thread_timer (threads s c)) = unat tick
    \<and> (\<forall>q. stat (threads s q) = RT_THREAD_SUSPEND \<longrightarrow> thread_timer (threads s q) \<in> set (rt_timer_list s) \<longrightarrow>
         threads s' q = threads s q \<and> thread_timer (threads s q) \<in> set (rt_timer_list s')
         \<and> rest s' (thread_timer (threads s q)) = rest s (thread_timer (threads s q)))"
proof -
  let ?tc = "thread_timer (threads s c)"
  have ok: "sched_ok s" "rt_scheduler_lock_nest s = 0" using assms(2) by (simp_all add: sleeping_ok_def)
  from sleep_spec [OF ok(1) assms(3,4) ok(2) assms(5,7)] obtain s' t where s': "rt_thread_sleep tick s = Some s'" "sched_ok s'"
    "rt_current_thread s' = Some t" "rt_scheduler_lock_nest s' = 0" "stat (threads s t) = RT_THREAD_READY"
    "threads s' = (threads s)(c := (threads s c)\<lparr>stat := RT_THREAD_SUSPEND\<rparr>, t := (threads s t)\<lparr>stat := RT_THREAD_RUNNING\<rparr>)" by blast
  have tc: "t \<noteq> c" using s'(5) assms(4) by auto
  have own: "owns s q" if "stat (threads s q) \<noteq> RT_THREAD_INIT" for q using assms(2) that by (simp add: sleeping_ok_def)
  have oc: "timeout_func (objs s ?tc) = rt_thread_timeout_fn" "tm_parameter (objs s ?tc) = c" "tm_flag (objs s ?tc) AND RT_TIMER_FLAG_PERIODIC = 0"
    using own [of c] assms(4) by (simp_all add: owns_def Let_def)
  then have nl: "?tc \<notin> set (rt_timer_list s)" using assms(2,4) by (auto simp: sleeping_ok_def)
  note tm = sleep_timers [OF assms(1,3,4) s'(1) assms(6,7) refl nl]
  have diff: "thread_timer (threads s q) \<noteq> ?tc" if "q \<noteq> c" "stat (threads s q) \<noteq> RT_THREAD_INIT" for q
    using own [OF that(2)] oc(2) that(1) by (auto simp: owns_def Let_def)
  have own': "owns s' q" if "stat (threads s' q) \<noteq> RT_THREAD_INIT" for q
  proof (cases "q = c")
    case True
    then show ?thesis using tc oc tm(5-7) by (simp add: owns_def Let_def s'(6))
  next
    case False
    have "stat (threads s q) \<noteq> RT_THREAD_INIT" using that False s'(5) by (auto simp: s'(6) split: if_splits)
    then show ?thesis using own diff [OF False] tm(8) False by (auto simp: owns_def Let_def s'(6))
  qed
  have lst: "stat (threads s' (tm_parameter (objs s' v))) = RT_THREAD_SUSPEND \<and> thread_timer (threads s' (tm_parameter (objs s' v))) = v"
    if v: "v \<in> set (rt_timer_list s')" "timeout_func (objs s' v) = rt_thread_timeout_fn" for v
  proof (cases "v = ?tc")
    case True
    then show ?thesis using tm(6) oc(2) tc by (simp add: s'(6))
  next
    case False
    then have "objs s' v = objs s v" "v \<in> set (rt_timer_list s)" using tm(2,8) v(1) by auto
    with v(2) have "stat (threads s (tm_parameter (objs s' v))) = RT_THREAD_SUSPEND" "thread_timer (threads s (tm_parameter (objs s' v))) = v"
      using assms(2) by (auto simp: sleeping_ok_def)
    with assms(4) s'(5) show ?thesis by (auto simp: s'(6))
  qed
  have "sleeping_ok s'" using s'(2-4) own' lst by (simp add: sleeping_ok_def)
  moreover have "threads s' q = threads s q \<and> thread_timer (threads s q) \<in> set (rt_timer_list s')
      \<and> rest s' (thread_timer (threads s q)) = rest s (thread_timer (threads s q))"
    if "stat (threads s q) = RT_THREAD_SUSPEND" "thread_timer (threads s q) \<in> set (rt_timer_list s)" for q
  proof -
    have "thread_timer (threads s q) \<noteq> ?tc" using that(2) nl by metis
    from tm(8) [OF this] tm(2) that assms(4) s'(5) show ?thesis by (auto simp: s'(6))
  qed
  moreover have "threads s' c = (threads s c)\<lparr>stat := RT_THREAD_SUSPEND\<rparr>" using tc by (simp add: s'(6))
  ultimately show ?thesis using s'(1) tm(1-4) by (intro exI [of _ s']) simp
qed

text \<open>A thread that has gone to sleep for \<open>n\<close> ticks, \<open>k\<close> ticks later.\<close>

definition asleep :: "sched \<Rightarrow> nat \<Rightarrow> nat \<Rightarrow> bool" where
  "asleep s c n \<longleftrightarrow> timers_ok s \<and> sleeping_ok s \<and> stat (threads s c) = RT_THREAD_SUSPEND
     \<and> thread_timer (threads s c) \<in> set (rt_timer_list s) \<and> rest s (thread_timer (threads s c)) = n"

lemma asleep_run:
  assumes "sleep_run others s0 k s" "asleep s0 c n" "others_ok others" "k < n"
  shows "asleep s c (n - k)"
  using assms(1,4)
proof (induction rule: sleep_run.induct)
  case Begin
  then show ?case using assms(2) by simp
next
  case (Tick k s s')
  then have a: "asleep s c (n - k)" by simp
  from tick_wakes [of s others] a Tick.hyps(2) Tick.prems assms(3) show ?case by (auto simp: asleep_def)
next
  case (Sleep k s d u tick s')
  then have a: "asleep s c (n - k)" by simp
  then show ?case using sleep_keeps [of s d u tick] Sleep.hyps Sleep.prems by (auto simp: asleep_def)
next
  case (Yield k s s')
  then have a: "asleep s c (n - k)" by simp
  then obtain s'' where y: "rt_thread_yield s = Some s''" "sleeping_ok s''" "same_timers s s''"
    "\<forall>q. thread_timer (threads s'' q) = thread_timer (threads s q) \<and> (stat (threads s q) = RT_THREAD_SUSPEND \<longrightarrow> stat (threads s'' q) = RT_THREAD_SUSPEND)"
    using yield_ok [of s] by (auto simp: asleep_def)
  with Yield.hyps(2) have s: "s'' = s'" by simp
  have e: "objs s' = objs s" "rt_timer_list s' = rt_timer_list s" "rt_tick s' = rt_tick s" using y(3) s by (simp_all add: same_timers_def)
  then have r: "rest s' = rest s" by (auto simp: rest_def)
  have "list_ok s'" by (rule list_ok_other [of s]) (use a e in \<open>simp_all add: asleep_def timers_ok_def\<close>)
  with a y(2,4) e r s show ?case by (simp add: asleep_def timers_ok_def)
qed

text \<open>A running thread 8 and a ready thread 9.\<close>

definition demo_sleep :: sched where
  "demo_sleep = demo_sched\<lparr>objs := (\<lambda>v. \<lparr>tm_flag = 0, timeout_func = rt_thread_timeout_fn, tm_parameter = v, init_tick = 0, timeout_tick = 0\<rparr>)\<rparr>"

lemma demo_sleep_ok: "timers_ok demo_sleep" "sleeping_ok demo_sleep"
proof -
  have "rt_timer_list demo_sched = []" "rt_scheduler_lock_nest demo_sched = 0" "rt_current_thread demo_sched = Some 8"
    "\<And>c. stat (threads demo_sched c) \<noteq> RT_THREAD_INIT \<Longrightarrow> thread_timer (threads demo_sched c) = c"
    by (auto simp: demo_sched_def power_on_def rt_system_scheduler_init_def)
  moreover have "sched_ok demo_sleep" using demo_sched_ok by (simp add: demo_sleep_def sched_ok_def queues_ok_def current_ok_def)
  ultimately show "timers_ok demo_sleep" "sleeping_ok demo_sleep"
    by (simp_all add: timers_ok_def list_ok_def sleeping_ok_def owns_def demo_sleep_def)
qed

section \<open>Properties\<close>

text \<open>
  C32: a thread sleeps exactly as long as it asked for. After \<open>rt_thread_sleep n\<close>, whatever time slices end
  and whatever other threads run, yield and go to sleep, the thread stays suspended for all ticks before
  the \<open>n\<close>-th, no tick fails to return, and the \<open>n\<close>-th tick makes it ready or running. The timers of other
  owners keep to their own data.
\<close>

theorem sleep_ends_on_time:
  assumes "timers_ok s" "sleeping_ok s" "rt_current_thread s = Some c" "stat (threads s c) = RT_THREAD_RUNNING"
    and "stat (threads s u) = RT_THREAD_READY" "0 < n" "n < RT_TICK_MAX div 2" "others_ok others"
  shows "\<exists>s0. rt_thread_sleep n s = Some s0
    \<and> (\<forall>k s1. sleep_run others s0 k s1 \<and> k < unat n \<longrightarrow> stat (threads s1 c) = RT_THREAD_SUSPEND
        \<and> (\<exists>s2. thread_tick (sched_callbacks others) s1 = Some s2 \<and> (Suc k = unat n \<longrightarrow> awake s2 c)))"
proof -
  from sleep_keeps [OF assms(1-7)] obtain s0 where s0: "rt_thread_sleep n s = Some s0" "asleep s0 c (unat n)"
    by (auto simp: asleep_def)
  have "stat (threads s1 c) = RT_THREAD_SUSPEND
        \<and> (\<exists>s2. thread_tick (sched_callbacks others) s1 = Some s2 \<and> (Suc k = unat n \<longrightarrow> awake s2 c))"
    if "sleep_run others s0 k s1 \<and> k < unat n" for k s1
  proof -
    have a: "asleep s1 c (unat n - k)" using asleep_run [OF _ s0(2) assms(8)] that by blast
    then obtain s2 where "thread_tick (sched_callbacks others) s1 = Some s2" "unat n - k = 1 \<longrightarrow> awake s2 c"
      using tick_wakes [of s1 others] assms(8) by (auto simp: asleep_def)
    with a show ?thesis by (auto simp: asleep_def)
  qed
  with s0(1) show ?thesis by blast
qed

theorem sleep_ends_on_time_witness:
  "\<exists>s0 s1. rt_thread_sleep 1 demo_sleep = Some s0 \<and> thread_tick (sched_callbacks (\<lambda>_ _. Some)) s0 = Some s1 \<and> awake s1 8"
proof -
  have "rt_current_thread demo_sleep = Some 8" "stat (threads demo_sleep 8) = RT_THREAD_RUNNING" "stat (threads demo_sleep 9) = RT_THREAD_READY"
    by (simp_all add: demo_sleep_def demo_sched_def power_on_def rt_system_scheduler_init_def)
  moreover have "others_ok (\<lambda>_ _. Some)" by (simp add: others_ok_def idle_tame)
  ultimately have "\<exists>s0. rt_thread_sleep 1 demo_sleep = Some s0
    \<and> (\<forall>k s1. sleep_run (\<lambda>_ _. Some) s0 k s1 \<and> k < unat (1 :: u32) \<longrightarrow> stat (threads s1 8) = RT_THREAD_SUSPEND
        \<and> (\<exists>s2. thread_tick (sched_callbacks (\<lambda>_ _. Some)) s1 = Some s2 \<and> (Suc k = unat (1 :: u32) \<longrightarrow> awake s2 8)))"
    using sleep_ends_on_time [OF demo_sleep_ok, of 8 9 1 "\<lambda>_ _. Some"] by (simp add: half)
  then show ?thesis using sleep_run.Begin by fastforce
qed

end
