(* ===== verification/KIpc.thy ===== *)
theory KIpc
  imports Sched "HOL-Library.Multiset"
begin

text \<open>
  src/ipc.c: the semaphores and mutexes of the kernel on the scheduler. An object holds the list of the
  threads that wait for it; a thread is suspended or resumed through the scheduler. A call that blocks
  is modelled up to the switch to another thread; what the thread finds when it comes back is its error
  number. The object registry and hooks are left out.
\<close>

section \<open>Definitions\<close>

subsection \<open>Lists of waiting threads\<close>

text \<open>The position search of \<open>RT_IPC_FLAG_PRIO\<close>: before the first thread of lower priority.\<close>

primrec insert_waiter :: "(nat \<Rightarrow> nat) \<Rightarrow> nat \<Rightarrow> nat list \<Rightarrow> nat list" where
  "insert_waiter prio t [] = [t]"
| "insert_waiter prio t (u # us) = (if prio t < prio u then t # u # us else u # insert_waiter prio t us)"

definition enqueue :: "ipc_flag \<Rightarrow> (nat \<Rightarrow> nat) \<Rightarrow> nat \<Rightarrow> nat list \<Rightarrow> nat list" where
  "enqueue flag prio t list = (case flag of RT_IPC_FLAG_FIFO \<Rightarrow> list @ [t] | RT_IPC_FLAG_PRIO \<Rightarrow> insert_waiter prio t list)"

definition ipc_list_suspend :: "nat list \<Rightarrow> nat \<Rightarrow> ipc_flag \<Rightarrow> sched \<Rightarrow> (nat list \<times> sched) option" where
  "ipc_list_suspend list thread flag s = do {
     (_, s) \<leftarrow> rt_thread_suspend thread s;
     Some (enqueue flag (\<lambda>u. current_priority (threads s u)) thread list, s)
   }"

text \<open>A thread that is not suspended stays in the list.\<close>

definition ipc_list_resume :: "nat list \<Rightarrow> sched \<Rightarrow> (nat list \<times> sched) option" where
  "ipc_list_resume list s = (case list of
     [] \<Rightarrow> None
   | thread # ts \<Rightarrow> do { (b, s) \<leftarrow> rt_thread_resume thread s; Some (if b then ts else list, s) })"

definition set_error :: "nat \<Rightarrow> rt_err \<Rightarrow> sched \<Rightarrow> sched" where
  "set_error t e s = s\<lparr>threads := (threads s)(t := (threads s t)\<lparr>thr_error := e\<rparr>)\<rparr>"

text \<open>The loop ends because every round takes a thread out of the list.\<close>

primrec ipc_list_resume_all :: "nat list \<Rightarrow> sched \<Rightarrow> sched option" where
  "ipc_list_resume_all [] s = Some s"
| "ipc_list_resume_all (thread # ts) s = do {
     (b, s) \<leftarrow> rt_thread_resume thread (set_error thread RT_ERROR s);
     c_assert b;
     ipc_list_resume_all ts s
   }"

text \<open>A waiting time greater than 0 starts the timer of the thread.\<close>

definition start_waiting :: "nat \<Rightarrow> int \<Rightarrow> sched \<Rightarrow> sched option" where
  "start_waiting thread time s =
     (if time > 0 then
        let (_, s) = rt_timer_control (thread_timer (threads s thread)) RT_TIMER_CTRL_SET_TIME (of_int time) s
        in rt_timer_start (thread_timer (threads s thread)) s
      else Some s)"

text \<open>The steps with which every blocking call puts the current thread to sleep on the object.\<close>

definition wait_in :: "nat list \<Rightarrow> ipc_flag \<Rightarrow> int \<Rightarrow> nat \<Rightarrow> sched \<Rightarrow> (nat list \<times> sched) option" where
  "wait_in list flag time thread s = do {
     (ws, s) \<leftarrow> ipc_list_suspend list thread flag s;
     s \<leftarrow> start_waiting thread time s;
     s \<leftarrow> rt_schedule s;
     Some (ws, s)
   }"

text \<open>What a call that takes an object comes to.\<close>

datatype take_result = Taken | Refused rt_err | Blocked

subsection \<open>Semaphores\<close>

record rt_sem =
  sem_value :: u16
  sem_flag :: ipc_flag
  sem_waiters :: "nat list"

definition rt_sem_init :: "u32 \<Rightarrow> ipc_flag \<Rightarrow> rt_sem option" where
  "rt_sem_init v flag = do {
     c_assert (v < 0x10000);
     Some \<lparr>sem_value = ucast v, sem_flag = flag, sem_waiters = []\<rparr>
   }"

definition rt_sem_take :: "int \<Rightarrow> rt_sem \<Rightarrow> sched \<Rightarrow> (take_result \<times> rt_sem \<times> sched) option" where
  "rt_sem_take time sem s =
     (if sem_value sem > 0 then Some (Taken, sem\<lparr>sem_value := sem_value sem - 1\<rparr>, s)
      else if time = 0 then Some (Refused RT_ETIMEOUT, sem, s)
      else do {
        thread \<leftarrow> rt_current_thread s;
        let s = set_error thread RT_EOK s;
        (ws, s) \<leftarrow> wait_in (sem_waiters sem) (sem_flag sem) time thread s;
        Some (Blocked, sem\<lparr>sem_waiters := ws\<rparr>, s)
      })"

definition rt_sem_trytake :: "rt_sem \<Rightarrow> sched \<Rightarrow> (take_result \<times> rt_sem \<times> sched) option" where
  "rt_sem_trytake sem s = rt_sem_take 0 sem s"

definition rt_sem_release :: "rt_sem \<Rightarrow> sched \<Rightarrow> (rt_sem \<times> sched) option" where
  "rt_sem_release sem s =
     (if sem_waiters sem \<noteq> [] then do {
        (ws, s) \<leftarrow> ipc_list_resume (sem_waiters sem) s;
        s \<leftarrow> rt_schedule s;
        Some (sem\<lparr>sem_waiters := ws\<rparr>, s)
      } else Some (sem\<lparr>sem_value := sem_value sem + 1\<rparr>, s))"

definition RT_IPC_CMD_RESET :: int where "RT_IPC_CMD_RESET = 0x01"

definition rt_sem_control :: "int \<Rightarrow> u32 \<Rightarrow> rt_sem \<Rightarrow> sched \<Rightarrow> (rt_err \<times> rt_sem \<times> sched) option" where
  "rt_sem_control cmd arg sem s =
     (if cmd = RT_IPC_CMD_RESET then do {
        s \<leftarrow> ipc_list_resume_all (sem_waiters sem) s;
        s \<leftarrow> rt_schedule s;
        Some (RT_EOK, sem\<lparr>sem_value := ucast arg, sem_waiters := []\<rparr>, s)
      } else Some (RT_ERROR, sem, s))"

definition rt_sem_detach :: "rt_sem \<Rightarrow> sched \<Rightarrow> sched option" where
  "rt_sem_detach sem s = ipc_list_resume_all (sem_waiters sem) s"

text \<open>The timeout of a thread takes it out of the list it waits in.\<close>

definition waiter_timeout :: "nat \<Rightarrow> nat list \<Rightarrow> sched \<Rightarrow> (nat list \<times> sched) option" where
  "waiter_timeout t ws s = do { s \<leftarrow> rt_thread_timeout t s; Some (filter (\<lambda>u. u \<noteq> t) ws, s) }"

text \<open>
  Threads that use a semaphore as a lock. \<open>inside\<close> are the threads whose call of \<open>rt_sem_take\<close> has
  blocked and has not returned yet, \<open>holders\<close> those whose calls returned \<open>RT_EOK\<close>, once for every
  call, less their releases. A blocked call returns when its thread runs again, with the error number
  found there. The timer of a waiting thread may end, and the scheduler may do anything else that does not wake a waiting thread
  or touch the error number of a thread inside the call.
\<close>

record sem_world =
  sem :: rt_sem
  world :: sched
  inside :: "nat set"
  holders :: "nat multiset"

definition running :: "sched \<Rightarrow> nat \<Rightarrow> bool" where
  "running s c \<longleftrightarrow> rt_current_thread s = Some c \<and> stat (threads s c) = RT_THREAD_RUNNING"

inductive sem_step :: "sem_world \<Rightarrow> sem_world \<Rightarrow> bool" where
  Take: "running (world w) c \<Longrightarrow> c \<notin> inside w \<Longrightarrow> rt_sem_take time (sem w) (world w) = Some (r, m, s) \<Longrightarrow>
    sem_step w \<lparr>sem = m, world = s, inside = (if r = Blocked then insert c (inside w) else inside w),
      holders = (if r = Taken then add_mset c (holders w) else holders w)\<rparr>"
| Back: "running (world w) c \<Longrightarrow> c \<in> inside w \<Longrightarrow>
    sem_step w (w\<lparr>inside := inside w - {c},
      holders := (if thr_error (threads (world w) c) = RT_EOK then add_mset c (holders w) else holders w)\<rparr>)"
| Release: "running (world w) c \<Longrightarrow> c \<notin> inside w \<Longrightarrow> c \<in># holders w \<Longrightarrow> rt_sem_release (sem w) (world w) = Some (m, s) \<Longrightarrow>
    sem_step w (w\<lparr>sem := m, world := s, holders := holders w - {#c#}\<rparr>)"
| Expire: "t \<in> set (sem_waiters (sem w)) \<Longrightarrow> waiter_timeout t (sem_waiters (sem w)) (world w) = Some (ws, s) \<Longrightarrow>
    sem_step w (w\<lparr>sem := (sem w)\<lparr>sem_waiters := ws\<rparr>, world := s\<rparr>)"
| Other: "sched_step (world w) s \<Longrightarrow> rt_current_thread s \<noteq> None \<Longrightarrow> \<forall>t \<in> set (sem_waiters (sem w)). stat (threads s t) = RT_THREAD_SUSPEND \<Longrightarrow>
    \<forall>t \<in> inside w. thr_error (threads s t) = thr_error (threads (world w) t) \<Longrightarrow> sem_step w (w\<lparr>world := s\<rparr>)"

text \<open>The threads that have been given the semaphore but do not know yet.\<close>

definition granted :: "sem_world \<Rightarrow> nat set" where
  "granted w = {t \<in> inside w. t \<notin> set (sem_waiters (sem w)) \<and> thr_error (threads (world w) t) = RT_EOK}"

definition sched_alive :: "sched \<Rightarrow> bool" where
  "sched_alive s \<longleftrightarrow> sched_ok s \<and> rt_current_thread s \<noteq> None"

definition sem_inv :: "nat \<Rightarrow> sem_world \<Rightarrow> bool" where
  "sem_inv n w \<longleftrightarrow> n < 0x10000 \<and> sched_alive (world w) \<and> finite (inside w) \<and> distinct (sem_waiters (sem w))
     \<and> set (sem_waiters (sem w)) \<subseteq> inside w
     \<and> (\<forall>t \<in> set (sem_waiters (sem w)). stat (threads (world w) t) = RT_THREAD_SUSPEND \<and> thr_error (threads (world w) t) = RT_EOK)
     \<and> (sem_waiters (sem w) \<noteq> [] \<longrightarrow> sem_value (sem w) = 0)
     \<and> unat (sem_value (sem w)) + size (holders w) + card (granted w) = n"

section \<open>Waiting and waking\<close>

lemma set_insert_waiter [simp]: "set (insert_waiter prio t ts) = insert t (set ts)"
  by (induction ts) auto

lemma distinct_insert_waiter: "distinct (insert_waiter prio t ts) \<longleftrightarrow> t \<notin> set ts \<and> distinct ts"
  by (induction ts) auto

lemma set_enqueue [simp]: "set (enqueue flag prio t ts) = insert t (set ts)"
  by (cases flag) (auto simp: enqueue_def)

lemma distinct_enqueue [simp]: "distinct (enqueue flag prio t ts) \<longleftrightarrow> t \<notin> set ts \<and> distinct ts"
  by (cases flag) (auto simp: enqueue_def distinct_insert_waiter)

text \<open>Nothing happens to the threads but that they start and stop running, and only those of \<open>A\<close> are woken.\<close>

definition keeps :: "nat set \<Rightarrow> sched \<Rightarrow> sched \<Rightarrow> bool" where
  "keeps A s s' \<longleftrightarrow> (\<forall>t. current_priority (threads s' t) = current_priority (threads s t) \<and> thr_error (threads s' t) = thr_error (threads s t)
     \<and> (t \<notin> A \<longrightarrow> stat (threads s t) = RT_THREAD_SUSPEND \<longrightarrow> stat (threads s' t) = RT_THREAD_SUSPEND))"

lemma keeps_trans: "keeps A s s' \<Longrightarrow> keeps B s' s'' \<Longrightarrow> A \<union> B \<subseteq> C \<Longrightarrow> keeps C s s''"
  by (auto simp: keeps_def)

lemma schedule_keeps:
  assumes "sched_alive s"
  shows "\<exists>s'. rt_schedule s = Some s' \<and> sched_alive s' \<and> keeps {} s s'"
proof -
  obtain c where c: "sched_ok s" "rt_current_thread s = Some c" using assms by (auto simp: sched_alive_def)
  show ?thesis
  proof (cases "rt_scheduler_lock_nest s = 0 \<and> rt_thread_ready_priority_group s \<noteq> 0")
    case True
    then show ?thesis using rt_schedule_spec [OF c] by (fastforce simp: sched_alive_def keeps_def)
  next
    case False
    then show ?thesis using assms by (auto simp: rt_schedule_def keeps_def)
  qed
qed

lemma suspend_current:
  assumes "sched_ok s" "rt_current_thread s = Some c" "stat (threads s c) = RT_THREAD_RUNNING"
  shows "\<exists>s'. rt_thread_suspend c s = Some (True, s') \<and> sched_alive s' \<and> rt_current_thread s' = Some c
    \<and> threads s' = (threads s)(c := (threads s c)\<lparr>stat := RT_THREAD_SUSPEND\<rparr>)"
proof -
  have "queues_ok s" using assms(1) by (simp add: sched_ok_def)
  then obtain s1 where s1: "rt_schedule_remove_thread c s = Some s1"
    using remove_spec [of s c RT_THREAD_SUSPEND] assms(3) by auto
  note r = remove_ok [OF assms(1) disjI2 [OF assms(2)] s1]
  show ?thesis using s1 r assms(2,3) by (simp add: rt_thread_suspend_def case_prod_beta sched_alive_def timer_stop_ok)
qed

lemma start_waiting_kept:
  assumes "start_waiting c time s = Some s'"
  shows "threads s' = threads s" "rt_current_thread s' = rt_current_thread s" "sched_ok s' \<longleftrightarrow> sched_ok s"
proof -
  have *: "threads s' = threads s \<and> rt_current_thread s' = rt_current_thread s \<and> rt_thread_priority_table s' = rt_thread_priority_table s
    \<and> rt_thread_ready_priority_group s' = rt_thread_ready_priority_group s"
    using assms by (auto simp: start_waiting_def rt_timer_control_def rt_timer_start_def set_flag_def rt_timer_remove_def Let_def
        bind_eq_Some_conv split: if_splits)
  then show "threads s' = threads s" "rt_current_thread s' = rt_current_thread s" by simp_all
  from * show "sched_ok s' \<longleftrightarrow> sched_ok s" by (intro sched_ok_cong) simp_all
qed

lemma start_waiting_returns:
  "time > 0 \<longrightarrow> (of_int time :: u32) < RT_TICK_MAX div 2 \<Longrightarrow> \<exists>s'. start_waiting c time s = Some s'"
  by (auto simp: start_waiting_def rt_timer_control_def rt_timer_start_def set_flag_def rt_timer_remove_def Let_def)

lemma wait_in_kept:
  assumes "sched_ok s" "rt_current_thread s = Some c" "stat (threads s c) = RT_THREAD_RUNNING" "wait_in list flag time c s = Some (ws, s')"
  shows "ws = enqueue flag (\<lambda>u. current_priority (threads s u)) c list" "sched_alive s'" "keeps {} s s'"
    "stat (threads s' c) = RT_THREAD_SUSPEND"
proof -
  obtain s1 where s1: "rt_thread_suspend c s = Some (True, s1)" "sched_alive s1" "rt_current_thread s1 = Some c"
    "threads s1 = (threads s)(c := (threads s c)\<lparr>stat := RT_THREAD_SUSPEND\<rparr>)"
    using suspend_current [OF assms(1-3)] by blast
  obtain s2 where s2: "start_waiting c time s1 = Some s2" "rt_schedule s2 = Some s'"
    "ws = enqueue flag (\<lambda>u. current_priority (threads s1 u)) c list"
    using assms(4) s1(1) by (auto simp: wait_in_def ipc_list_suspend_def bind_eq_Some_conv)
  note k = start_waiting_kept [OF s2(1)]
  have "sched_alive s2" using s1(2) k by (simp add: sched_alive_def)
  with schedule_keeps s2(2) have s': "sched_alive s'" "keeps {} s2 s'" by fastforce+
  have "(\<lambda>u. current_priority (threads s1 u)) = (\<lambda>u. current_priority (threads s u))" by (auto simp: s1(4))
  then show "ws = enqueue flag (\<lambda>u. current_priority (threads s u)) c list" using s2(3) by simp
  show "sched_alive s'" by (fact s'(1))
  have "keeps {} s s2" by (simp add: keeps_def k(1) s1(4))
  then show "keeps {} s s'" using keeps_trans s'(2) by blast
  show "stat (threads s' c) = RT_THREAD_SUSPEND" using s'(2) by (simp add: keeps_def k(1) s1(4))
qed

lemma wait_in_returns:
  assumes "sched_ok s" "rt_current_thread s = Some c" "stat (threads s c) = RT_THREAD_RUNNING"
    and "time > 0 \<longrightarrow> (of_int time :: u32) < RT_TICK_MAX div 2"
  shows "\<exists>r. wait_in list flag time c s = Some r"
proof -
  obtain s1 where s1: "rt_thread_suspend c s = Some (True, s1)" "sched_alive s1" using suspend_current [OF assms(1-3)] by blast
  obtain s2 where s2: "start_waiting c time s1 = Some s2" using start_waiting_returns [OF assms(4)] by blast
  then have "sched_alive s2" using start_waiting_kept [OF s2] s1(2) by (simp add: sched_alive_def)
  with schedule_keeps s1(1) s2 show ?thesis by (fastforce simp: wait_in_def ipc_list_suspend_def)
qed

lemma insert_suspended:
  assumes "sched_alive s" "stat (threads s t) = RT_THREAD_SUSPEND"
  shows "\<exists>s'. rt_schedule_insert_thread t s = Some s' \<and> sched_alive s' \<and> keeps {t} s s'"
proof (cases "rt_current_thread s = Some t")
  case True
  let ?s = "set_stat t RT_THREAD_RUNNING s"
  have i: "rt_schedule_insert_thread t s = Some ?s" using True by (simp add: rt_schedule_insert_thread_def)
  moreover have "sched_ok ?s" using insert_ok [OF _ assms(2) i] assms(1) by (simp add: sched_alive_def)
  ultimately show ?thesis using True by (simp add: sched_alive_def keeps_def)
next
  case False
  obtain s' where s': "rt_schedule_insert_thread t s = Some s'" "threads s' = (threads s)(t := (threads s t)\<lparr>stat := RT_THREAD_READY\<rparr>)"
    "rt_current_thread s' = rt_current_thread s"
    using insert_spec [of s t] False assms by (auto simp: sched_alive_def sched_ok_def)
  moreover have "sched_ok s'" using insert_ok [OF _ assms(2) s'(1)] assms(1) by (simp add: sched_alive_def)
  ultimately show ?thesis using assms(1) by (auto simp: sched_alive_def keeps_def)
qed

lemma resume_suspended:
  assumes "sched_alive s" "stat (threads s t) = RT_THREAD_SUSPEND"
  shows "\<exists>s'. rt_thread_resume t s = Some (True, s') \<and> sched_alive s' \<and> keeps {t} s s'"
proof -
  let ?s = "snd (rt_timer_stop (thread_timer (threads s t)) s)"
  have "sched_alive ?s" using assms(1) by (simp add: sched_alive_def timer_stop_ok)
  with insert_suspended [of ?s t] assms(2) obtain s' where
    "rt_schedule_insert_thread t ?s = Some s'" "sched_alive s'" "keeps {t} ?s s'" by auto
  then show ?thesis using assms(2) by (auto simp: rt_thread_resume_def case_prod_beta keeps_def)
qed

lemma wake_first:
  assumes "sched_alive s" "stat (threads s t) = RT_THREAD_SUSPEND"
  shows "\<exists>s1 s'. ipc_list_resume (t # ts) s = Some (ts, s1) \<and> rt_schedule s1 = Some s' \<and> sched_alive s' \<and> keeps {t} s s'"
proof -
  obtain s1 where s1: "rt_thread_resume t s = Some (True, s1)" "sched_alive s1" "keeps {t} s s1" using resume_suspended [OF assms] by blast
  obtain s' where "rt_schedule s1 = Some s'" "sched_alive s'" "keeps {} s1 s'" using schedule_keeps [OF s1(2)] by blast
  with s1 keeps_trans [OF s1(3), of "{}" s' "{t}"] show ?thesis by (auto simp: ipc_list_resume_def)
qed

lemma set_error_alive [simp]: "sched_alive (set_error t e s) \<longleftrightarrow> sched_alive s"
  by (auto simp: sched_alive_def set_error_def sched_ok_def queues_ok_def current_ok_def thread_ok_def)

lemma set_error_simps [simp]:
  "threads (set_error t e s) = (threads s)(t := (threads s t)\<lparr>thr_error := e\<rparr>)" "rt_current_thread (set_error t e s) = rt_current_thread s"
  by (simp_all add: set_error_def)

lemma timeout_wakes:
  assumes "sched_alive s" "stat (threads s t) = RT_THREAD_SUSPEND"
  shows "\<exists>s'. waiter_timeout t ws s = Some (filter (\<lambda>u. u \<noteq> t) ws, s') \<and> sched_alive s' \<and> keeps {t} (set_error t RT_ETIMEOUT s) s'"
proof -
  let ?s = "set_error t RT_ETIMEOUT s"
  obtain s1 where s1: "rt_schedule_insert_thread t ?s = Some s1" "sched_alive s1" "keeps {t} ?s s1"
    using insert_suspended [of ?s t] assms by auto
  obtain s' where s': "rt_schedule s1 = Some s'" "sched_alive s'" "keeps {} s1 s'" using schedule_keeps [OF s1(2)] by blast
  have "rt_thread_timeout t s = Some s'" using s1(1) s'(1) assms(2) by (simp add: rt_thread_timeout_def set_error_def)
  then show ?thesis using s'(2) keeps_trans [OF s1(3) s'(3), of "{t}"] by (simp add: waiter_timeout_def)
qed

text \<open>A reset object sends everybody who waited away with \<open>-RT_ERROR\<close>.\<close>

lemma resume_all_wakes:
  assumes "sched_alive s" "distinct ts" "\<forall>t \<in> set ts. stat (threads s t) = RT_THREAD_SUSPEND"
  shows "\<exists>s'. ipc_list_resume_all ts s = Some s' \<and> sched_alive s'
    \<and> (\<forall>t. thr_error (threads s' t) = (if t \<in> set ts then RT_ERROR else thr_error (threads s t)))
    \<and> (\<forall>t. t \<notin> set ts \<longrightarrow> stat (threads s t) = RT_THREAD_SUSPEND \<longrightarrow> stat (threads s' t) = RT_THREAD_SUSPEND)"
  using assms
proof (induction ts arbitrary: s)
  case (Cons t ts)
  let ?s = "set_error t RT_ERROR s"
  obtain s1 where s1: "rt_thread_resume t ?s = Some (True, s1)" "sched_alive s1" "keeps {t} ?s s1"
    using resume_suspended [of ?s t] Cons.prems by auto
  have "\<forall>u \<in> set ts. stat (threads s1 u) = RT_THREAD_SUSPEND" using s1(3) Cons.prems by (auto simp: keeps_def)
  then obtain s' where s': "ipc_list_resume_all ts s1 = Some s'" "sched_alive s'"
    "\<And>u. thr_error (threads s' u) = (if u \<in> set ts then RT_ERROR else thr_error (threads s1 u))"
    "\<And>u. u \<notin> set ts \<Longrightarrow> stat (threads s1 u) = RT_THREAD_SUSPEND \<Longrightarrow> stat (threads s' u) = RT_THREAD_SUSPEND"
    using Cons.IH [OF s1(2)] Cons.prems(2) by auto
  then show ?case using s1 by (auto simp: keeps_def)
qed simp

lemma sem_reset_wakes:
  assumes "sem_inv n w"
  shows "\<exists>s. rt_sem_control RT_IPC_CMD_RESET v (sem w) (world w) = Some (RT_EOK, (sem w)\<lparr>sem_value := ucast v, sem_waiters := []\<rparr>, s)
    \<and> sched_alive s \<and> (\<forall>t \<in> set (sem_waiters (sem w)). thr_error (threads s t) = RT_ERROR)"
proof -
  obtain s1 where s1: "ipc_list_resume_all (sem_waiters (sem w)) (world w) = Some s1" "sched_alive s1"
    "\<forall>t. thr_error (threads s1 t) = (if t \<in> set (sem_waiters (sem w)) then RT_ERROR else thr_error (threads (world w) t))"
    using resume_all_wakes [of "world w" "sem_waiters (sem w)"] assms by (auto simp: sem_inv_def)
  obtain s where "rt_schedule s1 = Some s" "sched_alive s" "keeps {} s1 s" using schedule_keeps [OF s1(2)] by blast
  with s1 show ?thesis by (auto simp: rt_sem_control_def keeps_def)
qed

section \<open>Semaphores as locks\<close>

lemma sem_take_inv:
  assumes "sem_inv n w" "running (world w) c" "c \<notin> inside w" "rt_sem_take time (sem w) (world w) = Some (r, m, s)"
  shows "sem_inv n \<lparr>sem = m, world = s, inside = (if r = Blocked then insert c (inside w) else inside w),
      holders = (if r = Taken then add_mset c (holders w) else holders w)\<rparr>"
proof -
  have w: "sched_alive (world w)" "sched_ok (world w)" "rt_current_thread (world w) = Some c" "stat (threads (world w) c) = RT_THREAD_RUNNING"
    using assms(1,2) by (auto simp: sem_inv_def running_def sched_alive_def)
  consider "sem_value (sem w) > 0" | "sem_value (sem w) = 0" "time = 0" | "sem_value (sem w) = 0" "time \<noteq> 0" by (auto simp: word_gt_0)
  then show ?thesis
  proof cases
    case 1
    then have "unat (sem_value (sem w) - 1) + 1 = unat (sem_value (sem w))"
      by (metis One_nat_def Suc_eq_plus1 Suc_pred unat_gt_0 unat_minus_one word_gt_0)
    then show ?thesis using assms(1,4) 1 by (auto simp: rt_sem_take_def sem_inv_def granted_def)
  next
    case 2
    then show ?thesis using assms(1,4) by (auto simp: rt_sem_take_def sem_inv_def granted_def)
  next
    case 3
    let ?s = "set_error c RT_EOK (world w)"
    obtain ws where wi: "wait_in (sem_waiters (sem w)) (sem_flag (sem w)) time c ?s = Some (ws, s)" "r = Blocked" "m = (sem w)\<lparr>sem_waiters := ws\<rparr>"
      using assms(4) 3 w(3) by (auto simp: rt_sem_take_def bind_eq_Some_conv)
    have "sched_ok ?s" "rt_current_thread ?s = Some c" "stat (threads ?s c) = RT_THREAD_RUNNING"
      using w set_error_alive [of c RT_EOK "world w"] by (auto simp: sched_alive_def)
    note k = wait_in_kept [OF this wi(1)]
    have c: "c \<notin> set (sem_waiters (sem w))" using assms(1,3) by (auto simp: sem_inv_def)
    have ws: "set ws = insert c (set (sem_waiters (sem w)))" "distinct ws" using k(1) c assms(1) by (auto simp: sem_inv_def)
    have e: "thr_error (threads s t) = (if t = c then RT_EOK else thr_error (threads (world w) t))" for t using k(3) by (simp add: keeps_def)
    have "stat (threads s t) = RT_THREAD_SUSPEND" if "t \<in> set ws" for t
      using k(3,4) that ws(1) c assms(1) by (cases "t = c") (auto simp: keeps_def sem_inv_def)
    moreover have "granted \<lparr>sem = m, world = s, inside = insert c (inside w), holders = holders w\<rparr> = granted w"
      using ws(1) wi(3) assms(3) by (auto simp: granted_def e)
    ultimately show ?thesis using assms(1) wi(2,3) ws k(2) 3(1) by (auto simp: sem_inv_def e)
  qed
qed

lemma sem_back_inv:
  assumes "sem_inv n w" "running (world w) c" "c \<in> inside w"
  shows "sem_inv n (w\<lparr>inside := inside w - {c}, holders := (if thr_error (threads (world w) c) = RT_EOK then add_mset c (holders w) else holders w)\<rparr>)"
    (is "sem_inv n ?w")
proof -
  have c: "c \<notin> set (sem_waiters (sem w))" using assms(1,2) by (auto simp: sem_inv_def running_def)
  have "granted ?w = granted w - {c}" "c \<in> granted w \<longleftrightarrow> thr_error (threads (world w) c) = RT_EOK"
    using assms(3) c by (auto simp: granted_def)
  moreover have f: "finite (granted w)" using assms(1) by (simp add: granted_def sem_inv_def)
  ultimately have "size (holders ?w) + card (granted ?w) = size (holders w) + card (granted w)"
    using card_Suc_Diff1 [OF f, of c] by auto
  then show ?thesis using assms(1) c by (auto simp: sem_inv_def)
qed

lemma sem_release_inv:
  assumes "sem_inv n w" "c \<in># holders w"
  shows "\<exists>m s. rt_sem_release (sem w) (world w) = Some (m, s) \<and> sem_inv n (w\<lparr>sem := m, world := s, holders := holders w - {#c#}\<rparr>)"
proof (cases "sem_waiters (sem w)")
  case Nil
  have "size (holders w) = size (holders w - {#c#}) + 1" using assms(2) by (metis Suc_eq_plus1 insert_DiffM size_add_mset)
  then have "unat (sem_value (sem w)) + 1 + size (holders w - {#c#}) + card (granted w) = n" "unat (sem_value (sem w)) + 1 < 0x10000"
    using assms(1) by (auto simp: sem_inv_def)
  moreover from this(2) have "unat (sem_value (sem w) + 1) = unat (sem_value (sem w)) + 1" by (simp add: unat_word_ariths)
  ultimately show ?thesis using assms(1) Nil by (auto simp: rt_sem_release_def sem_inv_def granted_def)
next
  case (Cons t ts)
  have al: "sched_alive (world w)" using assms(1) by (simp add: sem_inv_def)
  have t: "stat (threads (world w) t) = RT_THREAD_SUSPEND" "thr_error (threads (world w) t) = RT_EOK" "t \<notin> set ts" "t \<in> inside w"
    using assms(1) Cons by (auto simp: sem_inv_def)
  obtain s1 s' where s': "ipc_list_resume (t # ts) (world w) = Some (ts, s1)" "rt_schedule s1 = Some s'" "sched_alive s'" "keeps {t} (world w) s'"
    using wake_first [OF al t(1)] by blast
  let ?w = "w\<lparr>sem := (sem w)\<lparr>sem_waiters := ts\<rparr>, world := s', holders := holders w - {#c#}\<rparr>"
  have k: "thr_error (threads s' u) = thr_error (threads (world w) u)" for u using s'(4) by (simp add: keeps_def)
  have "granted ?w = insert t (granted w)" "t \<notin> granted w" using t Cons by (auto simp: granted_def k)
  moreover have "finite (granted w)" using assms(1) by (simp add: granted_def sem_inv_def)
  ultimately have "card (granted ?w) = card (granted w) + 1" by simp
  moreover have "size (holders w) = size (holders w - {#c#}) + 1" using assms(2) by (metis Suc_eq_plus1 insert_DiffM size_add_mset)
  moreover have "stat (threads s' u) = RT_THREAD_SUSPEND" if "u \<in> set ts" for u
    using that t(3) s'(4) assms(1) Cons by (auto simp: keeps_def sem_inv_def)
  ultimately have "sem_inv n ?w" using assms(1) Cons s'(3) by (auto simp: sem_inv_def k)
  then show ?thesis using s'(1,2) Cons by (simp add: rt_sem_release_def)
qed

lemma sem_expire_inv:
  assumes "sem_inv n w" "t \<in> set (sem_waiters (sem w))"
  shows "\<exists>ws s. waiter_timeout t (sem_waiters (sem w)) (world w) = Some (ws, s) \<and> sem_inv n (w\<lparr>sem := (sem w)\<lparr>sem_waiters := ws\<rparr>, world := s\<rparr>)"
proof -
  let ?ws = "filter (\<lambda>u. u \<noteq> t) (sem_waiters (sem w))"
  obtain s where s: "waiter_timeout t (sem_waiters (sem w)) (world w) = Some (?ws, s)" "sched_alive s" "keeps {t} (set_error t RT_ETIMEOUT (world w)) s"
    using timeout_wakes [of "world w" t "sem_waiters (sem w)"] assms by (auto simp: sem_inv_def)
  let ?w = "w\<lparr>sem := (sem w)\<lparr>sem_waiters := ?ws\<rparr>, world := s\<rparr>"
  have k: "thr_error (threads s u) = (if u = t then RT_ETIMEOUT else thr_error (threads (world w) u))" for u using s(3) by (simp add: keeps_def)
  have "granted ?w = granted w" using assms by (auto simp: granted_def k)
  moreover have "stat (threads s u) = RT_THREAD_SUSPEND" if "u \<in> set ?ws" for u
    using that s(3) assms(1) by (auto simp: keeps_def sem_inv_def)
  ultimately have "sem_inv n ?w" using assms(1) s(2) by (auto simp: sem_inv_def k filter_empty_conv)
  with s(1) show ?thesis by blast
qed

lemma sem_other_inv:
  assumes "sem_inv n w" "sched_step (world w) s" "rt_current_thread s \<noteq> None"
    "\<forall>t \<in> set (sem_waiters (sem w)). stat (threads s t) = RT_THREAD_SUSPEND"
    "\<forall>t \<in> inside w. thr_error (threads s t) = thr_error (threads (world w) t)"
  shows "sem_inv n (w\<lparr>world := s\<rparr>)"
proof -
  have "sched_alive s" using sched_step_ok [OF assms(2)] assms(1,3) by (simp add: sem_inv_def sched_alive_def)
  moreover have "granted (w\<lparr>world := s\<rparr>) = granted w" using assms(5) by (auto simp: granted_def)
  ultimately show ?thesis using assms(1,4,5) by (auto simp: sem_inv_def)
qed

lemma sem_step_inv: "sem_step w w' \<Longrightarrow> sem_inv n w \<Longrightarrow> sem_inv n w'"
proof (induction rule: sem_step.induct)
  case (Take w c time r m s)
  then show ?case by (intro sem_take_inv)
next
  case (Back w c)
  then show ?case by (intro sem_back_inv)
next
  case (Release w c m s)
  then show ?case using sem_release_inv [of n w c] by auto
next
  case (Expire t w ws s)
  then show ?case using sem_expire_inv [of n w t] by auto
next
  case (Other w s)
  then show ?case by (intro sem_other_inv)
qed

lemma sem_init_inv:
  assumes "rt_sem_init v flag = Some m" "sched_alive s"
  shows "sem_inv (unat v) \<lparr>sem = m, world = s, inside = {}, holders = {#}\<rparr>"
proof -
  have v: "v < 0x10000" "m = \<lparr>sem_value = ucast v, sem_flag = flag, sem_waiters = []\<rparr>"
    using assms(1) by (auto simp: rt_sem_init_def bind_eq_Some_conv)
  then have "unat v < 0x10000" by (simp add: word_less_nat_alt)
  then show ?thesis using assms(2) v(2) by (simp add: sem_inv_def granted_def unsigned_ucast_eq take_bit_nat_eq_self)
qed

lemma sem_run_inv:
  assumes "rt_sem_init v flag = Some m" "sched_alive s" "sem_step\<^sup>*\<^sup>* \<lparr>sem = m, world = s, inside = {}, holders = {#}\<rparr> w"
  shows "sem_inv (unat v) w"
  using assms(3) by (induction rule: rtranclp_induct) (auto intro: sem_init_inv [OF assms(1,2)] sem_step_inv)

lemma sem_take_returns:
  assumes "sem_inv n w" "running (world w) c" "time > 0 \<longrightarrow> (of_int time :: u32) < RT_TICK_MAX div 2"
  shows "\<exists>r. rt_sem_take time (sem w) (world w) = Some r"
proof -
  let ?s = "set_error c RT_EOK (world w)"
  have "sched_ok ?s" "rt_current_thread ?s = Some c" "stat (threads ?s c) = RT_THREAD_RUNNING"
    using assms(1,2) set_error_alive [of c RT_EOK "world w"] by (auto simp: sem_inv_def running_def sched_alive_def)
  from wait_in_returns [OF this assms(3)] obtain r where "wait_in (sem_waiters (sem w)) (sem_flag (sem w)) time c ?s = Some r" by blast
  then show ?thesis using assms(2) by (cases r) (simp add: rt_sem_take_def running_def)
qed

section \<open>Properties\<close>

text \<open>
  C37: a semaphore of value \<open>v\<close> that threads use as a lock lets at most \<open>v\<close> of them in. Whatever threads
  take it, wait for it, are timed out, preempted or woken, the calls that have returned \<open>RT_EOK\<close> and have
  not been released, those about to do so and the value add up to \<open>v\<close>; nobody waits while the value
  is not 0, so no wake-up is lost; and no call of a running thread fails: it gets the semaphore, is
  refused or waits, and a release always returns. With \<open>v = 1\<close> this is what the lock of the heap relies on.
\<close>

theorem semaphore_admits_its_value:
  assumes "rt_sem_init v flag = Some m" "sched_alive s" "sem_step\<^sup>*\<^sup>* \<lparr>sem = m, world = s, inside = {}, holders = {#}\<rparr> w"
  shows "size (holders w) \<le> unat v \<and> unat (sem_value (sem w)) + size (holders w) + card (granted w) = unat v
    \<and> (sem_waiters (sem w) \<noteq> [] \<longrightarrow> sem_value (sem w) = 0)
    \<and> (\<forall>c time. running (world w) c \<and> (time > 0 \<longrightarrow> (of_int time :: u32) < RT_TICK_MAX div 2)
         \<longrightarrow> (\<exists>r. rt_sem_take time (sem w) (world w) = Some r))
    \<and> (\<forall>c. c \<in># holders w \<longrightarrow> (\<exists>r. rt_sem_release (sem w) (world w) = Some r))"
proof -
  have i: "sem_inv (unat v) w" by (rule sem_run_inv [OF assms])
  then have "unat (sem_value (sem w)) + size (holders w) + card (granted w) = unat v" "sem_waiters (sem w) \<noteq> [] \<longrightarrow> sem_value (sem w) = 0"
    by (simp_all add: sem_inv_def)
  moreover have "\<exists>r. rt_sem_release (sem w) (world w) = Some r" if "c \<in># holders w" for c
    using sem_release_inv [OF i that] by blast
  moreover from calculation(1) have "size (holders w) \<le> unat v" by linarith
  ultimately show ?thesis using sem_take_returns [OF i] by blast
qed

theorem semaphore_admits_its_value_witness:
  "\<exists>w :: sem_world. holders w = {#8#} \<and> world w = demo_sched \<and> sem_value (sem w) = 0 \<and> size (holders w) \<le> 1
     \<and> (\<exists>r. rt_sem_release (sem w) (world w) = Some r)"
proof -
  let ?m = "\<lparr>sem_value = 1, sem_flag = RT_IPC_FLAG_FIFO, sem_waiters = []\<rparr>"
  let ?w = "\<lparr>sem = ?m\<lparr>sem_value := 0\<rparr>, world = demo_sched, inside = {}, holders = {#8#}\<rparr>"
  have c: "rt_current_thread demo_sched = Some 8" "stat (threads demo_sched 8) = RT_THREAD_RUNNING"
    by (simp_all add: demo_sched_def power_on_def rt_system_scheduler_init_def)
  have "sem_step \<lparr>sem = ?m, world = demo_sched, inside = {}, holders = {#}\<rparr> ?w"
    using sem_step.Take [of "\<lparr>sem = ?m, world = demo_sched, inside = {}, holders = {#}\<rparr>" 8 "-1" Taken "?m\<lparr>sem_value := 0\<rparr>" demo_sched] c
    by (simp add: running_def rt_sem_take_def)
  moreover have "sched_alive demo_sched" using demo_sched_ok c(1) by (simp add: sched_alive_def)
  moreover have "rt_sem_init 1 RT_IPC_FLAG_FIFO = Some ?m" by (simp add: rt_sem_init_def)
  ultimately show ?thesis
    using semaphore_admits_its_value [of 1 RT_IPC_FLAG_FIFO ?m demo_sched ?w] by (intro exI [of _ ?w]) auto
qed

end
