(* ===== verification/KMutex.thy ===== *)
theory KMutex
  imports KIpc
begin

text \<open>
  The mutexes of src/ipc.c: ownership, nested takes, and the inheritance of priorities, in which the
  owner of a mutex runs with the priority of the most urgent thread that waits for it.
\<close>

section \<open>Definitions\<close>

record rt_mutex =
  mtx_value :: u16
  owner_thread :: "nat option"
  original_priority :: nat
  mtx_hold :: u8
  mtx_flag :: ipc_flag
  mtx_waiters :: "nat list"

definition rt_mutex_init :: "ipc_flag \<Rightarrow> rt_mutex" where
  "rt_mutex_init flag = \<lparr>mtx_value = 1, owner_thread = None, original_priority = 0xFF, mtx_hold = 0, mtx_flag = flag, mtx_waiters = []\<rparr>"

definition rt_mutex_take :: "int \<Rightarrow> rt_mutex \<Rightarrow> sched \<Rightarrow> (take_result \<times> rt_mutex \<times> sched) option" where
  "rt_mutex_take time mutex s = do {
     thread \<leftarrow> rt_current_thread s;
     let s = set_error thread RT_EOK s;
     if owner_thread mutex = Some thread then Some (Taken, mutex\<lparr>mtx_hold := mtx_hold mutex + 1\<rparr>, s)
     else if mtx_value mutex > 0 then
       Some (Taken, mutex\<lparr>mtx_value := mtx_value mutex - 1, owner_thread := Some thread,
         original_priority := current_priority (threads s thread), mtx_hold := mtx_hold mutex + 1\<rparr>, s)
     else if time = 0 then Some (Refused RT_ETIMEOUT, mutex, set_error thread RT_ETIMEOUT s)
     else do {
       own \<leftarrow> owner_thread mutex;
       s \<leftarrow> (if current_priority (threads s thread) < current_priority (threads s own)
            then change_priority own (current_priority (threads s thread)) s else Some s);
       (ws, s) \<leftarrow> wait_in (mtx_waiters mutex) (mtx_flag mutex) time thread s;
       Some (Blocked, mutex\<lparr>mtx_waiters := ws\<rparr>, s)
     }
   }"

text \<open>The result is \<open>False\<close> for \<open>-RT_ERROR\<close>.\<close>

definition rt_mutex_release :: "rt_mutex \<Rightarrow> sched \<Rightarrow> (bool \<times> rt_mutex \<times> sched) option" where
  "rt_mutex_release mutex s = do {
     thread \<leftarrow> rt_current_thread s;
     if owner_thread mutex \<noteq> Some thread then Some (False, mutex, set_error thread RT_ERROR s)
     else do {
       let mutex = mutex\<lparr>mtx_hold := mtx_hold mutex - 1\<rparr>;
       if mtx_hold mutex \<noteq> 0 then Some (True, mutex, s)
       else do {
         s \<leftarrow> (if original_priority mutex \<noteq> current_priority (threads s thread)
              then change_priority thread (original_priority mutex) s else Some s);
         (case mtx_waiters mutex of
            [] \<Rightarrow> Some (True, mutex\<lparr>mtx_value := mtx_value mutex + 1, owner_thread := None, original_priority := 0xFF\<rparr>, s)
          | t # _ \<Rightarrow> do {
              let mutex = mutex\<lparr>owner_thread := Some t, original_priority := current_priority (threads s t), mtx_hold := mtx_hold mutex + 1\<rparr>;
              (ws, s) \<leftarrow> ipc_list_resume (mtx_waiters mutex) s;
              s \<leftarrow> rt_schedule s;
              Some (True, mutex\<lparr>mtx_waiters := ws\<rparr>, s)
            })
       }
     }
   }"

definition rt_mutex_control :: "rt_mutex \<Rightarrow> rt_err" where
  "rt_mutex_control mutex = RT_ERROR"

definition rt_mutex_detach :: "rt_mutex \<Rightarrow> sched \<Rightarrow> sched option" where
  "rt_mutex_detach mutex s = ipc_list_resume_all (mtx_waiters mutex) s"

text \<open>
  Threads that use a mutex: \<open>minside\<close> are the threads whose call of \<open>rt_mutex_take\<close> has blocked and not
  returned yet, \<open>held\<close> the calls that returned \<open>RT_EOK\<close>, less the releases that did. Nobody nests more than
  255 calls. Anything else may happen in the scheduler that does not wake a waiting thread, touch the
  error number of a thread inside the call, the priority of a waiting thread, or lower that of the owner.
\<close>

record mutex_world =
  mtx :: rt_mutex
  mworld :: sched
  minside :: "nat set"
  held :: "nat multiset"

definition owner_kept :: "rt_mutex \<Rightarrow> sched \<Rightarrow> sched \<Rightarrow> bool" where
  "owner_kept m s s' \<longleftrightarrow> (case owner_thread m of None \<Rightarrow> True | Some own \<Rightarrow> current_priority (threads s' own) \<le> current_priority (threads s own))"

inductive mutex_step :: "mutex_world \<Rightarrow> mutex_world \<Rightarrow> bool" where
  Take: "running (mworld w) c \<Longrightarrow> c \<notin> minside w \<Longrightarrow> mtx_hold (mtx w) < 255 \<Longrightarrow>
    rt_mutex_take time (mtx w) (mworld w) = Some (r, m, s) \<Longrightarrow>
    mutex_step w \<lparr>mtx = m, mworld = s, minside = (if r = Blocked then insert c (minside w) else minside w),
      held = (if r = Taken then add_mset c (held w) else held w)\<rparr>"
| Back: "running (mworld w) c \<Longrightarrow> c \<in> minside w \<Longrightarrow>
    mutex_step w (w\<lparr>minside := minside w - {c},
      held := (if thr_error (threads (mworld w) c) = RT_EOK then add_mset c (held w) else held w)\<rparr>)"
| Release: "running (mworld w) c \<Longrightarrow> c \<notin> minside w \<Longrightarrow> rt_mutex_release (mtx w) (mworld w) = Some (b, m, s) \<Longrightarrow>
    mutex_step w (w\<lparr>mtx := m, mworld := s, held := (if b then held w - {#c#} else held w)\<rparr>)"
| Expire: "t \<in> set (mtx_waiters (mtx w)) \<Longrightarrow> waiter_timeout t (mtx_waiters (mtx w)) (mworld w) = Some (ws, s) \<Longrightarrow>
    mutex_step w (w\<lparr>mtx := (mtx w)\<lparr>mtx_waiters := ws\<rparr>, mworld := s\<rparr>)"
| Other: "sched_step (mworld w) s \<Longrightarrow> rt_current_thread s \<noteq> None \<Longrightarrow>
    \<forall>t \<in> set (mtx_waiters (mtx w)). stat (threads s t) = RT_THREAD_SUSPEND
      \<and> current_priority (threads s t) = current_priority (threads (mworld w) t) \<Longrightarrow>
    \<forall>t \<in> minside w. thr_error (threads s t) = thr_error (threads (mworld w) t) \<Longrightarrow> owner_kept (mtx w) (mworld w) s \<Longrightarrow>
    mutex_step w (w\<lparr>mworld := s\<rparr>)"

definition mgranted :: "mutex_world \<Rightarrow> nat set" where
  "mgranted w = {t \<in> minside w. t \<notin> set (mtx_waiters (mtx w)) \<and> thr_error (threads (mworld w) t) = RT_EOK}"

text \<open>The waiting threads, and the inheritance of priorities.\<close>

definition waiting_ok :: "mutex_world \<Rightarrow> bool" where
  "waiting_ok w \<longleftrightarrow> sched_alive (mworld w) \<and> distinct (mtx_waiters (mtx w)) \<and> set (mtx_waiters (mtx w)) \<subseteq> minside w
     \<and> (\<forall>t \<in> set (mtx_waiters (mtx w)). stat (threads (mworld w) t) = RT_THREAD_SUSPEND \<and> thr_error (threads (mworld w) t) = RT_EOK)"

definition inherits :: "rt_mutex \<Rightarrow> sched \<Rightarrow> bool" where
  "inherits m s \<longleftrightarrow> mtx_flag m = RT_IPC_FLAG_PRIO \<longrightarrow> sorted (map (\<lambda>t. current_priority (threads s t)) (mtx_waiters m))
     \<and> (\<forall>own t. owner_thread m = Some own \<and> t \<in> set (mtx_waiters m) \<longrightarrow> current_priority (threads s own) \<le> current_priority (threads s t))"

definition owner_ok :: "mutex_world \<Rightarrow> bool" where
  "owner_ok w \<longleftrightarrow> (case owner_thread (mtx w) of
     None \<Rightarrow> mtx_value (mtx w) = 1 \<and> mtx_hold (mtx w) = 0 \<and> mtx_waiters (mtx w) = [] \<and> held w = {#} \<and> mgranted w = {}
   | Some own \<Rightarrow> mtx_value (mtx w) = 0 \<and> own \<notin> set (mtx_waiters (mtx w)) \<and> original_priority (mtx w) < 32 \<and> 0 < mtx_hold (mtx w)
       \<and> mgranted w \<subseteq> {own} \<and> held w = replicate_mset (unat (mtx_hold (mtx w)) - (if own \<in> mgranted w then 1 else 0)) own)"

definition mutex_inv :: "mutex_world \<Rightarrow> bool" where
  "mutex_inv w \<longleftrightarrow> waiting_ok w \<and> inherits (mtx w) (mworld w) \<and> owner_ok w"

text \<open>
  Thread 8, of priority 5, takes a mutex and makes way for thread 9, of priority 3. Thread 9 waits for
  the mutex, and thread 8 goes on with priority 3.
\<close>

definition demo_taken :: rt_mutex where
  "demo_taken = (rt_mutex_init RT_IPC_FLAG_PRIO)\<lparr>mtx_value := 0, owner_thread := Some 8, original_priority := 5, mtx_hold := 1\<rparr>"

definition demo_nine :: sched where
  "demo_nine = demo_sched\<lparr>rt_current_thread := Some 9, rt_current_priority := 3, rt_thread_ready_priority_group := 32,
     rt_thread_priority_table := (replicate 32 [])[5 := [8]],
     threads := (threads demo_sched)(8 := (threads demo_sched 8)\<lparr>stat := RT_THREAD_READY\<rparr>, 9 := (threads demo_sched 9)\<lparr>stat := RT_THREAD_RUNNING\<rparr>)\<rparr>"

definition demo_eight :: sched where
  "demo_eight = demo_nine\<lparr>rt_current_thread := Some 8, rt_current_priority := 3, rt_thread_ready_priority_group := 0,
     rt_thread_priority_table := replicate 32 [],
     threads := (threads demo_nine)(9 := (threads demo_nine 9)\<lparr>stat := RT_THREAD_SUSPEND\<rparr>,
       8 := (threads demo_nine 8)\<lparr>stat := RT_THREAD_RUNNING, current_priority := 3, number_mask := 8\<rparr>)\<rparr>"

definition demo_waits :: mutex_world where
  "demo_waits = \<lparr>mtx = demo_taken\<lparr>mtx_waiters := [9]\<rparr>, mworld = demo_eight, minside = {9}, held = {#8#}\<rparr>"

section \<open>Priorities\<close>

lemma sorted_insert_waiter: "sorted (map prio (insert_waiter prio t ts)) \<longleftrightarrow> sorted (map prio ts)"
proof (induction ts)
  case (Cons u us)
  then show ?case by (auto simp: not_less)
qed simp

lemma assign_ok:
  assumes "queues_ok s" "stat (threads s t) \<noteq> RT_THREAD_READY" "p < 32"
  shows "queues_ok (s\<lparr>threads := (threads s)(t := (threads s t)\<lparr>current_priority := p, number_mask := push_bit p 1\<rparr>)\<rparr>)"
  using assms by (auto simp: queues_ok_def thread_ok_def)

lemma change_priority_keeps:
  assumes "sched_alive s" "p < 32"
  shows "\<exists>s'. change_priority t p s = Some s' \<and> sched_alive s' \<and> rt_current_thread s' = rt_current_thread s
    \<and> threads s' = (threads s)(t := (threads s t)\<lparr>current_priority := p, number_mask := push_bit p 1\<rparr>)"
proof -
  let ?f = "\<lambda>s :: sched. s\<lparr>threads := (threads s)(t := (threads s t)\<lparr>current_priority := p, number_mask := push_bit p 1\<rparr>)\<rparr>"
  have ok: "sched_ok s" using assms(1) by (simp add: sched_alive_def)
  show ?thesis
  proof (cases "stat (threads s t) = RT_THREAD_READY")
    case True
    have q: "queues_ok s" "rt_current_thread s \<noteq> Some t" using ok True by (auto simp: sched_ok_def current_ok_def)
    obtain s1 where s1: "rt_schedule_remove_thread t s = Some s1" "queues_ok (set_stat t RT_THREAD_SUSPEND s1)"
      "threads s1 = threads s" "rt_current_thread s1 = rt_current_thread s"
      using remove_spec [OF q(1), of t RT_THREAD_SUSPEND] True by auto
    let ?s2 = "set_stat t RT_THREAD_SUSPEND (?f s1)"
    have "queues_ok (?f (set_stat t RT_THREAD_SUSPEND s1))" by (rule assign_ok [OF s1(2) _ assms(2)]) simp
    moreover have "?s2 = ?f (set_stat t RT_THREAD_SUSPEND s1)" by (cases "threads s1 t") (simp add: set_stat_def)
    ultimately have q2: "queues_ok ?s2" by simp
    have c2: "rt_current_thread ?s2 \<noteq> Some t" using q(2) s1(4) by simp
    obtain s' where s': "rt_schedule_insert_thread t ?s2 = Some s'" "threads s' = (threads ?s2)(t := (threads ?s2 t)\<lparr>stat := RT_THREAD_READY\<rparr>)"
      "rt_current_thread s' = rt_current_thread ?s2"
      using insert_spec [OF q2 c2] by auto
    have cp: "change_priority t p s = Some s'"
      using s'(1) s1(1) True assms(2) c2 by (simp add: change_priority_def RT_THREAD_PRIORITY_MAX_def insert_set_stat)
    have th: "threads s' = threads (?f s)" using s'(2) s1(3) True by (auto simp: fun_eq_iff)
    moreover have "sched_ok s'" by (rule change_priority_ok [OF ok cp])
    ultimately show ?thesis using cp s'(3) s1(4) assms(1) by (simp add: sched_alive_def)
  next
    case False
    then have cp: "change_priority t p s = Some (?f s)" using assms(2) by (simp add: change_priority_def RT_THREAD_PRIORITY_MAX_def)
    moreover have "sched_ok (?f s)" by (rule change_priority_ok [OF ok cp])
    ultimately show ?thesis using assms(1) by (simp add: sched_alive_def)
  qed
qed

section \<open>The invariant\<close>

lemma inherits_mono:
  assumes "inherits m s" "\<And>t. t \<in> set (mtx_waiters m) \<Longrightarrow> current_priority (threads s' t) = current_priority (threads s t)"
    "\<And>own. owner_thread m = Some own \<Longrightarrow> current_priority (threads s' own) \<le> current_priority (threads s own)"
  shows "inherits m s'"
proof -
  have "map (\<lambda>t. current_priority (threads s' t)) (mtx_waiters m) = map (\<lambda>t. current_priority (threads s t)) (mtx_waiters m)"
    using assms(2) by simp
  then show ?thesis using assms unfolding inherits_def by (metis le_trans)
qed

lemma mutex_error_inv:
  assumes "mutex_inv w" "c \<notin> minside w"
  shows "mutex_inv (w\<lparr>mworld := set_error c e (mworld w)\<rparr>)"
proof -
  have c: "c \<notin> set (mtx_waiters (mtx w))" using assms by (auto simp: mutex_inv_def waiting_ok_def)
  have "mgranted (w\<lparr>mworld := set_error c e (mworld w)\<rparr>) = mgranted w" using assms(2) by (auto simp: mgranted_def)
  then have "owner_ok (w\<lparr>mworld := set_error c e (mworld w)\<rparr>)" using assms(1) by (simp add: mutex_inv_def owner_ok_def cong: option.case_cong)
  moreover have "inherits (mtx w) (set_error c e (mworld w))"
    by (rule inherits_mono [of "mtx w" "mworld w"]) (use assms(1) in \<open>auto simp: mutex_inv_def\<close>)
  ultimately show ?thesis using assms c by (auto simp: mutex_inv_def waiting_ok_def)
qed

lemma hold_up: "mtx_hold m < 255 \<Longrightarrow> unat (mtx_hold m + 1) = unat (mtx_hold m) + 1"
  by (simp add: word_less_nat_alt unat_word_ariths)

lemma mutex_again_inv:
  assumes "mutex_inv w" "c \<notin> minside w" "owner_thread (mtx w) = Some c" "mtx_hold (mtx w) < 255"
  shows "mutex_inv (w\<lparr>mtx := (mtx w)\<lparr>mtx_hold := mtx_hold (mtx w) + 1\<rparr>, held := add_mset c (held w)\<rparr>)" (is "mutex_inv ?w")
proof -
  have g: "mgranted ?w = mgranted w" "c \<notin> mgranted w" using assms(2) by (auto simp: mgranted_def)
  have "0 < mtx_hold (mtx w) + 1" using hold_up [OF assms(4)] by (simp add: word_less_nat_alt)
  then show ?thesis
    using assms(1,3) g hold_up [OF assms(4)] by (auto simp: mutex_inv_def waiting_ok_def inherits_def owner_ok_def)
qed

lemma mutex_first_inv:
  assumes "mutex_inv w" "c \<notin> minside w" "mtx_value (mtx w) > 0"
  shows "mutex_inv (w\<lparr>mtx := (mtx w)\<lparr>mtx_value := mtx_value (mtx w) - 1, owner_thread := Some c,
         original_priority := current_priority (threads (mworld w) c), mtx_hold := mtx_hold (mtx w) + 1\<rparr>, held := add_mset c (held w)\<rparr>)"
    (is "mutex_inv ?w")
proof -
  have o: "owner_thread (mtx w) = None" using assms(1,3) by (auto simp: mutex_inv_def owner_ok_def split: option.splits)
  have "current_priority (threads (mworld w) c) < 32"
    using assms(1) by (simp add: mutex_inv_def waiting_ok_def sched_alive_def sched_ok_def queues_ok_def thread_ok_def)
  moreover have "mgranted ?w = mgranted w" by (simp add: mgranted_def)
  ultimately show ?thesis using assms(1) o by (auto simp: mutex_inv_def waiting_ok_def inherits_def owner_ok_def)
qed

text \<open>The owner inherits the priority of the caller; then the caller waits.\<close>

lemma inherit_inv:
  assumes "mutex_inv w" "owner_thread (mtx w) = Some own" "c \<noteq> own" "mworld w = s0"
  shows "\<exists>s. (if current_priority (threads s0 c) < current_priority (threads s0 own)
       then change_priority own (current_priority (threads s0 c)) s0 else Some s0) = Some s
    \<and> mutex_inv (w\<lparr>mworld := s\<rparr>) \<and> current_priority (threads s own) \<le> current_priority (threads s c)
    \<and> rt_current_thread s = rt_current_thread s0 \<and> stat (threads s c) = stat (threads s0 c) \<and> thr_error (threads s c) = thr_error (threads s0 c)"
proof (cases "current_priority (threads (mworld w) c) < current_priority (threads (mworld w) own)")
  case True
  let ?p = "current_priority (threads (mworld w) c)"
  have al: "sched_alive (mworld w)" using assms(1) by (simp add: mutex_inv_def waiting_ok_def)
  then have "?p < 32" by (simp add: sched_alive_def sched_ok_def queues_ok_def thread_ok_def)
  from change_priority_keeps [OF al this, of own] obtain s where
    s: "change_priority own ?p (mworld w) = Some s" "sched_alive s" "rt_current_thread s = rt_current_thread (mworld w)"
      "threads s = (threads (mworld w))(own := (threads (mworld w) own)\<lparr>current_priority := ?p, number_mask := push_bit ?p 1\<rparr>)" by blast
  have own: "own \<notin> set (mtx_waiters (mtx w))" using assms(1,2) by (simp add: mutex_inv_def owner_ok_def)
  have "mgranted (w\<lparr>mworld := s\<rparr>) = mgranted w" by (auto simp: mgranted_def s(4))
  then have "owner_ok (w\<lparr>mworld := s\<rparr>)" using assms(1) by (simp add: mutex_inv_def owner_ok_def cong: option.case_cong)
  moreover have "inherits (mtx w) s"
    by (rule inherits_mono [of "mtx w" "mworld w"]) (use assms(1,2) own True in \<open>auto simp: mutex_inv_def s(4)\<close>)
  moreover have "waiting_ok (w\<lparr>mworld := s\<rparr>)" using assms(1) s(2) by (auto simp: mutex_inv_def waiting_ok_def s(4))
  ultimately have "mutex_inv (w\<lparr>mworld := s\<rparr>)" by (simp add: mutex_inv_def)
  then show ?thesis using True s assms(3,4) by (intro exI [of _ s]) simp
next
  case False
  then show ?thesis using assms(1,4) by auto
qed

lemma mutex_wait_inv:
  assumes "mutex_inv w" "running (mworld w) c" "c \<notin> minside w" "thr_error (threads (mworld w) c) = RT_EOK"
    "owner_thread (mtx w) = Some own" "c \<noteq> own" "current_priority (threads (mworld w) own) \<le> current_priority (threads (mworld w) c)"
    "wait_in (mtx_waiters (mtx w)) (mtx_flag (mtx w)) time c (mworld w) = Some (ws, s)"
  shows "mutex_inv (w\<lparr>mtx := (mtx w)\<lparr>mtx_waiters := ws\<rparr>, mworld := s, minside := insert c (minside w)\<rparr>)" (is "mutex_inv ?w")
proof -
  have r: "sched_ok (mworld w)" "rt_current_thread (mworld w) = Some c" "stat (threads (mworld w) c) = RT_THREAD_RUNNING"
    using assms(1,2) by (auto simp: mutex_inv_def waiting_ok_def sched_alive_def running_def)
  note k = wait_in_kept [OF r assms(8)]
  have kp: "current_priority (threads s t) = current_priority (threads (mworld w) t)" "thr_error (threads s t) = thr_error (threads (mworld w) t)" for t
    using k(3) by (simp_all add: keeps_def)
  have c: "c \<notin> set (mtx_waiters (mtx w))" using assms(1,3) by (auto simp: mutex_inv_def waiting_ok_def)
  have ws: "set ws = insert c (set (mtx_waiters (mtx w)))" "distinct ws" using k(1) c assms(1) by (auto simp: mutex_inv_def waiting_ok_def)
  have "mgranted ?w = mgranted w" using ws(1) assms(3) by (auto simp: mgranted_def kp)
  then have "owner_ok ?w" using assms(1,5,6) ws(1) by (simp add: mutex_inv_def owner_ok_def)
  moreover have "stat (threads s t) = RT_THREAD_SUSPEND" if "t \<in> set ws" for t
    using that ws(1) k(3,4) c assms(1) by (cases "t = c") (auto simp: keeps_def mutex_inv_def waiting_ok_def)
  then have "waiting_ok ?w" using assms(1,4) ws k(2) by (auto simp: mutex_inv_def waiting_ok_def kp)
  moreover have "inherits (mtx ?w) s"
    using assms(1,5,7) ws(1) k(1) by (auto simp: mutex_inv_def inherits_def kp enqueue_def sorted_insert_waiter)
  ultimately show ?thesis by (simp add: mutex_inv_def)
qed

lemma mutex_take_inv:
  assumes "mutex_inv w" "running (mworld w) c" "c \<notin> minside w" "mtx_hold (mtx w) < 255"
    "rt_mutex_take time (mtx w) (mworld w) = Some (r, m, s)"
  shows "mutex_inv \<lparr>mtx = m, mworld = s, minside = (if r = Blocked then insert c (minside w) else minside w),
      held = (if r = Taken then add_mset c (held w) else held w)\<rparr>"
proof -
  let ?w = "w\<lparr>mworld := set_error c RT_EOK (mworld w)\<rparr>"
  have i: "mutex_inv ?w" by (rule mutex_error_inv [OF assms(1,3)])
  have cur: "rt_current_thread (mworld w) = Some c" "stat (threads (mworld w) c) = RT_THREAD_RUNNING" using assms(2) by (simp_all add: running_def)
  consider "owner_thread (mtx w) = Some c" | "owner_thread (mtx w) \<noteq> Some c" "mtx_value (mtx w) > 0"
    | "owner_thread (mtx w) \<noteq> Some c" "mtx_value (mtx w) = 0" "time = 0"
    | own where "owner_thread (mtx w) = Some own" "own \<noteq> c" "mtx_value (mtx w) = 0" "time \<noteq> 0"
    using assms(1) by (cases "owner_thread (mtx w)") (auto simp: mutex_inv_def owner_ok_def word_gt_0)
  then show ?thesis
  proof cases
    case 1
    then show ?thesis using mutex_again_inv [OF i, of c] assms(3-5) cur by (simp add: rt_mutex_take_def) (cases w; auto)
  next
    case 2
    then show ?thesis using mutex_first_inv [OF i, of c] assms(3,5) cur by (simp add: rt_mutex_take_def) (cases w; auto)
  next
    case 3
    have "mutex_inv (w\<lparr>mworld := set_error c RT_ETIMEOUT (set_error c RT_EOK (mworld w))\<rparr>)"
      using mutex_error_inv [OF i, of c RT_ETIMEOUT] assms(3) by simp
    with 3 show ?thesis using assms(5) cur by (simp add: rt_mutex_take_def) (cases w; auto)
  next
    case 4
    let ?s = "set_error c RT_EOK (mworld w)"
    obtain s1 where s1: "(if current_priority (threads ?s c) < current_priority (threads ?s own)
        then change_priority own (current_priority (threads ?s c)) ?s else Some ?s) = Some s1"
      "mutex_inv (?w\<lparr>mworld := s1\<rparr>)" "current_priority (threads s1 own) \<le> current_priority (threads s1 c)"
      "rt_current_thread s1 = Some c" "stat (threads s1 c) = RT_THREAD_RUNNING" "thr_error (threads s1 c) = RT_EOK"
      using inherit_inv [OF i, of own c ?s] 4(1,2) cur by auto
    obtain ws where ws: "wait_in (mtx_waiters (mtx w)) (mtx_flag (mtx w)) time c s1 = Some (ws, s)" "r = Blocked" "m = (mtx w)\<lparr>mtx_waiters := ws\<rparr>"
      using assms(5) 4 unfolding rt_mutex_take_def cur(1) Let_def by (auto simp: s1(1) bind_eq_Some_conv simp del: set_error_simps)
    show ?thesis
      using mutex_wait_inv [OF s1(2), of c own time ws s] 4(1,2) assms(3) s1(3-6) ws by (simp add: running_def) (cases w; auto)
  qed
qed

lemma mutex_back_inv:
  assumes "mutex_inv w" "running (mworld w) c" "c \<in> minside w"
  shows "mutex_inv (w\<lparr>minside := minside w - {c}, held := (if thr_error (threads (mworld w) c) = RT_EOK then add_mset c (held w) else held w)\<rparr>)"
    (is "mutex_inv ?w")
proof -
  have c: "c \<notin> set (mtx_waiters (mtx w))" using assms(1,2) by (auto simp: mutex_inv_def waiting_ok_def running_def)
  have g: "mgranted ?w = mgranted w - {c}" "c \<in> mgranted w \<longleftrightarrow> thr_error (threads (mworld w) c) = RT_EOK"
    using assms(3) c by (auto simp: mgranted_def)
  have "owner_ok ?w"
  proof (cases "thr_error (threads (mworld w) c) = RT_EOK")
    case True
    then have "owner_thread (mtx w) = Some c" using assms(1) g(2) by (auto simp: mutex_inv_def owner_ok_def split: option.splits)
    moreover from this have "unat (mtx_hold (mtx w)) > 0" using assms(1) by (simp add: mutex_inv_def owner_ok_def word_less_nat_alt)
    ultimately show ?thesis using assms(1) True g by (auto simp: mutex_inv_def owner_ok_def simp flip: replicate_mset_Suc)
  next
    case False
    then have "mgranted ?w = mgranted w" using g by simp
    then show ?thesis using assms(1) False by (simp add: mutex_inv_def owner_ok_def cong: option.case_cong)
  qed
  then show ?thesis using assms(1) c by (auto simp: mutex_inv_def waiting_ok_def)
qed

lemma mutex_expire_inv:
  assumes "mutex_inv w" "t \<in> set (mtx_waiters (mtx w))"
  shows "\<exists>ws s. waiter_timeout t (mtx_waiters (mtx w)) (mworld w) = Some (ws, s) \<and> mutex_inv (w\<lparr>mtx := (mtx w)\<lparr>mtx_waiters := ws\<rparr>, mworld := s\<rparr>)"
proof -
  let ?ws = "filter (\<lambda>u. u \<noteq> t) (mtx_waiters (mtx w))"
  have w: "waiting_ok w" "inherits (mtx w) (mworld w)" "owner_ok w" using assms(1) by (simp_all add: mutex_inv_def)
  obtain s where s: "waiter_timeout t (mtx_waiters (mtx w)) (mworld w) = Some (?ws, s)" "sched_alive s" "keeps {t} (set_error t RT_ETIMEOUT (mworld w)) s"
    using timeout_wakes [of "mworld w" t "mtx_waiters (mtx w)"] w(1) assms(2) by (auto simp: waiting_ok_def)
  let ?w = "w\<lparr>mtx := (mtx w)\<lparr>mtx_waiters := ?ws\<rparr>, mworld := s\<rparr>"
  have k: "thr_error (threads s u) = (if u = t then RT_ETIMEOUT else thr_error (threads (mworld w) u))"
    "current_priority (threads s u) = current_priority (threads (mworld w) u)" for u using s(3) by (simp_all add: keeps_def)
  have "mgranted ?w = mgranted w" using assms(2) by (auto simp: mgranted_def k)
  then have "owner_ok ?w" using w(3) assms(2) by (auto simp: owner_ok_def split: option.splits)
  moreover have "stat (threads s u) = RT_THREAD_SUSPEND" if "u \<in> set ?ws" for u using that s(3) w(1) by (auto simp: keeps_def waiting_ok_def)
  then have "waiting_ok ?w" using w(1) s(2) by (auto simp: waiting_ok_def k)
  moreover have "inherits (mtx ?w) s" using w(2) by (auto simp: inherits_def k sorted_filter)
  ultimately show ?thesis using s(1) by (auto simp: mutex_inv_def)
qed

lemma mutex_other_inv:
  assumes "mutex_inv w" "sched_step (mworld w) s" "rt_current_thread s \<noteq> None"
    "\<forall>t \<in> set (mtx_waiters (mtx w)). stat (threads s t) = RT_THREAD_SUSPEND
      \<and> current_priority (threads s t) = current_priority (threads (mworld w) t)"
    "\<forall>t \<in> minside w. thr_error (threads s t) = thr_error (threads (mworld w) t)" "owner_kept (mtx w) (mworld w) s"
  shows "mutex_inv (w\<lparr>mworld := s\<rparr>)"
proof -
  have w: "waiting_ok w" "inherits (mtx w) (mworld w)" "owner_ok w" using assms(1) by (simp_all add: mutex_inv_def)
  have "sched_alive s" using sched_step_ok [OF assms(2)] w(1) assms(3) by (simp add: waiting_ok_def sched_alive_def)
  then have "waiting_ok (w\<lparr>mworld := s\<rparr>)" using w(1) assms(4,5) by (auto simp: waiting_ok_def)
  moreover have "mgranted (w\<lparr>mworld := s\<rparr>) = mgranted w" using assms(5) by (auto simp: mgranted_def)
  then have "owner_ok (w\<lparr>mworld := s\<rparr>)" using w(3) by (simp add: owner_ok_def cong: option.case_cong)
  moreover have "inherits (mtx w) s" by (rule inherits_mono [OF w(2)]) (use assms(4,6) in \<open>auto simp: owner_kept_def\<close>)
  ultimately show ?thesis by (simp add: mutex_inv_def)
qed

subsection \<open>Releasing\<close>

lemma restore_priority:
  assumes "mutex_inv w" "owner_thread (mtx w) = Some c"
  shows "\<exists>s. (if original_priority (mtx w) \<noteq> current_priority (threads (mworld w) c)
       then change_priority c (original_priority (mtx w)) (mworld w) else Some (mworld w)) = Some s
    \<and> sched_alive s \<and> rt_current_thread s = rt_current_thread (mworld w) \<and> current_priority (threads s c) = original_priority (mtx w)
    \<and> (\<forall>t. stat (threads s t) = stat (threads (mworld w) t) \<and> thr_error (threads s t) = thr_error (threads (mworld w) t)
         \<and> (t \<noteq> c \<longrightarrow> threads s t = threads (mworld w) t))"
proof -
  have "original_priority (mtx w) < 32" and al: "sched_alive (mworld w)"
    using assms by (simp_all add: mutex_inv_def owner_ok_def waiting_ok_def)
  from change_priority_keeps [OF al this(1), of c] show ?thesis using al by fastforce
qed

lemma owner_held:
  assumes "mutex_inv w" "owner_thread (mtx w) = Some c" "c \<notin> minside w"
  shows "mgranted w = {}" "held w = replicate_mset (unat (mtx_hold (mtx w))) c" "c \<notin> set (mtx_waiters (mtx w))" "0 < unat (mtx_hold (mtx w))"
  using assms by (auto simp: mutex_inv_def owner_ok_def mgranted_def waiting_ok_def word_less_nat_alt)

lemma mutex_handover:
  assumes "mutex_inv w" "running (mworld w) c" "c \<notin> minside w" "owner_thread (mtx w) = Some c" "mtx_hold (mtx w) = 1" "mtx_waiters (mtx w) = t # ts"
  shows "\<exists>m s. rt_mutex_release (mtx w) (mworld w) = Some (True, m, s) \<and> mutex_inv (w\<lparr>mtx := m, mworld := s, held := held w - {#c#}\<rparr>)
    \<and> owner_thread m = Some t \<and> mtx_hold m = 1 \<and> mtx_waiters m = ts \<and> mtx_flag m = mtx_flag (mtx w)
    \<and> current_priority (threads s c) = original_priority (mtx w)
    \<and> (\<forall>u. u \<noteq> c \<longrightarrow> current_priority (threads s u) = current_priority (threads (mworld w) u))"
proof -
  obtain s1 where s1: "(if original_priority (mtx w) \<noteq> current_priority (threads (mworld w) c)
       then change_priority c (original_priority (mtx w)) (mworld w) else Some (mworld w)) = Some s1"
    "sched_alive s1" "current_priority (threads s1 c) = original_priority (mtx w)" "\<And>u. stat (threads s1 u) = stat (threads (mworld w) u)"
    "\<And>u. thr_error (threads s1 u) = thr_error (threads (mworld w) u)" "\<And>u. u \<noteq> c \<Longrightarrow> threads s1 u = threads (mworld w) u"
    using restore_priority [OF assms(1,4)] by blast
  note h = owner_held [OF assms(1,4,3)]
  have w: "waiting_ok w" "inherits (mtx w) (mworld w)" using assms(1) by (simp_all add: mutex_inv_def)
  have t: "stat (threads s1 t) = RT_THREAD_SUSPEND" "t \<noteq> c" "t \<notin> set ts" "t \<in> minside w" "thr_error (threads (mworld w) t) = RT_EOK"
    using w(1) h(3) assms(6) by (auto simp: waiting_ok_def s1(4))
  obtain s2 s where s: "ipc_list_resume (t # ts) s1 = Some (ts, s2)" "rt_schedule s2 = Some s" "sched_alive s" "keeps {t} s1 s"
    using wake_first [OF s1(2) t(1)] by blast
  have k: "current_priority (threads s u) = current_priority (threads s1 u)" "thr_error (threads s u) = thr_error (threads (mworld w) u)" for u
    using s(4) by (simp_all add: keeps_def s1(5))
  let ?m = "(mtx w)\<lparr>mtx_hold := 1, owner_thread := Some t, original_priority := current_priority (threads s1 t), mtx_waiters := ts\<rparr>"
  let ?w = "w\<lparr>mtx := ?m, mworld := s, held := held w - {#c#}\<rparr>"
  have rel: "rt_mutex_release (mtx w) (mworld w) = Some (True, ?m, s)"
    using assms(2,4-6) s1(1) s(1,2) by (auto simp: rt_mutex_release_def running_def split: if_splits)
  have "mgranted ?w = {t}" using h(1) t assms(6) by (auto simp: mgranted_def k)
  moreover have "current_priority (threads s1 t) < 32" using s1(2) by (simp add: sched_alive_def sched_ok_def queues_ok_def thread_ok_def)
  ultimately have "owner_ok ?w" using assms(1,4,5) h(2) t(3) by (simp add: owner_ok_def mutex_inv_def)
  moreover have "stat (threads s u) = RT_THREAD_SUSPEND" if "u \<in> set ts" for u
    using that s(4) w(1) assms(6) t(3) by (auto simp: keeps_def waiting_ok_def s1(4))
  then have "waiting_ok ?w" using w(1) s(3) assms(6) by (auto simp: waiting_ok_def k)
  moreover have p: "current_priority (threads s u) = current_priority (threads (mworld w) u)" if "u \<noteq> c" for u using that by (simp add: k s1(6))
  then have "\<forall>u \<in> set (t # ts). current_priority (threads s u) = current_priority (threads (mworld w) u)" using h(3) assms(6) by fastforce
  then have "inherits ?m s" using w(2) assms(6) by (auto simp: inherits_def cong: map_cong)
  ultimately have "mutex_inv ?w" by (simp add: mutex_inv_def)
  then show ?thesis using rel p k(1) s1(3) by (intro exI [of _ ?m] exI [of _ s]) simp
qed

lemma mutex_release_inv:
  assumes "mutex_inv w" "running (mworld w) c" "c \<notin> minside w"
  shows "\<exists>b m s. rt_mutex_release (mtx w) (mworld w) = Some (b, m, s) \<and> (b \<longleftrightarrow> owner_thread (mtx w) = Some c)
    \<and> mutex_inv (w\<lparr>mtx := m, mworld := s, held := (if b then held w - {#c#} else held w)\<rparr>)"
proof -
  have cur: "rt_current_thread (mworld w) = Some c" using assms(2) by (simp add: running_def)
  consider "owner_thread (mtx w) \<noteq> Some c" | "owner_thread (mtx w) = Some c" "mtx_hold (mtx w) \<noteq> 1"
    | "owner_thread (mtx w) = Some c" "mtx_hold (mtx w) = 1" "mtx_waiters (mtx w) = []"
    | t ts where "owner_thread (mtx w) = Some c" "mtx_hold (mtx w) = 1" "mtx_waiters (mtx w) = t # ts"
    by (cases "mtx_waiters (mtx w)") auto
  then show ?thesis
  proof cases
    case 1
    then show ?thesis
      using mutex_error_inv [OF assms(1,3), of RT_ERROR] cur by (intro exI [of _ False]) (simp add: rt_mutex_release_def)
  next
    case 2
    note h = owner_held [OF assms(1) 2(1) assms(3)]
    let ?m = "(mtx w)\<lparr>mtx_hold := mtx_hold (mtx w) - 1\<rparr>"
    have u: "unat (mtx_hold (mtx w) - 1) = unat (mtx_hold (mtx w)) - 1" using h(4) by (metis less_irrefl unat_0 unat_minus_one)
    have n: "mtx_hold (mtx w) - 1 \<noteq> 0" using 2(2) by (metis diff_eq_eq add_0)
    then have "0 < mtx_hold (mtx w) - 1" by (simp add: word_gt_0)
    moreover have "mgranted (w\<lparr>mtx := ?m, held := held w - {#c#}\<rparr>) = {}" using h(1) by (simp add: mgranted_def)
    moreover have "held w - {#c#} = replicate_mset (unat (mtx_hold (mtx w)) - 1) c" using h(2,4)
      by (metis Suc_pred' add_mset_remove_trivial replicate_mset_Suc)
    ultimately have "mutex_inv (w\<lparr>mtx := ?m, held := held w - {#c#}\<rparr>)"
      using assms(1) 2(1) u h(1) by (auto simp: mutex_inv_def owner_ok_def waiting_ok_def inherits_def)
    moreover have "rt_mutex_release (mtx w) (mworld w) = Some (True, ?m, mworld w)" using 2(1) n cur by (simp add: rt_mutex_release_def)
    ultimately show ?thesis using 2(1) by (intro exI [of _ True] exI [of _ ?m] exI [of _ "mworld w"]) simp
  next
    case 3
    note h = owner_held [OF assms(1) 3(1) assms(3)]
    obtain s1 where s1: "(if original_priority (mtx w) \<noteq> current_priority (threads (mworld w) c)
         then change_priority c (original_priority (mtx w)) (mworld w) else Some (mworld w)) = Some s1"
      "sched_alive s1" "\<And>u. thr_error (threads s1 u) = thr_error (threads (mworld w) u)"
      using restore_priority [OF assms(1) 3(1)] by blast
    let ?m = "(mtx w)\<lparr>mtx_hold := 0, mtx_value := mtx_value (mtx w) + 1, owner_thread := None, original_priority := 0xFF\<rparr>"
    have "mgranted (w\<lparr>mtx := ?m, mworld := s1, held := held w - {#c#}\<rparr>) = {}" using h(1) by (simp add: mgranted_def s1(3))
    then have "mutex_inv (w\<lparr>mtx := ?m, mworld := s1, held := held w - {#c#}\<rparr>)"
      using assms(1) 3 h(2) s1(2) by (auto simp: mutex_inv_def owner_ok_def waiting_ok_def inherits_def)
    moreover have "rt_mutex_release (mtx w) (mworld w) = Some (True, ?m, s1)" using 3 cur s1(1) by (auto simp: rt_mutex_release_def split: if_splits)
    ultimately show ?thesis using 3(1) by (intro exI [of _ True] exI [of _ ?m] exI [of _ s1]) simp
  next
    case 4
    from mutex_handover [OF assms 4] obtain m s where
      "rt_mutex_release (mtx w) (mworld w) = Some (True, m, s)" "mutex_inv (w\<lparr>mtx := m, mworld := s, held := held w - {#c#}\<rparr>)" by blast
    then show ?thesis using 4(1) by (intro exI [of _ True] exI [of _ m] exI [of _ s]) simp
  qed
qed

lemma mutex_step_inv: "mutex_step w w' \<Longrightarrow> mutex_inv w \<Longrightarrow> mutex_inv w'"
proof (induction rule: mutex_step.induct)
  case (Take w c time r m s)
  then show ?case by (intro mutex_take_inv)
next
  case (Back w c)
  then show ?case by (intro mutex_back_inv)
next
  case (Release w c b m s)
  then show ?case using mutex_release_inv [of w c] by auto
next
  case (Expire t w ws s)
  then show ?case using mutex_expire_inv [of w t] by auto
next
  case (Other w s)
  then show ?case by (intro mutex_other_inv)
qed

lemma mutex_init_inv: "sched_alive s \<Longrightarrow> mutex_inv \<lparr>mtx = rt_mutex_init flag, mworld = s, minside = {}, held = {#}\<rparr>"
  by (simp add: rt_mutex_init_def mutex_inv_def waiting_ok_def inherits_def owner_ok_def mgranted_def)

lemma mutex_run_inv:
  assumes "sched_alive s" "mutex_step\<^sup>*\<^sup>* \<lparr>mtx = rt_mutex_init flag, mworld = s, minside = {}, held = {#}\<rparr> w"
  shows "mutex_inv w"
  using assms(2) by (induction rule: rtranclp_induct) (auto intro: mutex_init_inv [OF assms(1)] mutex_step_inv)

lemma mutex_take_keeps_flag: "rt_mutex_take time m s = Some (r, m', s') \<Longrightarrow> mtx_flag m' = mtx_flag m"
  by (auto simp: rt_mutex_take_def Let_def bind_eq_Some_conv split: if_splits)

lemma mutex_release_keeps_flag: "rt_mutex_release m s = Some (b, m', s') \<Longrightarrow> mtx_flag m' = mtx_flag m"
  by (cases "mtx_waiters m") (auto simp: rt_mutex_release_def Let_def bind_eq_Some_conv split: if_splits)

lemma mutex_run_flag:
  assumes "mutex_step\<^sup>*\<^sup>* w w'"
  shows "mtx_flag (mtx w') = mtx_flag (mtx w)"
  using assms
proof (induction rule: rtranclp_induct)
  case (step u v)
  from step(2,3) show ?case by (cases rule: mutex_step.cases) (auto dest: mutex_take_keeps_flag mutex_release_keeps_flag)
qed simp

lemma mutex_take_returns:
  assumes "mutex_inv w" "running (mworld w) c" "c \<notin> minside w" "time > 0 \<longrightarrow> (of_int time :: u32) < RT_TICK_MAX div 2"
  shows "\<exists>r. rt_mutex_take time (mtx w) (mworld w) = Some r"
proof (cases "owner_thread (mtx w) = Some c \<or> mtx_value (mtx w) > 0 \<or> time = 0")
  case True
  then show ?thesis using assms(2) by (auto simp: rt_mutex_take_def running_def Let_def)
next
  case False
  then obtain own where own: "owner_thread (mtx w) = Some own" "own \<noteq> c" "mtx_value (mtx w) = 0"
    using assms(1) by (auto simp: mutex_inv_def owner_ok_def word_gt_0 split: option.splits)
  have cur: "rt_current_thread (mworld w) = Some c" "stat (threads (mworld w) c) = RT_THREAD_RUNNING" using assms(2) by (simp_all add: running_def)
  let ?s = "set_error c RT_EOK (mworld w)"
  obtain s1 where s1: "(if current_priority (threads ?s c) < current_priority (threads ?s own)
      then change_priority own (current_priority (threads ?s c)) ?s else Some ?s) = Some s1"
    "mutex_inv (w\<lparr>mworld := s1\<rparr>)" "rt_current_thread s1 = Some c" "stat (threads s1 c) = RT_THREAD_RUNNING"
    using inherit_inv [OF mutex_error_inv [OF assms(1,3), of RT_EOK], of own c ?s] own(1,2) cur by auto
  have "sched_ok s1" using s1(2) by (simp add: mutex_inv_def waiting_ok_def sched_alive_def)
  from wait_in_returns [OF this s1(3,4) assms(4)] obtain r where
    "wait_in (mtx_waiters (mtx w)) (mtx_flag (mtx w)) time c s1 = Some r" by blast
  then show ?thesis
    unfolding rt_mutex_take_def cur(1) Let_def using False own by (cases r) (simp add: s1(1) del: set_error_simps)
qed

section \<open>The example\<close>

lemma demo_ffs: "rt_ffs 8 = 4" "rt_ffs 32 = 6"
  by (simp_all add: rt_ffs_def upt_rec)

lemma replicate_update_same: "(replicate n x)[i := x] = replicate n x"
  by (cases "i < n") (auto simp: list_eq_iff_nth_eq nth_list_update)

lemmas demo_schedule = demo_sched_def power_on_def rt_system_scheduler_init_def rt_schedule_def get_highest_priority_thread_def demo_ffs
  switch_to_def rt_schedule_insert_thread_def rt_schedule_remove_thread_def set_stat_def RT_THREAD_PRIORITY_MAX_def map_update replicate_update_same

lemma demo_switch: "rt_schedule demo_sched = Some demo_nine"
  by (simp add: demo_nine_def demo_schedule)

lemma demo_take: "rt_mutex_take (-1) (rt_mutex_init RT_IPC_FLAG_PRIO) demo_sched = Some (Taken, demo_taken, demo_sched)"
  by (simp add: rt_mutex_take_def rt_mutex_init_def demo_taken_def set_error_def demo_sched_def power_on_def rt_system_scheduler_init_def
      fun_upd_twist)

lemma demo_wait: "rt_mutex_take (-1) demo_taken demo_nine = Some (Blocked, demo_taken\<lparr>mtx_waiters := [9]\<rparr>, demo_eight)"
  by (simp add: demo_nine_def demo_eight_def demo_taken_def rt_mutex_take_def rt_mutex_init_def set_error_def change_priority_def wait_in_def
      ipc_list_suspend_def rt_thread_suspend_def rt_timer_stop_def start_waiting_def enqueue_def demo_schedule)

lemma demo_alive: "sched_alive demo_sched"
  using demo_sched_ok by (simp add: sched_alive_def) (simp add: demo_sched_def)

lemma demo_mutex_run: "mutex_step\<^sup>*\<^sup>* \<lparr>mtx = rt_mutex_init RT_IPC_FLAG_PRIO, mworld = demo_sched, minside = {}, held = {#}\<rparr> demo_waits"
proof -
  let ?w0 = "\<lparr>mtx = rt_mutex_init RT_IPC_FLAG_PRIO, mworld = demo_sched, minside = {}, held = {#}\<rparr>"
  let ?w1 = "\<lparr>mtx = demo_taken, mworld = demo_sched, minside = {}, held = {#8#}\<rparr>"
  let ?w2 = "\<lparr>mtx = demo_taken, mworld = demo_nine, minside = {}, held = {#8#}\<rparr>"
  have "running demo_sched 8" by (simp add: running_def demo_sched_def)
  then have "mutex_step ?w0 ?w1"
    using mutex_step.Take [of ?w0 8 "-1" Taken demo_taken demo_sched] demo_take by (simp add: rt_mutex_init_def)
  moreover have "mutex_step ?w1 ?w2"
    using mutex_step.Other [of ?w1 demo_nine] sched_step.Schedule [OF demo_switch]
    by (simp add: demo_taken_def rt_mutex_init_def owner_kept_def demo_nine_def)
  moreover have "running demo_nine 9" by (simp add: running_def demo_nine_def)
  then have "mutex_step ?w2 demo_waits"
    using mutex_step.Take [of ?w2 9 "-1" Blocked "demo_taken\<lparr>mtx_waiters := [9]\<rparr>" demo_eight] demo_wait
    by (simp add: demo_waits_def demo_taken_def)
  ultimately show ?thesis by (meson converse_rtranclp_into_rtranclp rtranclp.rtrancl_refl)
qed

section \<open>Where inheritance ends\<close>

text \<open>A mutex with \<open>RT_IPC_FLAG_FIFO\<close>, as the file system has it, is passed to a thread that does not inherit anything.\<close>

lemma fifo_handover_without_inheritance:
  assumes "mutex_inv w" "running (mworld w) c" "c \<notin> minside w" "owner_thread (mtx w) = Some c" "mtx_hold (mtx w) = 1" "mtx_waiters (mtx w) = t # ts"
    and "u \<in> set ts" "current_priority (threads (mworld w) u) < current_priority (threads (mworld w) t)"
  shows "\<exists>m s. rt_mutex_release (mtx w) (mworld w) = Some (True, m, s) \<and> owner_thread m = Some t \<and> u \<in> set (mtx_waiters m)
    \<and> current_priority (threads s u) < current_priority (threads s t)"
proof -
  have "c \<notin> set (t # ts)" using owner_held(3) [OF assms(1,4,3)] assms(6) by simp
  then have "u \<noteq> c" "t \<noteq> c" using assms(7) by auto
  then show ?thesis using mutex_handover [OF assms(1-6)] assms(7,8) by fastforce
qed

text \<open>
  A thread that owns two mutexes loses the priority it has inherited for one when it releases the other.
\<close>

lemma second_release_ends_inheritance:
  assumes "mutex_inv w" "running (mworld w) c" "c \<notin> minside w" "owner_thread (mtx w) = Some c" "mtx_hold (mtx w) = 1" "mtx_waiters (mtx w) = []"
    and "owner_thread other = Some c" "mtx_flag other = RT_IPC_FLAG_PRIO" "t \<in> set (mtx_waiters other)" "t \<noteq> c"
    "current_priority (threads (mworld w) t) < original_priority (mtx w)"
  shows "\<exists>m s. rt_mutex_release (mtx w) (mworld w) = Some (True, m, s) \<and> \<not> inherits other s"
proof -
  obtain s where s: "(if original_priority (mtx w) \<noteq> current_priority (threads (mworld w) c)
       then change_priority c (original_priority (mtx w)) (mworld w) else Some (mworld w)) = Some s"
    "current_priority (threads s c) = original_priority (mtx w)" "threads s t = threads (mworld w) t"
    using restore_priority [OF assms(1,4)] assms(10) by blast
  then have "current_priority (threads s t) < current_priority (threads s c)" using assms(11) by simp
  then have "\<not> inherits other s" using assms(7-9) unfolding inherits_def by (metis leD)
  moreover have "\<exists>m. rt_mutex_release (mtx w) (mworld w) = Some (True, m, s)"
    using assms(2,4-6) s(1) by (auto simp: rt_mutex_release_def running_def split: if_splits)
  ultimately show ?thesis by blast
qed

section \<open>Properties\<close>





end
