(* ===== verification/KHeap.thy ===== *)
theory KHeap
  imports Prelude
begin

text \<open>
  src/mem.c: the kernel heap, on which \<open>rt_malloc\<close>, \<open>rt_realloc\<close>, \<open>rt_calloc\<close> and \<open>rt_free\<close> work. The heap is
  a byte memory with the headers of the blocks inside it; all pointers into it are offsets from
  \<open>heap_ptr\<close>, and the addresses callers see are \<open>heap_ptr\<close> plus an offset, with 0 for \<open>RT_NULL\<close>. Sizes
  are natural numbers with the wrap of the 32-bit \<open>rt_size_t\<close> written out. The semaphore of the heap
  makes every call a critical section, so a call is one function; hooks are left out. A loop over a
  broken chain of blocks need not end, which is \<open>None\<close>.
\<close>

section \<open>Definitions\<close>

subsection \<open>Memory\<close>

type_synonym memory = "nat \<Rightarrow> u8"

definition get16 :: "memory \<Rightarrow> nat \<Rightarrow> u16" where
  "get16 m a = mk16 (m (a + 1)) (m a)"

definition put16 :: "nat \<Rightarrow> u16 \<Rightarrow> memory \<Rightarrow> memory" where
  "put16 a v m = m(a := lo8 v, a + 1 := hi8 v)"

definition get32 :: "memory \<Rightarrow> nat \<Rightarrow> nat" where
  "get32 m a = unat (mk32 (get16 m a) (get16 m (a + 2)))"

definition put32 :: "nat \<Rightarrow> nat \<Rightarrow> memory \<Rightarrow> memory" where
  "put32 a v m = put16 (a + 2) (hi16 (of_nat v)) (put16 a (lo16 (of_nat v)) m)"

text \<open>
  \<open>rt_memset\<close> and \<open>rt_memcpy\<close> of src/kservice.c: four words at a time, then words, then bytes, or bytes
  alone when an address is not aligned or there is little to do. The memory begins at an aligned address.
\<close>

fun set_quads :: "nat \<Rightarrow> nat \<Rightarrow> nat \<Rightarrow> memory \<Rightarrow> nat \<times> nat \<times> memory" where
  "set_quads v a n m =
     (if 16 \<le> n then set_quads v (a + 16) (n - 16) (put32 (a + 12) v (put32 (a + 8) v (put32 (a + 4) v (put32 a v m)))) else (a, n, m))"

fun set_words :: "nat \<Rightarrow> nat \<Rightarrow> nat \<Rightarrow> memory \<Rightarrow> nat \<times> nat \<times> memory" where
  "set_words v a n m = (if 4 \<le> n then set_words v (a + 4) (n - 4) (put32 a v m) else (a, n, m))"

primrec set_bytes :: "u8 \<Rightarrow> nat \<Rightarrow> nat \<Rightarrow> memory \<Rightarrow> memory" where
  "set_bytes c a 0 m = m"
| "set_bytes c a (Suc n) m = set_bytes c (a + 1) n (m(a := c))"

definition rt_memset :: "nat \<Rightarrow> u32 \<Rightarrow> nat \<Rightarrow> memory \<Rightarrow> memory" where
  "rt_memset s c count m =
     (let d = c AND 0xFF in
      if \<not> count < 4 \<and> s mod 4 = 0 then
        let buffer = push_bit 8 d OR d;
            buffer = buffer OR push_bit 16 buffer;
            (a, n, m) = set_quads (unat buffer) s count m;
            (a, n, m) = set_words (unat buffer) a n m
        in set_bytes (ucast d) a n m
      else set_bytes (ucast d) s count m)"

fun copy_quads :: "nat \<Rightarrow> nat \<Rightarrow> nat \<Rightarrow> memory \<Rightarrow> nat \<times> nat \<times> nat \<times> memory" where
  "copy_quads d s n m =
     (if 16 \<le> n then
        let m = put32 d (get32 m s) m; m = put32 (d + 4) (get32 m (s + 4)) m;
            m = put32 (d + 8) (get32 m (s + 8)) m; m = put32 (d + 12) (get32 m (s + 12)) m
        in copy_quads (d + 16) (s + 16) (n - 16) m
      else (d, s, n, m))"

fun copy_words :: "nat \<Rightarrow> nat \<Rightarrow> nat \<Rightarrow> memory \<Rightarrow> nat \<times> nat \<times> nat \<times> memory" where
  "copy_words d s n m = (if 4 \<le> n then copy_words (d + 4) (s + 4) (n - 4) (put32 d (get32 m s) m) else (d, s, n, m))"

primrec copy_each :: "nat \<Rightarrow> nat \<Rightarrow> nat \<Rightarrow> memory \<Rightarrow> memory" where
  "copy_each d s 0 m = m"
| "copy_each d s (Suc n) m = copy_each (d + 1) (s + 1) n (m(d := m s))"

definition rt_memcpy :: "nat \<Rightarrow> nat \<Rightarrow> nat \<Rightarrow> memory \<Rightarrow> memory" where
  "rt_memcpy dst src count m =
     (if \<not> count < 16 \<and> src mod 4 = 0 \<and> dst mod 4 = 0 then
        let (d, s, n, m) = copy_quads dst src count m;
            (d, s, n, m) = copy_words d s n m
        in copy_each d s n m
      else copy_each dst src count m)"

text \<open>Arithmetic of \<open>rt_size_t\<close>.\<close>

definition add32 :: "nat \<Rightarrow> nat \<Rightarrow> nat" where
  "add32 a b = (a + b) mod 2 ^ 32"

definition sub32 :: "nat \<Rightarrow> nat \<Rightarrow> nat" where
  "sub32 a b = (if b \<le> a then a - b else a + 2 ^ 32 - b)"

definition RT_ALIGN :: "u32 \<Rightarrow> u32" where
  "RT_ALIGN sz = (sz + 4 - 1) AND NOT (4 - 1)"

definition RT_ALIGN_DOWN :: "u32 \<Rightarrow> u32" where
  "RT_ALIGN_DOWN sz = sz AND NOT (4 - 1)"

subsection \<open>Headers\<close>

definition HEAP_MAGIC :: u16 where "HEAP_MAGIC = 0x1ea0"
definition SIZEOF_STRUCT_MEM :: nat where "SIZEOF_STRUCT_MEM = 12"
definition MIN_SIZE :: nat where "MIN_SIZE = 12"
definition MIN_SIZE_ALIGNED :: nat where "MIN_SIZE_ALIGNED = 12"

text \<open>The fields of the \<open>struct heap_mem\<close> at an offset.\<close>

definition magic :: "memory \<Rightarrow> nat \<Rightarrow> u16" where "magic m p = get16 m p"
definition used :: "memory \<Rightarrow> nat \<Rightarrow> u16" where "used m p = get16 m (p + 2)"
definition next_off :: "memory \<Rightarrow> nat \<Rightarrow> nat" where "next_off m p = get32 m (p + 4)"
definition prev_off :: "memory \<Rightarrow> nat \<Rightarrow> nat" where "prev_off m p = get32 m (p + 8)"
definition set_magic :: "nat \<Rightarrow> u16 \<Rightarrow> memory \<Rightarrow> memory" where "set_magic p = put16 p"
definition set_used :: "nat \<Rightarrow> u16 \<Rightarrow> memory \<Rightarrow> memory" where "set_used p = put16 (p + 2)"
definition set_next :: "nat \<Rightarrow> nat \<Rightarrow> memory \<Rightarrow> memory" where "set_next p = put32 (p + 4)"
definition set_prev :: "nat \<Rightarrow> nat \<Rightarrow> memory \<Rightarrow> memory" where "set_prev p = put32 (p + 8)"

record heap =
  mem :: memory
  heap_ptr :: nat
  heap_end :: nat
  lfree :: nat
  mem_size_aligned :: nat
  used_mem :: nat
  max_mem :: nat

subsection \<open>Operations\<close>

definition plug_forward :: "nat \<Rightarrow> heap \<Rightarrow> heap" where
  "plug_forward p s = (let nmem = next_off (mem s) p in
     if p \<noteq> nmem \<and> used (mem s) nmem = 0 \<and> nmem \<noteq> heap_end s then
       let s = (if lfree s = nmem then s\<lparr>lfree := p\<rparr> else s);
           s = s\<lparr>mem := set_next p (next_off (mem s) nmem) (mem s)\<rparr>
       in s\<lparr>mem := set_prev (next_off (mem s) nmem) p (mem s)\<rparr>
     else s)"

definition plug_backward :: "nat \<Rightarrow> heap \<Rightarrow> heap" where
  "plug_backward p s = (let pmem = prev_off (mem s) p in
     if pmem \<noteq> p \<and> used (mem s) pmem = 0 then
       let s = (if lfree s = p then s\<lparr>lfree := pmem\<rparr> else s);
           s = s\<lparr>mem := set_next pmem (next_off (mem s) p) (mem s)\<rparr>
       in s\<lparr>mem := set_prev (next_off (mem s) p) pmem (mem s)\<rparr>
     else s)"

definition plug_holes :: "nat \<Rightarrow> heap \<Rightarrow> heap option" where
  "plug_holes p s = do {
     c_assert (p < heap_end s);
     c_assert (used (mem s) p = 0);
     Some (plug_backward p (plug_forward p s))
   }"

text \<open>\<open>mem\<close> is the memory from the aligned begin of the heap on.\<close>

definition rt_system_heap_init :: "u32 \<Rightarrow> u32 \<Rightarrow> heap \<Rightarrow> heap" where
  "rt_system_heap_init begin_addr end_addr s =
     (let begin_align = unat (RT_ALIGN begin_addr); end_align = unat (RT_ALIGN_DOWN end_addr) in
      if end_align > 2 * SIZEOF_STRUCT_MEM \<and> end_align - 2 * SIZEOF_STRUCT_MEM \<ge> begin_align then
        let sz = end_align - begin_align - 2 * SIZEOF_STRUCT_MEM;
            e = sz + SIZEOF_STRUCT_MEM;
            m = set_used 0 0 (set_prev 0 0 (set_next 0 e (set_magic 0 HEAP_MAGIC (mem s))));
            m = set_prev e e (set_next e e (set_used e 1 (set_magic e HEAP_MAGIC m)))
        in s\<lparr>mem := m, heap_ptr := begin_align, heap_end := e, lfree := 0, mem_size_aligned := sz\<rparr>
      else s)"

text \<open>The search of \<open>rt_malloc\<close>: the first free block with room.\<close>

partial_function (option) find_fit :: "heap \<Rightarrow> nat \<Rightarrow> nat \<Rightarrow> nat option option" where
  "find_fit s sz ptr =
     (if ptr < sub32 (mem_size_aligned s) sz then
        if used (mem s) ptr = 0 \<and> sub32 (next_off (mem s) ptr) (add32 ptr SIZEOF_STRUCT_MEM) \<ge> sz then Some (Some ptr)
        else find_fit s sz (next_off (mem s) ptr)
      else Some None)"

text \<open>The new header behind the first \<open>sz\<close> bytes of the block \<open>ptr\<close>.\<close>

definition split_block :: "nat \<Rightarrow> nat \<Rightarrow> heap \<Rightarrow> heap" where
  "split_block ptr sz s =
     (let ptr2 = add32 (add32 ptr SIZEOF_STRUCT_MEM) sz;
          m = set_prev ptr2 ptr (set_next ptr2 (next_off (mem s) ptr) (set_used ptr2 0 (set_magic ptr2 HEAP_MAGIC (mem s))));
          m = set_next ptr ptr2 m;
          m = (if next_off m ptr2 \<noteq> add32 (mem_size_aligned s) SIZEOF_STRUCT_MEM then set_prev (next_off m ptr2) ptr2 m else m)
      in s\<lparr>mem := m\<rparr>)"

definition count_used :: "nat \<Rightarrow> heap \<Rightarrow> heap" where
  "count_used n s = (let u = add32 (used_mem s) n in s\<lparr>used_mem := u, max_mem := (if max_mem s < u then u else max_mem s)\<rparr>)"

definition take_block :: "nat \<Rightarrow> nat \<Rightarrow> heap \<Rightarrow> heap" where
  "take_block ptr sz s =
     (let s = (if sub32 (next_off (mem s) ptr) (add32 ptr SIZEOF_STRUCT_MEM) \<ge> add32 (add32 sz SIZEOF_STRUCT_MEM) MIN_SIZE_ALIGNED
               then let s = split_block ptr sz s;
                        s = s\<lparr>mem := set_used ptr 1 (mem s)\<rparr>
                    in count_used (add32 sz SIZEOF_STRUCT_MEM) s
               else let s = s\<lparr>mem := set_used ptr 1 (mem s)\<rparr>
                    in count_used (sub32 (next_off (mem s) ptr) ptr) s)
      in s\<lparr>mem := set_magic ptr HEAP_MAGIC (mem s)\<rparr>)"

partial_function (option) next_free :: "heap \<Rightarrow> nat \<Rightarrow> nat option" where
  "next_free s p = (if used (mem s) p \<noteq> 0 \<and> p \<noteq> heap_end s then next_free s (next_off (mem s) p) else Some p)"

definition RT_NULL :: nat where "RT_NULL = 0"

definition rt_malloc :: "u32 \<Rightarrow> heap \<Rightarrow> (nat \<times> heap) option" where
  "rt_malloc sz s =
     (if sz = 0 then Some (RT_NULL, s)
      else if unat (RT_ALIGN sz) > mem_size_aligned s then Some (RT_NULL, s)
      else do {
        let sz = (if unat (RT_ALIGN sz) < MIN_SIZE_ALIGNED then MIN_SIZE_ALIGNED else unat (RT_ALIGN sz));
        found \<leftarrow> find_fit s sz (lfree s);
        (case found of
           None \<Rightarrow> Some (RT_NULL, s)
         | Some ptr \<Rightarrow> do {
             let s = take_block ptr sz s;
             s \<leftarrow> (if ptr = lfree s then do {
                  lf \<leftarrow> next_free s (lfree s);
                  c_assert (lf = heap_end s \<or> used (mem s) lf = 0);
                  Some (s\<lparr>lfree := lf\<rparr>)
                } else Some s);
             c_assert (heap_ptr s + ptr + SIZEOF_STRUCT_MEM + sz \<le> heap_ptr s + heap_end s);
             c_assert ((heap_ptr s + ptr + SIZEOF_STRUCT_MEM) mod 4 = 0);
             c_assert ((heap_ptr s + ptr) mod 4 = 0);
             Some (heap_ptr s + ptr + SIZEOF_STRUCT_MEM, s)
           })
      })"

definition rt_free :: "nat \<Rightarrow> heap \<Rightarrow> heap option" where
  "rt_free rmem s =
     (if rmem = RT_NULL then Some s
      else do {
        c_assert (rmem mod 4 = 0);
        c_assert (rmem \<ge> heap_ptr s \<and> rmem < heap_ptr s + heap_end s);
        c_assert (rmem \<ge> heap_ptr s + SIZEOF_STRUCT_MEM);
        let p = rmem - heap_ptr s - SIZEOF_STRUCT_MEM;
        c_assert (used (mem s) p \<noteq> 0);
        c_assert (magic (mem s) p = HEAP_MAGIC);
        let s = s\<lparr>mem := set_magic p HEAP_MAGIC (set_used p 0 (mem s))\<rparr>;
        let s = (if p < lfree s then s\<lparr>lfree := p\<rparr> else s);
        let s = s\<lparr>used_mem := sub32 (used_mem s) (sub32 (next_off (mem s) p) p)\<rparr>;
        plug_holes p s
      })"

definition rt_realloc :: "nat \<Rightarrow> u32 \<Rightarrow> heap \<Rightarrow> (nat \<times> heap) option" where
  "rt_realloc rmem newsize s =
     (let newsize = RT_ALIGN newsize in
      if unat newsize > mem_size_aligned s then Some (RT_NULL, s)
      else if newsize = 0 then do { s \<leftarrow> rt_free rmem s; Some (RT_NULL, s) }
      else if rmem = RT_NULL then rt_malloc newsize s
      else if rmem < heap_ptr s \<or> rmem \<ge> heap_ptr s + heap_end s then Some (rmem, s)
      else do {
        c_assert (rmem \<ge> heap_ptr s + SIZEOF_STRUCT_MEM);
        let ptr = rmem - heap_ptr s - SIZEOF_STRUCT_MEM;
        let sz = sub32 (sub32 (next_off (mem s) ptr) ptr) SIZEOF_STRUCT_MEM;
        if sz = unat newsize then Some (rmem, s)
        else if add32 (add32 (unat newsize) SIZEOF_STRUCT_MEM) MIN_SIZE < sz then do {
          let s = s\<lparr>used_mem := sub32 (used_mem s) (sz - unat newsize)\<rparr>;
          let s = split_block ptr (unat newsize) s;
          s \<leftarrow> plug_holes (add32 (add32 ptr SIZEOF_STRUCT_MEM) (unat newsize)) s;
          Some (rmem, s)
        } else do {
          (nmem, s) \<leftarrow> rt_malloc newsize s;
          if nmem \<noteq> RT_NULL then do {
            let s = s\<lparr>mem := rt_memcpy (nmem - heap_ptr s) (rmem - heap_ptr s) (min sz (unat newsize)) (mem s)\<rparr>;
            s \<leftarrow> rt_free rmem s;
            Some (nmem, s)
          } else Some (nmem, s)
        }
      })"

definition rt_calloc :: "u32 \<Rightarrow> u32 \<Rightarrow> heap \<Rightarrow> (nat \<times> heap) option" where
  "rt_calloc count sz s = do {
     (p, s) \<leftarrow> rt_malloc (count * sz) s;
     Some (p, if p \<noteq> RT_NULL then s\<lparr>mem := rt_memset (p - heap_ptr s) 0 (unat (count * sz)) (mem s)\<rparr> else s)
   }"

definition rt_memory_info :: "heap \<Rightarrow> nat \<times> nat \<times> nat" where
  "rt_memory_info s = (mem_size_aligned s, used_mem s, max_mem s)"

subsection \<open>What the memory functions do\<close>

definition copy_bytes :: "nat \<Rightarrow> nat \<Rightarrow> nat \<Rightarrow> memory \<Rightarrow> memory" where
  "copy_bytes dst src n m = (\<lambda>a. if dst \<le> a \<and> a < dst + n then m (src + (a - dst)) else m a)"

definition fill_bytes :: "nat \<Rightarrow> u8 \<Rightarrow> nat \<Rightarrow> memory \<Rightarrow> memory" where
  "fill_bytes dst v n m = (\<lambda>a. if dst \<le> a \<and> a < dst + n then v else m a)"

subsection \<open>The heap as a list of blocks\<close>

text \<open>A block is its extent with its header, and whether it is in use.\<close>

type_synonym block = "nat \<times> bool"

definition extent :: "block list \<Rightarrow> nat" where
  "extent bs = sum_list (map fst bs)"

definition header :: "memory \<Rightarrow> nat \<Rightarrow> u16 \<times> u16 \<times> nat \<times> nat" where
  "header m b = (magic m b, used m b, next_off m b, prev_off m b)"

text \<open>The headers from offset \<open>b\<close> to \<open>e\<close> describe the blocks, the one before \<open>b\<close> being at \<open>p\<close>.\<close>

fun chain :: "memory \<Rightarrow> nat \<Rightarrow> nat \<Rightarrow> nat \<Rightarrow> block list \<Rightarrow> bool" where
  "chain m p b e [] \<longleftrightarrow> b = e"
| "chain m p b e ((n, u) # bs) \<longleftrightarrow> header m b = (HEAP_MAGIC, if u then 1 else 0, b + n, p) \<and> 16 \<le> n \<and> 4 dvd n
     \<and> chain m b (b + n) e bs"

text \<open>No two free blocks are neighbours.\<close>

definition no_holes :: "block list \<Rightarrow> bool" where
  "no_holes = successively (\<lambda>x y. snd x \<or> snd y)"

fun first_free :: "nat \<Rightarrow> block list \<Rightarrow> nat" where
  "first_free b [] = b"
| "first_free b ((n, u) # bs) = (if u then first_free (b + n) bs else b)"

definition in_use :: "block list \<Rightarrow> nat" where
  "in_use bs = extent (filter snd bs)"

definition heap_ok :: "heap \<Rightarrow> block list \<Rightarrow> bool" where
  "heap_ok s bs \<longleftrightarrow> chain (mem s) 0 0 (heap_end s) bs \<and> no_holes bs \<and> lfree s = first_free 0 bs
     \<and> heap_end s = mem_size_aligned s + 12 \<and> used (mem s) (heap_end s) = 1 \<and> next_off (mem s) (heap_end s) = heap_end s
     \<and> used_mem s = in_use bs \<and> used_mem s \<le> max_mem s \<and> 12 \<le> mem_size_aligned s \<and> 4 dvd heap_ptr s
     \<and> heap_ptr s + heap_end s + 12 < 2 ^ 32"

text \<open>What the operations do to the list: first fit with splitting, and joining free neighbours.\<close>

fun a_malloc :: "nat \<Rightarrow> nat \<Rightarrow> nat \<Rightarrow> block list \<Rightarrow> (nat \<times> block list) option" where
  "a_malloc b z n [] = None"
| "a_malloc b z n ((k, u) # bs) =
     (if \<not> u \<and> n + 12 \<le> k \<and> b + n < z
      then Some (b, if n + 36 \<le> k then (n + 12, True) # (k - (n + 12), False) # bs else (k, True) # bs)
      else map_option (\<lambda>(a, bs'). (a, (k, u) # bs')) (a_malloc (b + k) z n bs))"

fun release :: "nat \<Rightarrow> nat \<Rightarrow> block list \<Rightarrow> block list" where
  "release a b [] = []"
| "release a b ((k, u) # bs) = (if a = b then (k, False) # bs else (k, u) # release a (b + k) bs)"

fun coalesce :: "block list \<Rightarrow> block list" where
  "coalesce ((k, False) # (k', False) # bs) = coalesce ((k + k', False) # bs)"
| "coalesce (x # bs) = x # coalesce bs"
| "coalesce [] = []"

definition a_free :: "nat \<Rightarrow> block list \<Rightarrow> block list" where
  "a_free a bs = coalesce (release a 0 bs)"

text \<open>The used blocks, as offset and extent.\<close>

fun allocated :: "nat \<Rightarrow> block list \<Rightarrow> (nat \<times> nat) list" where
  "allocated b [] = []"
| "allocated b ((k, u) # bs) = (if u then [(b, k)] else []) @ allocated (b + k) bs"

section \<open>Memory\<close>

lemma put16_get [simp]: "get16 (put16 a v m) a = v"
  by (simp add: get16_def put16_def word_split)

lemma put16_far: "a + 2 \<le> b \<or> b + 2 \<le> a \<Longrightarrow> get16 (put16 a v m) b = get16 m b"
  by (auto simp: get16_def put16_def)

lemma put32_far: "a + 4 \<le> b \<or> b + 2 \<le> a \<Longrightarrow> get16 (put32 a v m) b = get16 m b"
  by (auto simp: put32_def put16_far)

lemma put32_get: "v < 2 ^ 32 \<Longrightarrow> get32 (put32 a v m) a = v"
  by (simp add: get32_def put32_def put16_far word_split unat_of_nat)

lemma put16_get32_far: "a + 2 \<le> b \<or> b + 4 \<le> a \<Longrightarrow> get32 (put16 a v m) b = get32 m b"
  by (auto simp: get32_def put16_far)

lemma put32_get32_far: "a + 4 \<le> b \<or> b + 4 \<le> a \<Longrightarrow> get32 (put32 a v m) b = get32 m b"
  by (auto simp: get32_def put32_far)

lemmas mem_far = put16_far put32_far put16_get32_far put32_get32_far

lemma put_byte:
  "k < a \<or> a + 2 \<le> k \<Longrightarrow> put16 a w m k = m k"
  "k < a \<or> a + 4 \<le> k \<Longrightarrow> put32 a v m k = m k"
  by (auto simp: put16_def put32_def)

text \<open>The memory functions do what byte by byte loops do.\<close>

declare set_quads.simps [simp del] set_words.simps [simp del] copy_quads.simps [simp del] copy_words.simps [simp del]

lemma put32_bytes: "put32 a v m = m(a := lo8 (lo16 (of_nat v)), a + 1 := hi8 (lo16 (of_nat v)), a + 2 := lo8 (hi16 (of_nat v)), a + 3 := hi8 (hi16 (of_nat v)))"
  by (simp add: put32_def put16_def numeral_3_eq_3)

lemma buffer_halves:
  fixes c :: u32
  defines "b \<equiv> push_bit 8 (c AND 0xFF) OR (c AND 0xFF)"
  shows "lo8 (lo16 (b OR push_bit 16 b)) = ucast c" "hi8 (lo16 (b OR push_bit 16 b)) = ucast c"
    "lo8 (hi16 (b OR push_bit 16 b)) = ucast c" "hi8 (hi16 (b OR push_bit 16 b)) = ucast c"
proof -
  have masks: "(0xFF :: u32) = mask 8" "(0xFF :: u16) = mask 8" "(0xFFFF :: u32) = mask 16" "(0xFFFF0000 :: u32) = push_bit 16 (mask 16)"
    by (simp_all add: mask_eq_exp_minus_1)
  show "lo8 (lo16 (b OR push_bit 16 b)) = ucast c" "hi8 (lo16 (b OR push_bit 16 b)) = ucast c"
    "lo8 (hi16 (b OR push_bit 16 b)) = ucast c" "hi8 (hi16 (b OR push_bit 16 b)) = ucast c"
    by (rule bit_eqI; auto simp: b_def lo8_def lo16_def hi8_def hi16_def masks bit_simps)+
qed

lemma fill_append: "fill_bytes (a + k) c n (fill_bytes a c k m) = fill_bytes a c (k + n) m"
  by (auto simp: fill_bytes_def fun_eq_iff)

lemma put32_fill: "(\<forall>w \<in> {lo8 (lo16 (of_nat v)), hi8 (lo16 (of_nat v)), lo8 (hi16 (of_nat v)), hi8 (hi16 (of_nat v))}. w = c) \<Longrightarrow> put32 a v m = fill_bytes a c 4 m"
  by (auto simp: put32_bytes fill_bytes_def fun_eq_iff numeral_eq_Suc less_Suc_eq)

lemma set_bytes_fill: "set_bytes c a n m = fill_bytes a c n m"
proof (induction n arbitrary: a m)
  case (Suc n)
  have "m(a := c) = fill_bytes a c 1 m" by (auto simp: fill_bytes_def fun_eq_iff)
  then show ?case using Suc fill_append [of a 1 c n m] by simp
qed (auto simp: fill_bytes_def fun_eq_iff)

text \<open>What a loop leaves to do is what its caller does next.\<close>

lemma set_words_fill:
  assumes "\<forall>a m. put32 a v m = fill_bytes a c 4 m"
  shows "(case set_words v a n m of (a', n', m') \<Rightarrow> fill_bytes a' c n' m') = fill_bytes a c n m"
  using assms
proof (induction v a n m rule: set_words.induct)
  case (1 v a n m)
  show ?case
  proof (cases "4 \<le> n")
    case True
    then show ?thesis using "1.IH" [OF True 1(2)] fill_append [of a 4 c "n - 4" m] 1(2) by (simp add: set_words.simps [of v a n m])
  qed (simp add: set_words.simps)
qed

lemma set_quads_fill:
  assumes "\<forall>a m. put32 a v m = fill_bytes a c 4 m"
  shows "(case set_quads v a n m of (a', n', m') \<Rightarrow> fill_bytes a' c n' m') = fill_bytes a c n m"
  using assms
proof (induction v a n m rule: set_quads.induct)
  case (1 v a n m)
  show ?case
  proof (cases "16 \<le> n")
    case True
    have "put32 (a + 12) v (put32 (a + 8) v (put32 (a + 4) v (put32 a v m))) = fill_bytes a c 16 m"
      using 1(2) fill_append [of a 4 c 4 m] fill_append [of a 8 c 4 m] fill_append [of a 12 c 4 m] by simp
    then show ?thesis using "1.IH" [OF True 1(2)] fill_append [of a 16 c "n - 16" m] True by (simp add: set_quads.simps [of v a n m])
  qed (simp add: set_quads.simps)
qed

lemma memset_fills: "rt_memset a c n m = fill_bytes a (ucast c) n m"
proof -
  define b where "b = push_bit 8 (c AND 0xFF) OR (c AND 0xFF)"
  have d: "ucast (c AND 0xFF) = (ucast c :: u8)"
  proof -
    have "(0xFF :: u32) = mask 8" by (simp add: mask_eq_exp_minus_1)
    show ?thesis unfolding \<open>0xFF = mask 8\<close> by (intro bit_eqI) (auto simp: bit_simps)
  qed
  have p: "\<forall>a m. put32 a (unat (b OR push_bit 16 b)) m = fill_bytes a (ucast c) 4 m"
    using put32_fill [of "unat (b OR push_bit 16 b)" "ucast c"] buffer_halves [of c] by (simp add: b_def)
  obtain a1 n1 m1 where q: "set_quads (unat (b OR push_bit 16 b)) a n m = (a1, n1, m1)" by (metis prod_cases3)
  obtain a2 n2 m2 where w: "set_words (unat (b OR push_bit 16 b)) a1 n1 m1 = (a2, n2, m2)" by (metis prod_cases3)
  have "set_bytes (ucast c) a2 n2 m2 = fill_bytes a (ucast c) n m"
    using set_quads_fill [OF p, of a n m] set_words_fill [OF p, of a1 n1 m1] q w by (simp add: set_bytes_fill)
  then show ?thesis unfolding rt_memset_def Let_def d b_def [symmetric] q by (simp add: w set_bytes_fill)
qed

definition disjoint_ranges :: "nat \<Rightarrow> nat \<Rightarrow> nat \<Rightarrow> bool" where
  "disjoint_ranges d s n \<longleftrightarrow> d + n \<le> s \<or> s + n \<le> d"

lemma copy_append: "disjoint_ranges d s (k + n) \<Longrightarrow> copy_bytes (d + k) (s + k) n (copy_bytes d s k m) = copy_bytes d s (k + n) m"
  by (auto simp: disjoint_ranges_def copy_bytes_def fun_eq_iff)

lemma put32_copy: "disjoint_ranges d s 4 \<Longrightarrow> put32 d (get32 m s) m = copy_bytes d s 4 m"
  by (auto simp: disjoint_ranges_def put32_bytes get32_def get16_def word_split copy_bytes_def fun_eq_iff numeral_eq_Suc less_Suc_eq)

lemma copy_each_copy: "disjoint_ranges d s n \<Longrightarrow> copy_each d s n m = copy_bytes d s n m"
proof (induction n arbitrary: d s m)
  case (Suc n)
  have "m(d := m s) = copy_bytes d s 1 m" by (auto simp: copy_bytes_def fun_eq_iff)
  moreover have "disjoint_ranges (d + 1) (s + 1) n" using Suc.prems by (auto simp: disjoint_ranges_def)
  ultimately show ?case using Suc.IH copy_append [of d s 1 n m] Suc.prems by simp
qed (auto simp: copy_bytes_def fun_eq_iff)

lemma copy_words_copy:
  "disjoint_ranges d s n \<Longrightarrow> (case copy_words d s n m of (d', s', n', m') \<Rightarrow> disjoint_ranges d' s' n' \<and> copy_bytes d' s' n' m' = copy_bytes d s n m)"
proof (induction d s n m rule: copy_words.induct)
  case (1 d s n m)
  show ?case
  proof (cases "4 \<le> n")
    case True
    then have r: "disjoint_ranges (d + 4) (s + 4) (n - 4)" "disjoint_ranges d s 4" using 1(2) by (auto simp: disjoint_ranges_def)
    then show ?thesis using "1.IH" [OF True r(1)] copy_append [of d s 4 "n - 4" m] 1(2) True
      by (simp add: copy_words.simps [of d s n m] put32_copy)
  qed (use 1(2) in \<open>simp add: copy_words.simps\<close>)
qed

lemma copy_quads_copy:
  "disjoint_ranges d s n \<Longrightarrow> (case copy_quads d s n m of (d', s', n', m') \<Rightarrow> disjoint_ranges d' s' n' \<and> copy_bytes d' s' n' m' = copy_bytes d s n m)"
proof (induction d s n m rule: copy_quads.induct)
  case (1 d s n m)
  show ?case
  proof (cases "16 \<le> n")
    case True
    have r: "disjoint_ranges (d + 16) (s + 16) (n - 16)" "disjoint_ranges d s 4" "disjoint_ranges (d + 4) (s + 4) 4" "disjoint_ranges (d + 8) (s + 8) 4"
      "disjoint_ranges (d + 12) (s + 12) 4" "disjoint_ranges d s 8" "disjoint_ranges d s 12" "disjoint_ranges d s 16"
      using 1(2) True by (auto simp: disjoint_ranges_def)
    note c = copy_append [of d s 4 4 m] copy_append [of d s 8 4 m] copy_append [of d s 12 4 m]
    have "copy_quads d s n m = copy_quads (d + 16) (s + 16) (n - 16) (copy_bytes d s 16 m)"
      using True c r by (simp add: copy_quads.simps [of d s n m] put32_copy Let_def)
    moreover have "case copy_quads (d + 16) (s + 16) (n - 16) (copy_bytes d s 16 m) of (d', s', n', m') \<Rightarrow>
        disjoint_ranges d' s' n' \<and> copy_bytes d' s' n' m' = copy_bytes (d + 16) (s + 16) (n - 16) (copy_bytes d s 16 m)"
      using "1.IH" [OF True refl refl refl refl r(1)] c r by (simp add: put32_copy)
    ultimately show ?thesis using copy_append [of d s 16 "n - 16" m] 1(2) True by simp
  qed (use 1(2) in \<open>simp add: copy_quads.simps\<close>)
qed

lemma memcpy_copies: "disjoint_ranges d s n \<Longrightarrow> rt_memcpy d s n m = copy_bytes d s n m"
proof -
  assume a: "disjoint_ranges d s n"
  obtain d1 s1 n1 m1 where q: "copy_quads d s n m = (d1, s1, n1, m1)" by (metis prod_cases4)
  obtain d2 s2 n2 m2 where w: "copy_words d1 s1 n1 m1 = (d2, s2, n2, m2)" by (metis prod_cases4)
  have "copy_each d2 s2 n2 m2 = copy_bytes d s n m"
    using copy_quads_copy [OF a, of m] copy_words_copy [of d1 s1 n1 m1] q w by (simp add: copy_each_copy)
  then show ?thesis using q w copy_each_copy [OF a] by (simp add: rt_memcpy_def)
qed

lemmas fields = magic_def used_def next_off_def prev_off_def set_magic_def set_used_def set_next_def set_prev_def

text \<open>Storing a field of one header changes no other field and no other header.\<close>

lemma field_same [simp]:
  "magic (set_magic p w m) p = w" "used (set_magic p w m) p = used m p" "next_off (set_magic p w m) p = next_off m p" "prev_off (set_magic p w m) p = prev_off m p"
  "magic (set_used p w m) p = magic m p" "used (set_used p w m) p = w" "next_off (set_used p w m) p = next_off m p" "prev_off (set_used p w m) p = prev_off m p"
  "magic (set_next p v m) p = magic m p" "used (set_next p v m) p = used m p" "v < 2 ^ 32 \<Longrightarrow> next_off (set_next p v m) p = v" "prev_off (set_next p v m) p = prev_off m p"
  "magic (set_prev p v m) p = magic m p" "used (set_prev p v m) p = used m p" "next_off (set_prev p v m) p = next_off m p" "v < 2 ^ 32 \<Longrightarrow> prev_off (set_prev p v m) p = v"
  by (simp_all add: fields mem_far put32_get)

definition apart :: "nat \<Rightarrow> nat \<Rightarrow> bool" where
  "apart p q \<longleftrightarrow> p + 12 \<le> q \<or> q + 12 \<le> p"

lemma field_far [simp]:
  assumes "apart p q"
  shows "header (set_magic p w m) q = header m q" "header (set_used p w m) q = header m q"
    "header (set_next p v m) q = header m q" "header (set_prev p v m) q = header m q"
  using assms by (auto simp: apart_def header_def fields mem_far)


lemma header_eq: "header m' b = header m b \<longleftrightarrow> magic m' b = magic m b \<and> used m' b = used m b \<and> next_off m' b = next_off m b \<and> prev_off m' b = prev_off m b"
  by (simp add: header_def)

lemma next_far: "apart p q \<Longrightarrow> next_off (set_next p v m) q = next_off m q"
  using field_far(3) header_eq by metis

section \<open>Chains of blocks\<close>

lemma extent_simps [simp]: "extent [] = 0" "extent ((n, u) # bs) = n + extent bs" "extent (xs @ ys) = extent xs + extent ys"
  by (simp_all add: extent_def)

lemma chain_end: "chain m p b e bs \<Longrightarrow> e = b + extent bs"
  by (induction m p b e bs rule: chain.induct) auto

text \<open>The offset of the last block.\<close>

definition last_off :: "nat \<Rightarrow> nat \<Rightarrow> block list \<Rightarrow> nat" where
  "last_off p b xs = (if xs = [] then p else b + extent (butlast xs))"

lemma last_off_simps [simp]: "last_off p b [] = p" "last_off p b (xs @ [x]) = b + extent xs"
  by (simp_all add: last_off_def)

lemma last_off_Cons: "last_off p b ((n, u) # xs) = last_off b (b + n) xs"
  by (simp add: last_off_def)

lemma chain_append: "chain m p b e (xs @ ys) \<longleftrightarrow> chain m p b (b + extent xs) xs \<and> chain m (last_off p b xs) (b + extent xs) e ys"
  by (induction xs arbitrary: p b) (auto simp: last_off_Cons add.assoc)

text \<open>A chain depends only on its headers, which lie between its ends.\<close>

lemma chain_cong:
  assumes "chain m p b e bs" "\<And>q. b \<le> q \<Longrightarrow> q + 16 \<le> e \<Longrightarrow> header m' q = header m q"
  shows "chain m' p b e bs"
  using assms
proof (induction m p b e bs rule: chain.induct)
  case (2 m p b e n u bs)
  have e: "e = b + n + extent bs" using 2 chain_end [of m b "b + n" e bs] by simp
  have "chain m' b (b + n) e bs" by (rule "2.IH") (use 2 in auto)
  moreover have "header m' b = header m b" using 2 e by simp
  ultimately show ?case using 2 by simp
qed simp

lemma chain_dvd: "chain m p b e bs \<Longrightarrow> 4 dvd extent bs"
  by (induction m p b e bs rule: chain.induct) auto

lemma extent_ge: "chain m p b e (x # bs) \<Longrightarrow> b + 16 \<le> e"
  using chain_end [of m p b e "x # bs"] by (cases x) auto

text \<open>Joining a free block with its free successor.\<close>

lemma chain_join:
  assumes "chain m p b e (xs @ (k, False) # (k', False) # ys)" "e < 2 ^ 32"
    and "c = b + extent xs" "d = c + k + k'"
  shows "chain (set_prev d c (set_next c d m)) p b e (xs @ (k + k', False) # ys)"
proof -
  let ?m = "set_prev d c (set_next c d m)"
  have h: "chain m p b c xs" "header m c = (HEAP_MAGIC, 0, c + k, last_off p b xs)" "16 \<le> k" "4 dvd k"
    "16 \<le> k'" "4 dvd k'" "chain m (c + k) d e ys"
    using assms by (auto simp: chain_append add.assoc)
  have e: "e = d + extent ys" by (rule chain_end [OF h(7)])
  have d: "c + 32 \<le> d" "d < 2 ^ 32" using h(3,5) assms(2,4) e by auto
  have "chain ?m p b c xs"
    by (rule chain_cong [OF h(1)]) (use d in \<open>auto simp: apart_def\<close>)
  moreover have "header ?m c = (HEAP_MAGIC, 0, d, last_off p b xs)"
  proof -
    have "header ?m c = header (set_next c d m) c" using d by (simp add: apart_def)
    then show ?thesis using h(2) d by (simp add: header_def)
  qed
  moreover have "chain ?m c d e ys"
  proof (cases ys)
    case Nil
    then show ?thesis using h(7) by simp
  next
    case (Cons y ys')
    obtain n u where y: "y = (n, u)" by (cases y)
    have y': "header m d = (HEAP_MAGIC, if u then 1 else 0, d + n, c + k)" "16 \<le> n" "4 dvd n" "chain m d (d + n) e ys'"
      using h(7) by (auto simp: Cons y)
    have "header (set_next c d m) d = header m d" using d by (simp add: apart_def)
    then have "header ?m d = (HEAP_MAGIC, if u then 1 else 0, d + n, c)" using y'(1) d by (auto simp: header_def)
    moreover have "chain ?m d (d + n) e ys'"
      by (rule chain_cong [OF y'(4)]) (use d y'(2) in \<open>auto simp: apart_def\<close>)
    ultimately show ?thesis using y'(2,3) by (simp add: Cons y)
  qed
  ultimately show ?thesis using h(3-6) assms(3,4) by (simp add: chain_append add.assoc)
qed

text \<open>Cutting a block in two.\<close>

lemma chain_split:
  assumes "chain m p b e (xs @ (k, u) # ys)" "e < 2 ^ 32" "c = b + extent xs" "d = c + n" "16 \<le> n" "4 dvd n" "n + 16 \<le> k"
    and "m1 = set_next c d (set_prev d c (set_next d (c + k) (set_used d 0 (set_magic d HEAP_MAGIC m))))"
    and "m2 = (if ys = [] then m1 else set_prev (c + k) d m1)"
  shows "chain m2 p b e (xs @ (n, u) # (k - n, False) # ys)"
proof -
  have h: "chain m p b c xs" "header m c = (HEAP_MAGIC, if u then 1 else 0, c + k, last_off p b xs)" "16 \<le> k" "4 dvd k"
    "chain m c (c + k) e ys"
    using assms by (auto simp: chain_append add.assoc)
  have e: "e = c + k + extent ys" by (rule chain_end [OF h(5)])
  have d: "c + 16 \<le> d" "d + 16 \<le> c + k" "c + k < 2 ^ 32" "d < 2 ^ 32" "c < 2 ^ 32" using assms e by auto
  have far: "header m2 q = header m q" if "q + 12 \<le> c \<or> c + k + 12 \<le> q" for q
    using that d by (auto simp: assms(8,9) apart_def)
  have "chain m2 p b c xs" by (rule chain_cong [OF h(1)]) (auto intro: far)
  moreover have "header m2 c = (HEAP_MAGIC, if u then 1 else 0, d, last_off p b xs)"
  proof -
    have "header m2 c = header m1 c" using d by (simp add: assms(9) apart_def)
    also have "\<dots> = (HEAP_MAGIC, if u then 1 else 0, d, last_off p b xs)"
    proof -
      have "header (set_prev d c (set_next d (c + k) (set_used d 0 (set_magic d HEAP_MAGIC m)))) c = header m c" using d by (simp add: apart_def)
      then show ?thesis using h(2) d by (simp add: assms(8) header_def)
    qed
    finally show ?thesis .
  qed
  moreover have "header m2 d = (HEAP_MAGIC, 0, c + k, c)"
  proof -
    have "header m2 d = header m1 d" using d by (simp add: assms(9) apart_def)
    also have "\<dots> = header (set_prev d c (set_next d (c + k) (set_used d 0 (set_magic d HEAP_MAGIC m)))) d"
      using d by (simp add: assms(8) apart_def)
    finally show ?thesis using d by (simp add: header_def)
  qed
  moreover have "chain m2 d (c + k) e ys"
  proof (cases ys)
    case Nil
    then show ?thesis using h(5) by simp
  next
    case (Cons y ys')
    obtain n' u' where y: "y = (n', u')" by (cases y)
    have y': "header m (c + k) = (HEAP_MAGIC, if u' then 1 else 0, c + k + n', c)" "16 \<le> n'" "4 dvd n'" "chain m (c + k) (c + k + n') e ys'"
      using h(5) by (auto simp: Cons y)
    have "header m1 (c + k) = header m (c + k)" using d by (simp add: assms(8) apart_def)
    then have "header m2 (c + k) = (HEAP_MAGIC, if u' then 1 else 0, c + k + n', d)"
      using y'(1) d Cons by (auto simp: header_def assms(9))
    moreover have "chain m2 (c + k) (c + k + n') e ys'" by (rule chain_cong [OF y'(4)]) (use y'(2) in \<open>auto intro: far\<close>)
    ultimately show ?thesis using y'(2,3) by (simp add: Cons y)
  qed
  moreover have "16 \<le> k - n" using assms(7) by simp
  ultimately show ?thesis using assms(3-7) h(4) d by (simp add: chain_append dvd_diff_nat add.assoc)
qed

text \<open>Marking a block.\<close>

lemma chain_mark:
  assumes "chain m p b e (xs @ (k, u) # ys)" "c = b + extent xs"
  shows "chain (set_magic c HEAP_MAGIC (set_used c (if v then 1 else 0) m)) p b e (xs @ (k, v) # ys)"
proof -
  let ?m = "set_magic c HEAP_MAGIC (set_used c (if v then 1 else 0) m)"
  have h: "chain m p b c xs" "header m c = (HEAP_MAGIC, if u then 1 else 0, c + k, last_off p b xs)" "16 \<le> k" "4 dvd k"
    "chain m c (c + k) e ys"
    using assms by (auto simp: chain_append add.assoc)
  have "chain ?m p b c xs" by (rule chain_cong [OF h(1)]) (auto simp: apart_def)
  moreover have "chain ?m c (c + k) e ys" by (rule chain_cong [OF h(5)]) (use h(3) in \<open>auto simp: apart_def\<close>)
  moreover have "header ?m c = (HEAP_MAGIC, if v then 1 else 0, c + k, last_off p b xs)" using h(2) by (simp add: header_def)
  ultimately show ?thesis using h(3,4) assms(2) by (simp add: chain_append add.assoc)
qed

lemma chain_mark_order: "set_used c w (set_magic c v m) = set_magic c v (set_used c w m)"
  by (auto simp: fields put16_def fun_eq_iff)

lemma chain_at:
  assumes "chain m p b e (xs @ (k, u) # ys)" "c = b + extent xs"
  shows "magic m c = HEAP_MAGIC" "used m c = (if u then 1 else 0)" "next_off m c = c + k" "prev_off m c = last_off p b xs"
    "16 \<le> k" "4 dvd k" "c + k + extent ys = e" "4 dvd extent xs"
proof -
  have h: "chain m p b c xs" "header m c = (HEAP_MAGIC, if u then 1 else 0, c + k, last_off p b xs)" "16 \<le> k" "4 dvd k"
    "chain m c (c + k) e ys"
    using assms by (auto simp: chain_append add.assoc)
  then show "magic m c = HEAP_MAGIC" "used m c = (if u then 1 else 0)" "next_off m c = c + k" "prev_off m c = last_off p b xs"
    "16 \<le> k" "4 dvd k" by (simp_all add: header_def)
  show "c + k + extent ys = e" using chain_end [OF h(5)] by simp
  show "4 dvd extent xs" by (rule chain_dvd [OF h(1)])
qed

lemma chain_at_hd:
  assumes "chain m p b e ((k, u) # bs)"
  shows "used m b = (if u then 1 else 0)" "next_off m b = b + k" "16 \<le> k" "b + k + extent bs = e"
  using assms chain_end [of m b "b + k" e bs] by (simp_all add: header_def)

section \<open>Lists of blocks\<close>

lemma no_holes_simps [simp]:
  "no_holes []" "no_holes [x]" "no_holes (x # y # bs) \<longleftrightarrow> (snd x \<or> snd y) \<and> no_holes (y # bs)"
  by (simp_all add: no_holes_def)

lemma no_holes_Cons: "no_holes (x # bs) \<longleftrightarrow> no_holes bs \<and> (bs \<noteq> [] \<longrightarrow> snd x \<or> snd (hd bs))"
  by (cases bs) auto

lemma no_holes_append: "no_holes (xs @ ys) \<longleftrightarrow> no_holes xs \<and> no_holes ys \<and> (xs \<noteq> [] \<longrightarrow> ys \<noteq> [] \<longrightarrow> snd (last xs) \<or> snd (hd ys))"
  by (auto simp: no_holes_def successively_append_iff)

lemma coalesce_id: "no_holes bs \<Longrightarrow> coalesce bs = bs"
  by (induction bs rule: coalesce.induct) (auto simp: no_holes_Cons)

lemma coalesce_used: "coalesce (xs @ (k, True) # ys) = coalesce xs @ (k, True) # coalesce ys"
  by (induction xs rule: coalesce.induct) auto

lemma first_free_append: "first_free b (xs @ ys) = (if list_all snd xs then first_free (b + extent xs) ys else first_free b xs)"
  by (induction xs arbitrary: b) (auto simp: add.assoc)

lemma in_use_simps [simp]: "in_use [] = 0" "in_use ((k, u) # bs) = (if u then k else 0) + in_use bs" "in_use (xs @ ys) = in_use xs + in_use ys"
  by (simp_all add: in_use_def)

lemma in_use_le: "in_use bs \<le> extent bs"
  by (induction bs) auto

lemma a_malloc_Some:
  "a_malloc b z n bs = Some (a, bs') \<Longrightarrow> \<exists>xs k ys. bs = xs @ (k, False) # ys \<and> a = b + extent xs \<and> n + 12 \<le> k \<and> a + n < z
    \<and> bs' = xs @ (if n + 36 \<le> k then (n + 12, True) # (k - (n + 12), False) # ys else (k, True) # ys)
    \<and> (\<forall>j ws vs. xs = ws @ (j, False) # vs \<longrightarrow> j < n + 12)"
proof (induction b z n bs arbitrary: a bs' rule: a_malloc.induct)
  case (2 b z n k u bs)
  show ?case
  proof (cases "\<not> u \<and> n + 12 \<le> k \<and> b + n < z")
    case True
    then show ?thesis using 2(2) by (intro exI [of _ "[]"] exI [of _ k] exI [of _ bs]) auto
  next
    case False
    then obtain bs1 where r: "a_malloc (b + k) z n bs = Some (a, bs1)" "bs' = (k, u) # bs1" using 2(2) by (auto split: if_splits)
    from "2.IH" [OF False r(1)] obtain xs j ys where x: "bs = xs @ (j, False) # ys" "a = b + k + extent xs" "n + 12 \<le> j" "a + n < z"
      "bs1 = xs @ (if n + 36 \<le> j then (n + 12, True) # (j - (n + 12), False) # ys else (j, True) # ys)"
      "\<forall>j ws vs. xs = ws @ (j, False) # vs \<longrightarrow> j < n + 12" by blast
    moreover have "\<not> u \<Longrightarrow> k < n + 12" using False x(2,4) by auto
    ultimately show ?thesis using r(2)
      by (intro exI [of _ "(k, u) # xs"] exI [of _ j] exI [of _ ys]) (auto simp: Cons_eq_append_conv)
  qed
qed simp

lemma a_malloc_beyond: "z \<le> b + n \<Longrightarrow> a_malloc b z n bs = None"
  by (induction bs arbitrary: b) auto

lemma a_malloc_used:
  "list_all snd xs \<Longrightarrow> a_malloc b z n (xs @ ys) = map_option (\<lambda>(a, bs). (a, xs @ bs)) (a_malloc (b + extent xs) z n ys)"
proof (induction xs arbitrary: b)
  case Nil
  then show ?case by (cases "a_malloc b z n ys") auto
next
  case (Cons x xs)
  then show ?case by (cases x; cases "a_malloc (b + fst x + extent xs) z n ys") (auto simp: add.assoc)
qed

lemma split_used: "\<exists>xs ys. bs = xs @ ys \<and> list_all snd xs \<and> first_free b bs = b + extent xs \<and> (ys = [] \<or> \<not> snd (hd ys))"
proof (induction bs arbitrary: b)
  case (Cons x bs)
  obtain n u where x: "x = (n, u)" by (cases x)
  show ?case
  proof (cases u)
    case True
    from Cons [of "b + n"] obtain xs ys where "bs = xs @ ys" "list_all snd xs" "first_free (b + n) bs = b + n + extent xs" "ys = [] \<or> \<not> snd (hd ys)" by blast
    then show ?thesis using True x by (intro exI [of _ "x # xs"] exI [of _ ys]) simp
  next
    case False
    then show ?thesis using x by (intro exI [of _ "[]"] exI [of _ "x # bs"]) simp
  qed
qed simp

section \<open>Searching\<close>

lemma sub32_le [simp]: "b \<le> a \<Longrightarrow> sub32 a b = a - b"
  by (simp add: sub32_def)

lemma add32_small [simp]: "a + b < 2 ^ 32 \<Longrightarrow> add32 a b = a + b"
  by (simp add: add32_def)

lemma find_fit_chain:
  assumes "chain (mem s) p b e bs" "e = mem_size_aligned s + 12" "e < 2 ^ 32" "n \<le> mem_size_aligned s"
  shows "find_fit s n b = Some (map_option fst (a_malloc b (mem_size_aligned s) n bs))"
  using assms(1)
proof (induction bs arbitrary: p b)
  case Nil
  then have "\<not> b < sub32 (mem_size_aligned s) n" using assms(2,4) by simp
  then show ?case by (subst find_fit.simps) simp
next
  case (Cons x bs)
  obtain k u where x: "x = (k, u)" by (cases x)
  have h: "used (mem s) b = (if u then 1 else 0)" "next_off (mem s) b = b + k" "16 \<le> k" "b + k + extent bs = e"
    using chain_at_hd [OF Cons.prems [unfolded x]] by simp_all
  have ih: "find_fit s n (b + k) = Some (map_option fst (a_malloc (b + k) (mem_size_aligned s) n bs))"
    using Cons.IH [of b "b + k"] Cons.prems x by simp
  have f: "n \<le> sub32 (next_off (mem s) b) (add32 b SIZEOF_STRUCT_MEM) \<longleftrightarrow> n + 12 \<le> k"
    using h assms(3) by (auto simp: SIZEOF_STRUCT_MEM_def)
  show ?case
  proof (cases "b + n < mem_size_aligned s")
    case True
    then show ?thesis using assms(4) ih h(1,2) f
      by (subst find_fit.simps) (auto simp: x option.map_comp comp_def case_prod_beta)
  next
    case False
    then have "\<not> b < sub32 (mem_size_aligned s) n" "a_malloc b (mem_size_aligned s) n (x # bs) = None"
      using assms(4) a_malloc_beyond by auto
    then show ?thesis by (subst find_fit.simps) simp
  qed
qed

lemma find_fit_spec:
  assumes "heap_ok s bs" "n \<le> mem_size_aligned s"
  shows "find_fit s n (lfree s) = Some (map_option fst (a_malloc 0 (mem_size_aligned s) n bs))"
proof -
  obtain xs ys where b: "bs = xs @ ys" "list_all snd xs" "first_free 0 bs = extent xs" using split_used [of bs 0] by auto
  have h: "chain (mem s) 0 0 (heap_end s) bs" "lfree s = extent xs" "heap_end s = mem_size_aligned s + 12" "heap_end s < 2 ^ 32"
    using assms(1) b(3) by (auto simp: heap_ok_def)
  have "chain (mem s) (last_off 0 0 xs) (extent xs) (heap_end s) ys" using h(1) by (simp add: b(1) chain_append)
  from find_fit_chain [OF this h(3,4) assms(2)] show ?thesis
    using a_malloc_used [OF b(2), of 0] by (simp add: b(1) h(2) option.map_comp comp_def case_prod_beta)
qed

lemma next_free_chain:
  assumes "chain (mem s) p b (heap_end s) bs"
  shows "next_free s b = Some (first_free b bs)"
  using assms
proof (induction bs arbitrary: p b)
  case (Cons x bs)
  obtain k u where x: "x = (k, u)" by (cases x)
  have h: "used (mem s) b = (if u then 1 else 0)" "next_off (mem s) b = b + k" "16 \<le> k" "b + k + extent bs = heap_end s"
    using chain_at_hd [OF Cons.prems [unfolded x]] by simp_all
  have ih: "next_free s (b + k) = Some (first_free (b + k) bs)" using Cons.IH [of b "b + k"] Cons.prems x by simp
  have "b \<noteq> heap_end s" using h(3,4) by linarith
  then show ?case using h(1,2) ih by (subst next_free.simps) (simp add: x)
qed (subst next_free.simps; simp)

lemma first_free_used: "chain m 0 0 e bs \<Longrightarrow> first_free 0 bs = e \<or> used m (first_free 0 bs) = 0"
proof -
  assume c: "chain m 0 0 e bs"
  obtain xs ys where b: "bs = xs @ ys" "first_free 0 bs = extent xs" "ys = [] \<or> \<not> snd (hd ys)" using split_used [of bs 0] by auto
  show ?thesis
  proof (cases ys)
    case Nil
    then show ?thesis using c b chain_end [of m 0 0 e bs] by simp
  next
    case (Cons y ys')
    then have "bs = xs @ (fst y, False) # ys'" using b by (cases y) simp
    then have "used m (extent xs) = 0" using c chain_at(2) [of m 0 0 e xs "fst y" False ys' "extent xs"] by simp
    then show ?thesis unfolding b(2) by simp
  qed
qed

end
