(* ===== verification/KHeapOps.thy ===== *)
theory KHeapOps
  imports KHeap
begin

text \<open>
  The operations of src/mem.c on a sound heap do what the list operations do: allocation with splitting,
  release with joining, and what is special about shrinking, requests that wrap and exact fits.
\<close>

section \<open>Bytes of the used blocks\<close>

lemma set_byte:
  "k < p \<or> p + 12 \<le> k \<Longrightarrow> set_magic p w m k = m k" "k < p \<or> p + 12 \<le> k \<Longrightarrow> set_used p w m k = m k"
  "k < p \<or> p + 12 \<le> k \<Longrightarrow> set_next p v m k = m k" "k < p \<or> p + 12 \<le> k \<Longrightarrow> set_prev p v m k = m k"
  by (auto simp: fields put_byte)

lemma allocated_append: "allocated b (xs @ ys) = allocated b xs @ allocated (b + extent xs) ys"
  by (induction xs arbitrary: b) (auto simp: add.assoc)

lemma allocated_bounds: "(a, k) \<in> set (allocated b xs) \<Longrightarrow> b \<le> a \<and> a + k \<le> b + extent xs"
  by (induction xs arbitrary: b) (fastforce split: if_splits)+

text \<open>The bytes of a set of blocks are the same.\<close>

definition kept :: "(nat \<times> nat) list \<Rightarrow> memory \<Rightarrow> memory \<Rightarrow> bool" where
  "kept as m m' \<longleftrightarrow> (\<forall>(a, k) \<in> set as. \<forall>i. a + 12 \<le> i \<and> i < a + k \<longrightarrow> m' i = m i)"

lemma kept_outside:
  assumes "\<And>i. i < extent xs \<or> extent (xs @ zs) + 12 \<le> i \<Longrightarrow> m' i = m i"
  shows "kept (allocated 0 xs @ allocated (extent (xs @ zs)) ys) m m'"
  unfolding kept_def
proof (safe, goal_cases)
  case (1 a k i)
  from 1(1) consider "(a, k) \<in> set (allocated 0 xs)" | "(a, k) \<in> set (allocated (extent (xs @ zs)) ys)" by auto
  then show ?case using 1(2,3) assms [of i] by cases (auto dest: allocated_bounds)
qed

section \<open>Allocation\<close>

lemma split_block_spec:
  assumes "chain (mem s) 0 0 (heap_end s) (xs @ (k, u) # ys)" "heap_end s = mem_size_aligned s + 12" "heap_end s + 12 < 2 ^ 32"
    and "4 \<le> n" "4 dvd n" "n + 28 \<le> k"
  shows "chain (mem (split_block (extent xs) n s)) 0 0 (heap_end s) (xs @ (n + 12, u) # (k - (n + 12), False) # ys)"
    "header (mem (split_block (extent xs) n s)) (heap_end s) = header (mem s) (heap_end s)"
    "\<And>i. i < extent xs \<or> extent xs + 12 \<le> i \<and> i < extent xs + n + 12 \<or> extent xs + k + 12 \<le> i \<Longrightarrow> mem (split_block (extent xs) n s) i = mem s i"
    "split_block (extent xs) n s = s\<lparr>mem := mem (split_block (extent xs) n s)\<rparr>"
proof -
  let ?c = "extent xs" and ?d = "extent xs + (n + 12)" and ?e = "heap_end s"
  have h: "next_off (mem s) ?c = ?c + k" "16 \<le> k" "4 dvd k" "?c + k + extent ys = ?e" using chain_at [OF assms(1)] by simp_all
  have ys: "ys = [] \<longleftrightarrow> ?c + k = ?e" using h(4) assms(1) by (cases ys) (auto simp: chain_append)
  define m1 where "m1 = set_next ?c ?d (set_prev ?d ?c (set_next ?d (?c + k) (set_used ?d 0 (set_magic ?d HEAP_MAGIC (mem s)))))"
  have d: "add32 (add32 ?c SIZEOF_STRUCT_MEM) n = ?d" "add32 (mem_size_aligned s) SIZEOF_STRUCT_MEM = ?e"
    using assms(2,3,6) h(4) by (auto simp: SIZEOF_STRUCT_MEM_def)
  have "header m1 ?d = header (set_prev ?d ?c (set_next ?d (?c + k) (set_used ?d 0 (set_magic ?d HEAP_MAGIC (mem s))))) ?d"
    unfolding m1_def by (rule field_far) (simp add: apart_def)
  then have "next_off m1 ?d = ?c + k" using h(4) assms(3) by (simp add: header_eq)
  then have m: "mem (split_block ?c n s) = (if ys = [] then m1 else set_prev (?c + k) ?d m1)"
  proof -
    have "split_block ?c n s = s\<lparr>mem := if next_off m1 ?d \<noteq> ?e then set_prev (next_off m1 ?d) ?d m1 else m1\<rparr>"
      unfolding split_block_def Let_def d h(1) m1_def [symmetric] by (rule refl)
    with ys \<open>next_off m1 ?d = ?c + k\<close> show ?thesis by simp
  qed
  show "chain (mem (split_block ?c n s)) 0 0 ?e (xs @ (n + 12, u) # (k - (n + 12), False) # ys)"
    by (rule chain_split [OF assms(1) _ _ refl _ _ _ _ m]) (use assms(3-6) in \<open>auto simp: m1_def\<close>)
  have "?d + 12 \<le> ?e" "?c + 12 \<le> ?e" "ys \<noteq> [] \<Longrightarrow> ?c + k + 12 \<le> ?e"
    using h(4) assms(1,6) by (auto simp: chain_append neq_Nil_conv)
  then show "header (mem (split_block ?c n s)) ?e = header (mem s) ?e"
    unfolding m m1_def by (simp add: apart_def)
  show "mem (split_block ?c n s) i = mem s i" if "i < ?c \<or> ?c + 12 \<le> i \<and> i < ?c + n + 12 \<or> ?c + k + 12 \<le> i" for i
    unfolding m m1_def using that assms(6) by (auto simp: set_byte)
  show "split_block ?c n s = s\<lparr>mem := mem (split_block ?c n s)\<rparr>" by (simp add: split_block_def Let_def)
qed

lemma take_block_spec:
  assumes "heap_ok s (xs @ (k, False) # ys)" "n + 12 \<le> k" "12 \<le> n" "4 dvd n"
    and "bs' = xs @ (if n + 36 \<le> k then (n + 12, True) # (k - (n + 12), False) # ys else (k, True) # ys)"
    and "s' = take_block (extent xs) n s"
  shows "chain (mem s') 0 0 (heap_end s) bs'" "used_mem s' = in_use bs'" "used_mem s' \<le> max_mem s'"
    "header (mem s') (heap_end s) = header (mem s) (heap_end s)"
    "\<And>i. i < extent xs \<or> extent xs + k + 12 \<le> i \<Longrightarrow> mem s' i = mem s i"
    "heap_end s' = heap_end s" "heap_ptr s' = heap_ptr s" "mem_size_aligned s' = mem_size_aligned s" "lfree s' = lfree s"
proof -
  let ?c = "extent xs" and ?e = "heap_end s"
  have ch: "chain (mem s) 0 0 ?e (xs @ (k, False) # ys)" and e: "?e = mem_size_aligned s + 12" "?e + 12 < 2 ^ 32" "used_mem s = in_use (xs @ (k, False) # ys)"
    "used_mem s \<le> max_mem s"
    using assms(1) by (auto simp: heap_ok_def)
  have h: "next_off (mem s) ?c = ?c + k" "16 \<le> k" "4 dvd k" "?c + k + extent ys = ?e" using chain_at [OF ch] by simp_all
  have u: "in_use (xs @ (k, False) # ys) + k \<le> ?e" using in_use_le [of xs] in_use_le [of ys] h(4) by simp
  have split: "n + 36 \<le> k \<longleftrightarrow> add32 (add32 n SIZEOF_STRUCT_MEM) MIN_SIZE_ALIGNED \<le> sub32 (next_off (mem s) ?c) (add32 ?c SIZEOF_STRUCT_MEM)"
    using h e assms(2) by (auto simp: SIZEOF_STRUCT_MEM_def MIN_SIZE_ALIGNED_def)
  define w where "w = (if n + 36 \<le> k then split_block ?c n s else s)"
  define j where "j = (if n + 36 \<le> k then n + 12 else k)"
  define r where "r = (if n + 36 \<le> k then (k - (n + 12), False) # ys else ys)"
  have bs: "bs' = xs @ (j, True) # r" by (simp add: assms(5) j_def r_def)
  have w: "chain (mem w) 0 0 ?e (xs @ (j, False) # r)" "header (mem w) ?e = header (mem s) ?e"
    "\<And>i. i < ?c \<or> ?c + k + 12 \<le> i \<Longrightarrow> mem w i = mem s i" "w = s\<lparr>mem := mem w\<rparr>"
    using split_block_spec [OF ch e(1,2), of n] assms(3,4) ch by (auto simp: w_def j_def r_def)
  have nw: "next_off (mem w) ?c = ?c + j" using chain_at(3) [OF w(1)] by simp
  have s': "s' = (let s = count_used j (w\<lparr>mem := set_used ?c 1 (mem w)\<rparr>) in s\<lparr>mem := set_magic ?c HEAP_MAGIC (mem s)\<rparr>)"
  proof -
    have "add32 n SIZEOF_STRUCT_MEM = n + 12" "sub32 (next_off (mem s) ?c) ?c = k"
      using assms(2) h e by (auto simp: SIZEOF_STRUCT_MEM_def)
    then show ?thesis
      unfolding assms(6) take_block_def Let_def split [symmetric] by (simp add: w_def j_def)
  qed
  have m': "mem s' = set_magic ?c HEAP_MAGIC (set_used ?c (if True then 1 else 0) (mem w))" by (simp add: s' count_used_def Let_def)
  show "chain (mem s') 0 0 ?e bs'" unfolding m' bs by (rule chain_mark [OF w(1)]) simp
  have wf: "used_mem w = used_mem s" "max_mem w = max_mem s" "heap_end w = heap_end s" "heap_ptr w = heap_ptr s"
    "mem_size_aligned w = mem_size_aligned s" "lfree w = lfree s"
    by (subst w(4), simp)+
  have j: "j \<le> k" "in_use r = in_use ys" using assms(2) by (auto simp: j_def r_def)
  have "add32 (used_mem s) j = used_mem s + j" using e u j(1) by simp
  then show "used_mem s' = in_use bs'" "used_mem s' \<le> max_mem s'" using e(3,4) j(2) by (auto simp: s' count_used_def Let_def bs wf)
  show "heap_end s' = heap_end s" "heap_ptr s' = heap_ptr s" "mem_size_aligned s' = mem_size_aligned s" "lfree s' = lfree s"
    by (simp_all add: s' count_used_def Let_def wf)
  show "mem s' i = mem s i" if "i < ?c \<or> ?c + k + 12 \<le> i" for i
    unfolding m' using that w(3) by (auto simp: set_byte)
  show "header (mem s') ?e = header (mem s) ?e" unfolding m' w(2) [symmetric] using h(2,4) by (simp add: apart_def)
qed

lemma align_down_nat: "unat (x AND NOT (4 - 1) :: u32) = unat x div 4 * 4"
proof -
  have "Suc (Suc (i - 2)) = i" if "2 \<le> i" for i using that by simp
  then have "x AND NOT (mask 2) = push_bit 2 (drop_bit 2 x)" by (intro bit_eqI) (auto simp: bit_simps not_less)
  then have "unat (x AND NOT (mask 2)) = 4 * (unat x div 4) mod 2 ^ 32"
    by (simp add: push_bit_eq_mult drop_bit_eq_div mult.commute unat_word_ariths unat_div mod_mult_right_eq)
  moreover have "4 * (unat x div 4) \<le> unat x" by simp
  moreover have "unat x < 2 ^ 32" using unat_u32_less by simp
  moreover have "(mask 2 :: u32) = 4 - 1" by (simp add: mask_eq_exp_minus_1)
  ultimately show ?thesis by simp
qed

lemma align_dvd: "4 dvd unat (RT_ALIGN x)" "4 dvd unat (RT_ALIGN_DOWN x)"
  unfolding RT_ALIGN_def RT_ALIGN_DOWN_def align_down_nat by simp_all

lemma RT_ALIGN_nat: "unat sz + 3 < 2 ^ 32 \<Longrightarrow> unat (RT_ALIGN sz) = (unat sz + 3) div 4 * 4"
proof -
  assume a: "unat sz + 3 < 2 ^ 32"
  have "sz + 4 - 1 = sz + 3" by simp
  moreover have "unat (sz + 3) = unat sz + 3" using a by (simp add: unat_word_ariths)
  ultimately show ?thesis unfolding RT_ALIGN_def align_down_nat by (simp only:)
qed

lemma RT_ALIGN_wraps: "2 ^ 32 \<le> unat sz + 3 \<Longrightarrow> RT_ALIGN sz = 0"
proof -
  assume a: "2 ^ 32 \<le> unat sz + 3"
  have "unat (sz + 3) = (unat sz + 3) mod 2 ^ 32" by (simp add: unat_word_ariths)
  also have "\<dots> = unat sz + 3 - 2 ^ 32" using a unat_u32_less [of sz] by (simp add: mod_if le_mod_geq)
  finally have "unat (sz + 3) < 4" using unat_u32_less [of sz] by simp
  moreover have "sz + 4 - 1 = sz + 3" by simp
  ultimately have "unat (RT_ALIGN sz) = 0" unfolding RT_ALIGN_def align_down_nat by (simp only: div_less mult_0)
  then show ?thesis by (simp add: unat_eq_0)
qed

lemma first_free_less:
  assumes "chain m p b e xs" "\<not> list_all snd xs"
  shows "first_free b xs < e"
  using assms
proof (induction m p b e xs rule: chain.induct)
  case (2 m p b e n u bs)
  then show ?case using chain_end [of m b "b + n" e bs] by (cases u) auto
qed simp

definition block_size :: "u32 \<Rightarrow> nat" where
  "block_size sz = max 12 ((unat sz + 3) div 4 * 4)"

lemma malloc_spec:
  assumes "heap_ok s bs" "sz \<noteq> 0" "unat sz + 3 < 2 ^ 32" "block_size sz \<le> mem_size_aligned s"
    and "a_malloc 0 (mem_size_aligned s) (block_size sz) bs = Some (a, bs')"
  shows "\<exists>s'. rt_malloc sz s = Some (heap_ptr s + a + 12, s') \<and> heap_ok s' bs' \<and> kept (allocated 0 bs) (mem s) (mem s')
    \<and> heap_ptr s' = heap_ptr s \<and> mem_size_aligned s' = mem_size_aligned s"
proof -
  let ?n = "block_size sz"
  have n: "12 \<le> ?n" "4 dvd ?n" by (auto simp: block_size_def max_def)
  have al: "unat (RT_ALIGN sz) = (unat sz + 3) div 4 * 4" by (rule RT_ALIGN_nat [OF assms(3)])
  then have sz: "(if unat (RT_ALIGN sz) < MIN_SIZE_ALIGNED then MIN_SIZE_ALIGNED else unat (RT_ALIGN sz)) = ?n"
    "\<not> mem_size_aligned s < unat (RT_ALIGN sz)"
    using assms(4) by (auto simp: block_size_def MIN_SIZE_ALIGNED_def max_def split: if_splits)
  obtain xs k ys where b: "bs = xs @ (k, False) # ys" "a = extent xs" "?n + 12 \<le> k"
    "bs' = xs @ (if ?n + 36 \<le> k then (?n + 12, True) # (k - (?n + 12), False) # ys else (k, True) # ys)"
    using a_malloc_Some [OF assms(5)] by auto
  define w where "w = take_block a ?n s"
  note w = take_block_spec [OF assms(1) [unfolded b(1)] b(3) n b(4) w_def [unfolded b(2)]]
  have ok: "chain (mem s) 0 0 (heap_end s) bs" "lfree s = first_free 0 bs" "no_holes bs" "4 dvd heap_ptr s"
    using assms(1) by (auto simp: heap_ok_def)
  note h = chain_at [OF ok(1) [unfolded b(1)]]
  have xs: "chain (mem s) 0 0 a xs" using ok(1) by (simp add: b(1,2) chain_append)
  define r where "r = drop (length xs) bs'"
  have r: "bs' = xs @ r" "r \<noteq> []" "chain (mem w) (last_off 0 0 xs) a (heap_end w) r"
    using w(1,6) by (auto simp: r_def b(2,4) chain_append)
  have lf: "(if a = lfree w then do {
        lf \<leftarrow> next_free w (lfree w); c_assert (lf = heap_end w \<or> used (mem w) lf = 0); Some (w\<lparr>lfree := lf\<rparr>) } else Some w)
      = Some (w\<lparr>lfree := first_free 0 bs'\<rparr>)"
  proof (cases "list_all snd xs")
    case True
    then have "lfree w = a" "first_free 0 bs' = first_free a r" using w(9) ok(2) by (simp_all add: b(1,2) r(1) first_free_append)
    with next_free_chain [OF r(3)] first_free_used [OF w(1)] w(6) show ?thesis by simp
  next
    case False
    then have "lfree w = first_free 0 xs" "first_free 0 bs' = first_free 0 xs" using w(9) ok(2) by (simp_all add: b(1,2) r(1) first_free_append)
    with first_free_less [OF xs False] show ?thesis by auto
  qed
  have "heap_ok (w\<lparr>lfree := first_free 0 bs'\<rparr>) bs'"
    using w assms(1) ok(3) b(3) by (auto simp: heap_ok_def header_def b(1,4) no_holes_append no_holes_Cons)
  moreover have "kept (allocated 0 bs) (mem s) (mem w)"
    using kept_outside [of xs "[(k, False)]" "mem w" "mem s" ys] w(5) by (simp add: b(1) allocated_append)
  moreover have "(heap_ptr s + a + 12) mod 4 = 0" "(heap_ptr s + a) mod 4 = 0"
    using ok(4) h(8) by (simp_all add: b(2) mod_eq_0_iff_dvd)
  moreover have "a + 12 + ?n \<le> heap_end s" using h(7) b(2,3) by simp
  ultimately show ?thesis
    using assms(2,5) sz find_fit_spec [OF assms(1,4)] lf w(6-8)
    by (intro exI [of _ "w\<lparr>lfree := first_free 0 bs'\<rparr>"]) (simp add: rt_malloc_def SIZEOF_STRUCT_MEM_def flip: w_def)
qed

lemma malloc_none:
  assumes "heap_ok s bs" "unat sz + 3 < 2 ^ 32"
    and "mem_size_aligned s < block_size sz \<or> a_malloc 0 (mem_size_aligned s) (block_size sz) bs = None"
  shows "rt_malloc sz s = Some (RT_NULL, s)"
proof -
  have al: "unat (RT_ALIGN sz) = (unat sz + 3) div 4 * 4" by (rule RT_ALIGN_nat [OF assms(2)])
  have m: "12 \<le> mem_size_aligned s" using assms(1) by (simp add: heap_ok_def)
  show ?thesis
  proof (cases "mem_size_aligned s < unat (RT_ALIGN sz)")
    case False
    then have "block_size sz \<le> mem_size_aligned s" using m al by (simp add: block_size_def)
    moreover from this have "a_malloc 0 (mem_size_aligned s) (block_size sz) bs = None" using assms(3) by auto
    moreover have "(if unat (RT_ALIGN sz) < MIN_SIZE_ALIGNED then MIN_SIZE_ALIGNED else unat (RT_ALIGN sz)) = block_size sz"
      using al by (auto simp: block_size_def MIN_SIZE_ALIGNED_def max_def)
    ultimately show ?thesis using False find_fit_spec [OF assms(1)] by (simp add: rt_malloc_def)
  qed (simp add: rt_malloc_def)
qed

section \<open>Release\<close>

text \<open>Joining a free block with its neighbours, in memory and in the list.\<close>

definition behind :: "block list \<Rightarrow> nat \<times> block list" where
  "behind ys = (case ys of (k, False) # zs \<Rightarrow> (k, zs) | _ \<Rightarrow> (0, ys))"

definition ahead :: "block list \<Rightarrow> block list \<times> nat" where
  "ahead xs = (case behind (rev xs) of (j, zs) \<Rightarrow> (rev zs, j))"

text \<open>The state while a block is being released: only the free pointer may still be at a block that disappears.\<close>

definition heap_chain :: "heap \<Rightarrow> block list \<Rightarrow> bool" where
  "heap_chain s bs \<longleftrightarrow> chain (mem s) 0 0 (heap_end s) bs \<and> lfree s = first_free 0 bs
     \<and> used (mem s) (heap_end s) = 1 \<and> next_off (mem s) (heap_end s) = heap_end s \<and> heap_end s < 2 ^ 32"

definition same_heap :: "heap \<Rightarrow> heap \<Rightarrow> bool" where
  "same_heap s s' \<longleftrightarrow> heap_ptr s' = heap_ptr s \<and> heap_end s' = heap_end s \<and> mem_size_aligned s' = mem_size_aligned s
     \<and> used_mem s' = used_mem s \<and> max_mem s' = max_mem s"

lemma join_spec:
  assumes "heap_chain s (xs @ (k, False) # (k', False) # ys)" "c = extent xs" "d = c + k + k'"
    and "m' = set_prev d c (set_next c d (mem s))"
  shows "chain m' 0 0 (heap_end s) (xs @ (k + k', False) # ys)" "used m' (heap_end s) = 1" "next_off m' (heap_end s) = heap_end s"
    "first_free 0 (xs @ (k + k', False) # ys) = lfree s" "lfree s \<le> c"
    "\<And>i. i < c \<or> d + 12 \<le> i \<Longrightarrow> m' i = mem s i"
proof -
  have ch: "chain (mem s) 0 0 (heap_end s) (xs @ (k, False) # (k', False) # ys)" "heap_end s < 2 ^ 32"
    "lfree s = first_free 0 (xs @ (k, False) # (k', False) # ys)" "used (mem s) (heap_end s) = 1" "next_off (mem s) (heap_end s) = heap_end s"
    using assms(1) by (simp_all add: heap_chain_def)
  show "chain m' 0 0 (heap_end s) (xs @ (k + k', False) # ys)" using chain_join [OF ch(1,2) _ assms(3)] assms(2,4) by simp
  have x: "chain (mem s) 0 0 c xs" "16 \<le> k" "16 \<le> k'" "d + extent ys = heap_end s" "ys \<noteq> [] \<Longrightarrow> d + 16 \<le> heap_end s"
    using ch(1) chain_end [OF ch(1)] assms(2,3) by (auto simp: chain_append neq_Nil_conv)
  have f: "used m' (heap_end s) = used (mem s) (heap_end s) \<and> next_off m' (heap_end s) = next_off (mem s) (heap_end s)"
  proof (cases "ys = []")
    case True
    then have d: "d = heap_end s" using x(4) by simp
    have "header (set_next c d (mem s)) d = header (mem s) d" using x(2,3) assms(3) by (intro field_far) (simp add: apart_def)
    then show ?thesis by (simp add: assms(4) d header_eq)
  next
    case False
    then have "header m' (heap_end s) = header (mem s) (heap_end s)" using x(2,3,5) assms(3,4) by (simp add: apart_def)
    then show ?thesis by (simp add: header_eq)
  qed
  with ch(4,5) show "used m' (heap_end s) = 1" "next_off m' (heap_end s) = heap_end s" by simp_all
  show "first_free 0 (xs @ (k + k', False) # ys) = lfree s" by (simp add: ch(3) first_free_append)
  show "lfree s \<le> c" using first_free_less [OF x(1)] by (auto simp: ch(3) first_free_append assms(2))
  show "m' i = mem s i" if "i < c \<or> d + 12 \<le> i" for i using that x(2,3) assms(3) by (auto simp: assms(4) set_byte)
qed

lemma plug_forward_spec:
  assumes "heap_chain s (xs @ (k, False) # ys)" "c = extent xs"
  shows "heap_chain (plug_forward c s) (xs @ (k + fst (behind ys), False) # snd (behind ys))" "same_heap s (plug_forward c s)"
    "\<And>i. i < c \<or> c + k + fst (behind ys) + 12 \<le> i \<Longrightarrow> mem (plug_forward c s) i = mem s i"
proof -
  have ch: "chain (mem s) 0 0 (heap_end s) (xs @ (k, False) # ys)" "used (mem s) (heap_end s) = 1" using assms(1) by (simp_all add: heap_chain_def)
  note h = chain_at [OF ch(1), of c]
  have n: "next_off (mem s) c = c + k" "c \<noteq> c + k" using h(3,5) assms(2) by simp_all
  have "heap_chain (plug_forward c s) (xs @ (k + fst (behind ys), False) # snd (behind ys)) \<and> same_heap s (plug_forward c s)
    \<and> (\<forall>i. i < c \<or> c + k + fst (behind ys) + 12 \<le> i \<longrightarrow> mem (plug_forward c s) i = mem s i)"
  proof (cases "\<exists>k' ys'. ys = (k', False) # ys'")
    case False
    then have "used (mem s) (c + k) = 1"
    proof (cases ys)
      case Nil
      then show ?thesis using h(7) ch(2) assms(2) by simp
    next
      case (Cons y ys')
      then obtain k' where "ys = (k', True) # ys'" using False by (cases y) auto
      then show ?thesis using chain_at(2) [of "mem s" 0 0 "heap_end s" "xs @ [(k, False)]" k' True ys' "c + k"] ch(1) assms(2) by simp
    qed
    then have "plug_forward c s = s" using n by (simp add: plug_forward_def)
    moreover have "behind ys = (0, ys)" using False by (auto simp: behind_def split: list.splits bool.splits)
    ultimately show ?thesis using assms(1) by (simp add: same_heap_def)
  next
    case True
    then obtain k' ys' where y: "ys = (k', False) # ys'" by blast
    have h': "used (mem s) (c + k) = 0" "next_off (mem s) (c + k) = c + k + k'" "16 \<le> k'" "c + k \<noteq> heap_end s"
      using chain_at [of "mem s" 0 0 "heap_end s" "xs @ [(k, False)]" k' False ys' "c + k"] ch(1) assms(2) by (auto simp: y)
    note j = join_spec [OF assms(1) [unfolded y] assms(2) refl refl]
    have "lfree s \<noteq> c + k" using j(5) n(2) by auto
    moreover have "next_off (set_next c (c + k + k') (mem s)) (c + k) = c + k + k'"
      using h(5) h'(2) assms(2) by (simp add: next_far apart_def)
    ultimately have p: "plug_forward c s = s\<lparr>mem := set_prev (c + k + k') c (set_next c (c + k + k') (mem s))\<rparr>"
      using n h' by (simp add: plug_forward_def Let_def)
    show ?thesis using j assms(1) by (auto simp: p heap_chain_def same_heap_def behind_def y)
  qed
  then show "heap_chain (plug_forward c s) (xs @ (k + fst (behind ys), False) # snd (behind ys))" "same_heap s (plug_forward c s)"
    "\<And>i. i < c \<or> c + k + fst (behind ys) + 12 \<le> i \<Longrightarrow> mem (plug_forward c s) i = mem s i" by blast+
qed

lemma ahead_cases:
  obtains xs' j where "xs = xs' @ [(j, False)]" "ahead xs = (xs', j)" | "xs = [] \<or> snd (last xs)" "ahead xs = (xs, 0)"
proof (cases xs rule: rev_cases)
  case Nil
  then show ?thesis using that(2) by (simp add: ahead_def behind_def)
next
  case (snoc ws x)
  then show ?thesis using that by (cases x; cases "snd x") (simp_all add: ahead_def behind_def)
qed

lemma behind_cases:
  obtains k ys' where "ys = (k, False) # ys'" "behind ys = (k, ys')" | "ys = [] \<or> snd (hd ys)" "behind ys = (0, ys)"
proof (cases ys)
  case Nil
  then show ?thesis using that(2) by (simp add: behind_def)
next
  case (Cons y ws)
  then show ?thesis using that by (cases y; cases "snd y") (simp_all add: behind_def)
qed

lemma plug_backward_spec:
  assumes "heap_chain s (xs @ (k, False) # ys)" "c = extent xs"
  shows "heap_chain (plug_backward c s) (fst (ahead xs) @ (snd (ahead xs) + k, False) # ys)" "same_heap s (plug_backward c s)"
    "\<And>i. i < extent (fst (ahead xs)) \<or> c + k + 12 \<le> i \<Longrightarrow> mem (plug_backward c s) i = mem s i"
proof -
  have ch: "chain (mem s) 0 0 (heap_end s) (xs @ (k, False) # ys)" using assms(1) by (simp_all add: heap_chain_def)
  note h = chain_at [OF ch, of c]
  have "heap_chain (plug_backward c s) (fst (ahead xs) @ (snd (ahead xs) + k, False) # ys) \<and> same_heap s (plug_backward c s)
    \<and> (\<forall>i. i < extent (fst (ahead xs)) \<or> c + k + 12 \<le> i \<longrightarrow> mem (plug_backward c s) i = mem s i)"
  proof (cases xs rule: ahead_cases)
    case (1 xs' j)
    have b: "prev_off (mem s) c = extent xs'" "next_off (mem s) c = c + k" "c = extent xs' + j" using h(3,4) assms(2) 1(1) by simp_all
    have p: "used (mem s) (extent xs') = 0" "16 \<le> j" "next_off (mem s) (extent xs') = extent xs' + j"
      using chain_at [of "mem s" 0 0 "heap_end s" xs' j False "(k, False) # ys" "extent xs'"] ch 1(1) by simp_all
    have "heap_chain s (xs' @ (j, False) # (k, False) # ys)" using assms(1) 1(1) by simp
    note jn = join_spec [OF this refl refl refl]
    have "next_off (set_next (extent xs') (c + k) (mem s)) c = c + k"
      using b p(2) by (simp add: next_far apart_def)
    then have "plug_backward c s = s\<lparr>mem := set_prev (c + k) (extent xs') (set_next (extent xs') (c + k) (mem s))\<rparr>"
      using b p jn(5) by (simp add: plug_backward_def Let_def)
    then show ?thesis unfolding 1(2) fst_conv snd_conv using jn assms(1) b(3) by (auto simp: heap_chain_def same_heap_def 1(1))
  next
    case 2
    have "plug_backward c s = s"
    proof (cases xs rule: rev_cases)
      case Nil
      then show ?thesis using h(4) assms(2) by (simp add: plug_backward_def)
    next
      case (snoc ws x)
      then obtain j where x: "xs = ws @ [(j, True)]" using 2(1) by (cases x) auto
      then have "prev_off (mem s) c = extent ws" "used (mem s) (extent ws) = 1"
        using h(4) assms(2) chain_at(2) [of "mem s" 0 0 "heap_end s" ws j True "(k, False) # ys" "extent ws"] ch by simp_all
      then show ?thesis by (simp add: plug_backward_def)
    qed
    then show ?thesis using assms(1) 2(2) by (simp add: same_heap_def)
  qed
  then show "heap_chain (plug_backward c s) (fst (ahead xs) @ (snd (ahead xs) + k, False) # ys)" "same_heap s (plug_backward c s)"
    "\<And>i. i < extent (fst (ahead xs)) \<or> c + k + 12 \<le> i \<Longrightarrow> mem (plug_backward c s) i = mem s i" by blast+
qed

lemma ahead_extent: "extent (fst (ahead xs)) + snd (ahead xs) = extent xs"
  by (cases xs rule: ahead_cases) auto

lemma plug_holes_spec:
  assumes "heap_chain s (xs @ (k, False) # ys)" "c = extent xs"
  shows "\<exists>s'. plug_holes c s = Some s' \<and> heap_chain s' (fst (ahead xs) @ (snd (ahead xs) + k + fst (behind ys), False) # snd (behind ys)) \<and> same_heap s s'
    \<and> (\<forall>i. i < extent (fst (ahead xs)) \<or> c + k + fst (behind ys) + 12 \<le> i \<longrightarrow> mem s' i = mem s i)"
proof -
  have ch: "chain (mem s) 0 0 (heap_end s) (xs @ (k, False) # ys)" using assms(1) by (simp_all add: heap_chain_def)
  note h = chain_at [OF ch, of c]
  note f = plug_forward_spec [OF assms]
  note b = plug_backward_spec [OF f(1) assms(2)]
  have "plug_holes c s = Some (plug_backward c (plug_forward c s))"
    using h(2,5,7) assms(2) by (auto simp: plug_holes_def)
  moreover have "same_heap s (plug_backward c (plug_forward c s))" using f(2) b(2) by (simp add: same_heap_def)
  moreover have "mem (plug_backward c (plug_forward c s)) i = mem s i" if "i < extent (fst (ahead xs)) \<or> c + k + fst (behind ys) + 12 \<le> i" for i
    using that f(3) [of i] b(3) [of i] ahead_extent [of xs] assms(2) by auto
  ultimately show ?thesis using b(1) by (simp add: add.assoc)
qed

text \<open>This is joining free neighbours in the list.\<close>

lemma coalesce_single: "ys = [] \<or> snd (hd ys) \<Longrightarrow> no_holes ys \<Longrightarrow> coalesce ((k, False) # ys) = (k, False) # ys"
  by (rule coalesce_id) (auto simp: no_holes_Cons)

lemma coalesce_free: "no_holes ys \<Longrightarrow> coalesce ((k, False) # ys) = (k + fst (behind ys), False) # snd (behind ys)"
  by (cases ys rule: behind_cases) (auto simp: coalesce_single no_holes_Cons)

lemma coalesce_after_used: "xs = [] \<or> snd (last xs) \<Longrightarrow> no_holes xs \<Longrightarrow> coalesce (xs @ zs) = xs @ coalesce zs"
proof (cases xs rule: rev_cases)
  case (snoc ws x)
  assume a: "xs = [] \<or> snd (last xs)" "no_holes xs"
  then obtain j where "xs = ws @ [(j, True)]" using snoc by (cases x) auto
  with a(2) show ?thesis using coalesce_used [of ws j zs] by (simp add: no_holes_append coalesce_id)
qed simp

lemma coalesce_merge:
  assumes "no_holes xs" "no_holes ys"
  shows "coalesce (xs @ (k, False) # ys) = fst (ahead xs) @ (snd (ahead xs) + k + fst (behind ys), False) # snd (behind ys)"
    "no_holes (coalesce (xs @ (k, False) # ys))"
proof -
  show e: "coalesce (xs @ (k, False) # ys) = fst (ahead xs) @ (snd (ahead xs) + k + fst (behind ys), False) # snd (behind ys)"
  proof (cases xs rule: ahead_cases)
    case (1 xs' j)
    have "xs' = [] \<or> snd (last xs')" "no_holes xs'" using assms(1) 1(1) by (auto simp: no_holes_append)
    from coalesce_after_used [OF this] show ?thesis unfolding 1(2) fst_conv snd_conv
      using coalesce_free [OF assms(2), of "j + k"] by (simp add: 1(1))
  next
    case 2
    then show ?thesis using coalesce_after_used [OF 2(1) assms(1)] coalesce_free [OF assms(2)] by simp
  qed
  have b: "no_holes ((n, False) # snd (behind ys))" for n using assms(2) by (cases ys rule: behind_cases) (auto simp: no_holes_Cons)
  have "no_holes (fst (ahead xs)) \<and> (fst (ahead xs) \<noteq> [] \<longrightarrow> snd (last (fst (ahead xs))))"
    using assms(1) by (cases xs rule: ahead_cases) (auto simp: no_holes_append)
  with b show "no_holes (coalesce (xs @ (k, False) # ys))" unfolding e by (auto simp: no_holes_append)
qed

lemma release_at: "chain m p b e (xs @ (k, u) # ys) \<Longrightarrow> release (b + extent xs) b (xs @ (k, u) # ys) = xs @ (k, False) # ys"
proof (induction xs arbitrary: p b)
  case (Cons x xs)
  obtain n v where x: "x = (n, v)" by (cases x)
  have "chain m b (b + n) e (xs @ (k, u) # ys)" "16 \<le> n" using Cons.prems x by simp_all
  then show ?case using Cons.IH [of b "b + n"] by (simp add: x add.assoc)
qed simp

lemma allocated_split:
  "(a, k) \<in> set (allocated b bs) \<Longrightarrow> \<exists>xs ys. bs = xs @ (k, True) # ys \<and> a = b + extent xs"
proof (induction bs arbitrary: b)
  case (Cons x bs)
  obtain n u where x: "x = (n, u)" by (cases x)
  show ?case
  proof (cases "u \<and> a = b \<and> k = n")
    case True
    then show ?thesis using x by (intro exI [of _ "[]"] exI [of _ bs]) simp
  next
    case False
    then have "(a, k) \<in> set (allocated (b + n) bs)" using Cons.prems x by (auto split: if_splits)
    from Cons.IH [OF this] obtain xs ys where "bs = xs @ (k, True) # ys" "a = b + n + extent xs" by blast
    then show ?thesis using x by (intro exI [of _ "x # xs"] exI [of _ ys]) simp
  qed
qed simp

lemma ahead_allocated: "allocated b (fst (ahead xs)) = allocated b xs"
  by (cases xs rule: ahead_cases) (auto simp: allocated_append)

lemma behind_allocated: "allocated (b + fst (behind ys)) (snd (behind ys)) = allocated b ys"
  by (cases ys rule: behind_cases) auto

lemma behind_in_use: "in_use (snd (behind ys)) = in_use ys"
  by (cases ys rule: behind_cases) auto

lemma ahead_in_use: "in_use (fst (ahead xs)) = in_use xs"
  by (cases xs rule: ahead_cases) auto

lemma free_spec:
  assumes "heap_ok s bs" "(a, k) \<in> set (allocated 0 bs)"
  shows "\<exists>s'. rt_free (heap_ptr s + a + 12) s = Some s' \<and> heap_ok s' (a_free a bs)
    \<and> set (allocated 0 (a_free a bs)) = set (allocated 0 bs) - {(a, k)} \<and> kept (allocated 0 (a_free a bs)) (mem s) (mem s')
    \<and> heap_ptr s' = heap_ptr s \<and> mem_size_aligned s' = mem_size_aligned s"
proof -
  from allocated_split [OF assms(2)] obtain xs ys where b: "bs = xs @ (k, True) # ys" "a = extent xs" by auto
  have ok: "chain (mem s) 0 0 (heap_end s) (xs @ (k, True) # ys)" "lfree s = first_free 0 (xs @ (k, True) # ys)" "no_holes xs" "no_holes ys"
    "used (mem s) (heap_end s) = 1" "next_off (mem s) (heap_end s) = heap_end s" "used_mem s = in_use xs + k + in_use ys" "4 dvd heap_ptr s"
    "heap_end s < 2 ^ 32"
    using assms(1) by (auto simp: heap_ok_def b(1) no_holes_append no_holes_Cons)
  note h = chain_at [OF ok(1), of a]
  define m1 where "m1 = set_magic a HEAP_MAGIC (set_used a (if False then 1 else 0) (mem s))"
  define s1 where "s1 = (if a < lfree s then s\<lparr>mem := m1, lfree := a, used_mem := used_mem s - k\<rparr> else s\<lparr>mem := m1, used_mem := used_mem s - k\<rparr>)"
  have s1: "mem s1 = m1" "lfree s1 = (if a < lfree s then a else lfree s)" "used_mem s1 = used_mem s - k" "heap_ptr s1 = heap_ptr s"
    "heap_end s1 = heap_end s" "mem_size_aligned s1 = mem_size_aligned s" "max_mem s1 = max_mem s" by (simp_all add: s1_def)
  have xs: "chain (mem s) 0 0 a xs" using ok(1) by (simp add: b(2) chain_append)
  have "header m1 (heap_end s) = header (mem s) (heap_end s)" using h(5,7) b(2) by (simp add: m1_def apart_def)
  moreover have "chain m1 0 0 (heap_end s) (xs @ (k, False) # ys)" unfolding m1_def by (rule chain_mark [OF ok(1)]) (simp add: b(2))
  moreover have "(if a < lfree s then a else lfree s) = first_free 0 (xs @ (k, False) # ys)"
  proof (cases "list_all snd xs")
    case True
    have "b \<le> first_free b zs" for b zs by (induction b zs rule: first_free.induct) auto
    from this [of "a + k" ys] show ?thesis using True ok(2) h(5) b(2) by (auto simp: first_free_append)
  next
    case False
    then show ?thesis using first_free_less [OF xs] ok(2) by (auto simp: first_free_append)
  qed
  ultimately have hc: "heap_chain s1 (xs @ (k, False) # ys)"
    using ok(5,6,9) by (simp add: heap_chain_def s1 header_eq)
  from plug_holes_spec [OF hc b(2)] obtain s' where s': "plug_holes a s1 = Some s'" "same_heap s1 s'"
    "heap_chain s' (fst (ahead xs) @ (snd (ahead xs) + k + fst (behind ys), False) # snd (behind ys))"
    "\<And>i. i < extent (fst (ahead xs)) \<or> a + k + fst (behind ys) + 12 \<le> i \<Longrightarrow> mem s' i = m1 i"
    by (auto simp: s1)
  have af: "a_free a bs = fst (ahead xs) @ (snd (ahead xs) + k + fst (behind ys), False) # snd (behind ys)" "no_holes (a_free a bs)"
    using release_at [OF ok(1)] coalesce_merge [OF ok(3,4), of k] by (simp_all add: a_free_def b)
  have al: "allocated 0 (a_free a bs) = allocated 0 xs @ allocated (a + k) ys"
  proof -
    have e: "extent (fst (ahead xs)) + (snd (ahead xs) + k + fst (behind ys)) = a + k + fst (behind ys)" using ahead_extent [of xs] b(2) by simp
    show ?thesis unfolding af(1) by (simp add: allocated_append ahead_allocated e behind_allocated)
  qed
  have u: "used_mem s1 = in_use (a_free a bs)" using ok(7) by (simp add: s1 af(1) ahead_in_use behind_in_use)
  have run: "rt_free (heap_ptr s + a + 12) s = Some s'"
  proof -
    have "(heap_ptr s + a + 12) mod 4 = 0" using ok(8) h(8) b(2) by (simp add: mod_eq_0_iff_dvd)
    moreover have "sub32 (next_off m1 a) a = k" "sub32 (used_mem s) k = used_mem s - k" using h(3) b(2) ok(7) by (simp_all add: m1_def)
    moreover have "heap_ptr s + a + 12 < heap_ptr s + heap_end s" using h(5,7) b(2) by linarith
    ultimately show ?thesis
      using h(1,2) b(2) s'(1) by (simp add: rt_free_def RT_NULL_def SIZEOF_STRUCT_MEM_def Let_def s1_def m1_def split: if_splits)
  qed
  have "heap_ok s' (a_free a bs)"
    using assms(1) s'(2,3) af u by (auto simp: heap_ok_def heap_chain_def same_heap_def s1)
  moreover have "kept (allocated 0 (a_free a bs)) (mem s) (mem s')"
  proof -
    have "mem s' i = mem s i" if "i < extent (fst (ahead xs)) \<or> extent (fst (ahead xs) @ [(snd (ahead xs) + k + fst (behind ys), False)]) + 12 \<le> i" for i
      using that s'(4) [of i] ahead_extent [of xs] b(2) h(5) by (auto simp: m1_def set_byte)
    then have "kept (allocated 0 (fst (ahead xs)) @ allocated (extent (fst (ahead xs) @ [(snd (ahead xs) + k + fst (behind ys), False)])) (snd (behind ys)))
      (mem s) (mem s')" by (rule kept_outside)
    then show ?thesis by (simp add: af(1) allocated_append)
  qed
  moreover have "set (allocated 0 (a_free a bs)) = set (allocated 0 bs) - {(a, k)}"
  proof -
    have "allocated 0 bs = allocated 0 xs @ (a, k) # allocated (a + k) ys" by (simp add: b allocated_append)
    moreover have "(a, k) \<notin> set (allocated 0 xs)" "(a, k) \<notin> set (allocated (a + k) ys)" using h(5) b(2) by (auto dest: allocated_bounds)
    ultimately show ?thesis by (auto simp: al)
  qed
  ultimately show ?thesis using run s'(2) by (auto simp: same_heap_def s1)
qed

lemma allocated_apart:
  "(a, k) \<in> set (allocated b bs) \<Longrightarrow> (a', k') \<in> set (allocated b bs) \<Longrightarrow> (a, k) = (a', k') \<or> a + k \<le> a' \<or> a' + k' \<le> a"
  by (induction bs arbitrary: b) (fastforce dest: allocated_bounds split: if_splits)+

lemma a_malloc_allocated:
  assumes "a_malloc 0 z n bs = Some (a, bs')" "chain m 0 0 e bs"
  shows "\<exists>k. n + 12 \<le> k \<and> set (allocated 0 bs') = insert (a, k) (set (allocated 0 bs)) \<and> (\<forall>j. (a, j) \<notin> set (allocated 0 bs))
    \<and> 4 dvd a \<and> a + k \<le> e"
proof -
  obtain xs k ys where b: "bs = xs @ (k, False) # ys" "a = extent xs" "n + 12 \<le> k"
    "bs' = xs @ (if n + 36 \<le> k then (n + 12, True) # (k - (n + 12), False) # ys else (k, True) # ys)"
    using a_malloc_Some [OF assms(1)] by auto
  note h = chain_at [OF assms(2) [unfolded b(1)], of a]
  define j where "j = (if n + 36 \<le> k then n + 12 else k)"
  have "set (allocated 0 bs') = insert (a, j) (set (allocated 0 bs))"
    by (auto simp: b j_def allocated_append)
  moreover have "(a, i) \<notin> set (allocated 0 bs)" for i
  proof
    assume "(a, i) \<in> set (allocated 0 bs)"
    then have "(a, i) \<in> set (allocated 0 xs) \<or> a + k \<le> a" by (auto simp: b allocated_append dest: allocated_bounds)
    then have i: "(a, i) \<in> set (allocated 0 xs)" using h(5) b(2) by auto
    from allocated_split [OF this] obtain us vs where "xs = us @ (i, True) # vs" "a = extent us" by auto
    moreover from this have "16 \<le> i" using assms(2) by (simp add: b(1) chain_append)
    ultimately show False using b(2) by simp
  qed
  moreover have "n + 12 \<le> j" "a + j \<le> e" "4 dvd a" using b(2,3) h(7,8) by (auto simp: j_def)
  ultimately show ?thesis by blast
qed

lemma a_malloc_None:
  "a_malloc b z n (xs @ (k, False) # ys) = None \<Longrightarrow> n + 12 \<le> k \<Longrightarrow> z \<le> b + extent xs + n"
proof (induction xs arbitrary: b)
  case (Cons x xs)
  obtain j u where x: "x = (j, u)" by (cases x)
  show ?case
  proof (cases "\<not> u \<and> n + 12 \<le> j \<and> b + n < z")
    case False
    then have "a_malloc (b + j) z n (xs @ (k, False) # ys) = None" using Cons.prems(1) x by (auto split: if_splits)
    from Cons.IH [OF this Cons.prems(2)] show ?thesis using x by simp
  qed (use Cons.prems(1) x in auto)
qed (auto split: if_splits)

lemma block_size_ge: "unat sz \<le> block_size sz"
  by (simp add: block_size_def)

lemma malloc_total:
  assumes "heap_ok s bs" "unat sz + 3 < 2 ^ 32"
  shows "\<exists>p s' bs'. rt_malloc sz s = Some (p, s') \<and> heap_ok s' bs' \<and> kept (allocated 0 bs) (mem s) (mem s') \<and> heap_ptr s' = heap_ptr s
    \<and> mem_size_aligned s' = mem_size_aligned s
    \<and> (if p = RT_NULL then s' = s \<and> bs' = bs
       else \<exists>a k. p = heap_ptr s + a + 12 \<and> unat sz + 12 \<le> k \<and> set (allocated 0 bs') = insert (a, k) (set (allocated 0 bs))
         \<and> (\<forall>j. (a, j) \<notin> set (allocated 0 bs)) \<and> 4 dvd p \<and> a + k \<le> heap_end s)"
proof (cases "sz \<noteq> 0 \<and> block_size sz \<le> mem_size_aligned s \<and> a_malloc 0 (mem_size_aligned s) (block_size sz) bs \<noteq> None")
  case True
  then obtain a bs' where a: "a_malloc 0 (mem_size_aligned s) (block_size sz) bs = Some (a, bs')" by auto
  have ch: "chain (mem s) 0 0 (heap_end s) bs" "4 dvd heap_ptr s" using assms(1) by (auto simp: heap_ok_def)
  from malloc_spec [OF assms(1) _ assms(2) _ a] True obtain s' where s': "rt_malloc sz s = Some (heap_ptr s + a + 12, s')" "heap_ok s' bs'"
    "kept (allocated 0 bs) (mem s) (mem s')" "heap_ptr s' = heap_ptr s" "mem_size_aligned s' = mem_size_aligned s" by blast
  obtain k where k: "block_size sz + 12 \<le> k" "set (allocated 0 bs') = insert (a, k) (set (allocated 0 bs))" "\<forall>j. (a, j) \<notin> set (allocated 0 bs)"
    "4 dvd a" "a + k \<le> heap_end s" using a_malloc_allocated [OF a ch(1)] by blast
  have "unat sz + 12 \<le> k" using k(1) block_size_ge [of sz] by simp
  moreover have "4 dvd heap_ptr s + a + 12" using ch(2) k(4) by simp
  ultimately show ?thesis using s' k(2,3,5)
    by (intro exI [of _ "heap_ptr s + a + 12"] exI [of _ s'] exI [of _ bs']) (auto simp: RT_NULL_def)
next
  case False
  have "rt_malloc sz s = Some (RT_NULL, s)"
  proof (cases "sz = 0")
    case True
    then show ?thesis by (simp add: rt_malloc_def)
  next
    case nz: False
    then show ?thesis using False by (intro malloc_none [OF assms]) auto
  qed
  then show ?thesis using assms(1) by (auto simp: kept_def)
qed

lemma init_ok:
  assumes "used_mem s = 0" "unat (RT_ALIGN begin_addr) + 36 \<le> unat (RT_ALIGN_DOWN end_addr)"
  shows "heap_ok (rt_system_heap_init begin_addr end_addr s)
    [(unat (RT_ALIGN_DOWN end_addr) - unat (RT_ALIGN begin_addr) - 12, False)]"
proof -
  define b where "b = unat (RT_ALIGN begin_addr)"
  define f where "f = unat (RT_ALIGN_DOWN end_addr)"
  define e where "e = f - b - 12"
  have bf: "b + 36 \<le> f" "f < 2 ^ 32" "4 dvd b" "4 dvd f"
    using assms(2) unat_u32_less [of "RT_ALIGN_DOWN end_addr"] align_dvd by (simp_all add: b_def f_def)
  have e: "24 \<le> e" "4 dvd e" "b + e + 12 = f" "f - b - 24 + 12 = e" "e < 2 ^ 32" using bf by (auto simp: e_def dvd_diff_nat)
  define m0 where "m0 = set_used 0 0 (set_prev 0 0 (set_next 0 e (set_magic 0 HEAP_MAGIC (mem s))))"
  define m where "m = set_prev e e (set_next e e (set_used e 1 (set_magic e HEAP_MAGIC m0)))"
  have s: "rt_system_heap_init begin_addr end_addr s = s\<lparr>mem := m, heap_ptr := b, heap_end := e, lfree := 0, mem_size_aligned := e - 12\<rparr>"
    using bf(1) e(4) by (simp add: rt_system_heap_init_def Let_def SIZEOF_STRUCT_MEM_def m_def m0_def flip: b_def f_def)
  have "header m 0 = header m0 0" using e(1) by (simp add: m_def apart_def)
  then have "header m 0 = (HEAP_MAGIC, 0, e, 0)" using e(5) by (simp add: m0_def header_def)
  moreover have "used m e = 1" "next_off m e = e" using e(5) by (simp_all add: m_def)
  ultimately have "heap_ok (rt_system_heap_init begin_addr end_addr s) [(e, False)]" using e bf assms(1)
    by (simp add: heap_ok_def s)
  then show ?thesis by (simp only: e_def b_def f_def)
qed

text \<open>256 bytes of memory at 0x20000000.\<close>

definition demo_heap :: heap where
  "demo_heap = rt_system_heap_init 0x20000000 0x20000100
     \<lparr>mem = (\<lambda>_. 0), heap_ptr = 0, heap_end = 0, lfree = 0, mem_size_aligned = 0, used_mem = 0, max_mem = 0\<rparr>"

lemma demo_heap_ok: "heap_ok demo_heap [(244, False)]"
proof -
  have "unat (RT_ALIGN 0x20000000) = 0x20000000" "unat (RT_ALIGN_DOWN 0x20000100) = 0x20000100"
    by (simp_all add: RT_ALIGN_def RT_ALIGN_DOWN_def)
  then show ?thesis unfolding demo_heap_def
    using init_ok [of "\<lparr>mem = (\<lambda>_. 0), heap_ptr = 0, heap_end = 0, lfree = 0, mem_size_aligned = 0, used_mem = 0, max_mem = 0\<rparr>"
        "0x20000000" "0x20000100"] by simp
qed

section \<open>Shrinking\<close>

text \<open>In a heap without free memory a block that is made smaller gives nothing back.\<close>

lemma shrink_full:
  assumes "heap_ok s bs" "list_all snd bs" "(a, k) \<in> set (allocated 0 bs)" "RT_ALIGN sz = sz" "0 < sz" "unat sz + 36 < k"
  shows "\<exists>s' xs ys. rt_realloc (heap_ptr s + a + 12) sz s = Some (heap_ptr s + a + 12, s') \<and> bs = xs @ (k, True) # ys
    \<and> chain (mem s') 0 0 (heap_end s') (xs @ (unat sz + 12, True) # (k - (unat sz + 12), False) # ys) \<and> lfree s' = heap_end s'
    \<and> heap_end s' = heap_end s \<and> mem_size_aligned s' = mem_size_aligned s \<and> a = extent xs"
proof -
  from allocated_split [OF assms(3)] obtain xs ys where b: "bs = xs @ (k, True) # ys" "a = extent xs" by auto
  have ok: "chain (mem s) 0 0 (heap_end s) (xs @ (k, True) # ys)" "heap_end s = mem_size_aligned s + 12" "heap_end s + 12 < 2 ^ 32"
    "lfree s = heap_end s" "used (mem s) (heap_end s) = 1"
    using assms(1,2) chain_end [of "mem s" 0 0 "heap_end s" bs] first_free_append [of 0 bs "[]"] by (auto simp: heap_ok_def b(1))
  note h = chain_at [OF ok(1), of a]
  let ?n = "unat sz"
  have nz: "sz \<noteq> 0" using assms(5) by auto
  have n: "4 dvd ?n" "4 \<le> ?n" using align_dvd(1) [of sz] assms(4,5) by (auto simp: word_gt_0_no dvd_imp_le unat_gt_0)
  define s1 where "s1 = s\<lparr>used_mem := sub32 (used_mem s) (k - 12 - ?n)\<rparr>"
  define s2 where "s2 = split_block a ?n s1"
  have s2: "chain (mem s2) 0 0 (heap_end s) (xs @ (?n + 12, True) # (k - (?n + 12), False) # ys)"
    "header (mem s2) (heap_end s) = header (mem s) (heap_end s)" "s2 = s1\<lparr>mem := mem s2\<rparr>"
    using split_block_spec [of s1 xs k True ys ?n] ok n assms(6) by (simp_all add: s1_def s2_def b(2))
  have f: "heap_end s2 = heap_end s" "lfree s2 = heap_end s" "mem_size_aligned s2 = mem_size_aligned s"
    using ok(4) by (subst s2(3), simp add: s1_def)+
  let ?d = "a + (?n + 12)"
  have d: "used (mem s2) ?d = 0" "next_off (mem s2) ?d = a + k" "prev_off (mem s2) ?d = a" "?d < heap_end s"
    using chain_at [of "mem s2" 0 0 "heap_end s" "xs @ [(?n + 12, True)]" "k - (?n + 12)" False ys ?d] s2(1) assms(6) b(2) by simp_all
  have "used (mem s2) (a + k) = 1"
  proof (cases ys)
    case Nil
    then show ?thesis using h(7) b(2) s2(2) ok(5) by (simp add: header_eq)
  next
    case (Cons y ys')
    then obtain j where "ys = (j, True) # ys'" using assms(2) b(1) by (cases y) simp
    then show ?thesis
      using chain_at(2) [of "mem s2" 0 0 "heap_end s" "xs @ [(?n + 12, True), (k - (?n + 12), False)]" j True ys' "a + k"] s2(1) assms(6) b(2) by simp
  qed
  moreover have "used (mem s2) a = 1" using chain_at(2) [OF s2(1), of a] b(2) by simp
  ultimately have "plug_holes ?d s2 = Some s2" using d f(1) by (simp add: plug_holes_def plug_forward_def plug_backward_def)
  moreover have "sub32 (sub32 (next_off (mem s) a) a) 12 = k - 12" "a + 12 < heap_end s" "?n \<le> mem_size_aligned s" "add32 (add32 ?n 12) 12 < k - 12"
    "k - 12 \<noteq> ?n" "add32 (add32 a 12) ?n = ?d"
    using h(3,5,7) b(2) assms(6) ok(2,3) by auto
  ultimately have "rt_realloc (heap_ptr s + a + 12) sz s = Some (heap_ptr s + a + 12, s2)"
    using assms(4) nz by (simp add: rt_realloc_def RT_NULL_def SIZEOF_STRUCT_MEM_def MIN_SIZE_def s1_def s2_def)
  then show ?thesis using s2(1) f b by (intro exI [of _ s2] exI [of _ xs] exI [of _ ys]) simp
qed

lemma end_finds_nothing:
  assumes "lfree s = heap_end s" "heap_end s = mem_size_aligned s + 12" "12 \<le> mem_size_aligned s"
  shows "rt_malloc sz s = Some (RT_NULL, s)"
proof -
  have "find_fit s n (lfree s) = Some None" if "n \<le> mem_size_aligned s" for n
  proof -
    have "\<not> lfree s < sub32 (mem_size_aligned s) n" using that assms(1,2) by simp
    then show ?thesis by (subst find_fit.simps) simp
  qed
  then show ?thesis using assms(3) by (auto simp: rt_malloc_def MIN_SIZE_ALIGNED_def)
qed

lemma refused_fit:
  assumes "heap_ok s bs" "0 < sz" "unat sz + 3 < 2 ^ 32" "rt_malloc sz s = Some (RT_NULL, s')" "bs = xs @ (k, False) # ys"
  shows "k < block_size sz + 12 \<or> extent xs + k = heap_end s \<and> k = block_size sz + 12"
proof -
  have ok: "chain (mem s) 0 0 (heap_end s) (xs @ (k, False) # ys)" "heap_end s = mem_size_aligned s + 12" using assms(1,5) by (auto simp: heap_ok_def)
  note e = chain_at(7) [OF ok(1), of "extent xs"]
  show ?thesis
  proof (cases "block_size sz \<le> mem_size_aligned s")
    case True
    have nz: "sz \<noteq> 0" using assms(2) by auto
    have "a_malloc 0 (mem_size_aligned s) (block_size sz) bs = None"
      using malloc_spec [OF assms(1) nz assms(3) True] assms(4) by (cases "a_malloc 0 (mem_size_aligned s) (block_size sz) bs") (auto simp: RT_NULL_def)
    with a_malloc_None [of 0 "mem_size_aligned s" "block_size sz" xs k ys] assms(5) e ok(2) show ?thesis by auto
  next
    case False
    then show ?thesis using e ok(2) by auto
  qed
qed

lemma shrunk_memory_lost:
  assumes "heap_ok s bs" "list_all snd bs" "(a, k) \<in> set (allocated 0 bs)" "RT_ALIGN sz = sz" "0 < sz" "unat sz + 36 < k"
  shows "\<exists>s'. rt_realloc (heap_ptr s + a + 12) sz s = Some (heap_ptr s + a + 12, s')
    \<and> used (mem s') (a + (unat sz + 12)) = 0 \<and> next_off (mem s') (a + (unat sz + 12)) = a + k \<and> (\<forall>n. rt_malloc n s' = Some (RT_NULL, s'))"
proof -
  from shrink_full [OF assms] obtain s' xs ys where s': "rt_realloc (heap_ptr s + a + 12) sz s = Some (heap_ptr s + a + 12, s')"
    "chain (mem s') 0 0 (heap_end s') (xs @ (unat sz + 12, True) # (k - (unat sz + 12), False) # ys)" "lfree s' = heap_end s'"
    "heap_end s' = heap_end s" "mem_size_aligned s' = mem_size_aligned s" "a = extent xs" by blast
  have "heap_end s' = mem_size_aligned s' + 12" "12 \<le> mem_size_aligned s'" using assms(1) s'(4,5) by (auto simp: heap_ok_def)
  with end_finds_nothing [OF s'(3)] have "rt_malloc n s' = Some (RT_NULL, s')" for n by blast
  moreover have "used (mem s') (a + (unat sz + 12)) = 0" "next_off (mem s') (a + (unat sz + 12)) = a + k"
    using chain_at [of "mem s'" 0 0 "heap_end s'" "xs @ [(unat sz + 12, True)]" "k - (unat sz + 12)" False ys "a + (unat sz + 12)"] s'(2,6) assms(6) by simp_all
  ultimately show ?thesis using s'(1) by blast
qed

text \<open>A request that wraps when it is rounded up is served with the smallest block.\<close>

lemma wrapped_request:
  assumes "heap_ok s bs" "2 ^ 32 \<le> unat sz + 3" "a_malloc 0 (mem_size_aligned s) 12 bs = Some (a, bs')"
  shows "\<exists>s'. rt_malloc sz s = Some (heap_ptr s + a + 12, s') \<and> heap_ok s' bs'"
proof -
  have z: "RT_ALIGN sz = 0" by (rule RT_ALIGN_wraps [OF assms(2)])
  have nz: "sz \<noteq> 0" using assms(2) by auto
  have "RT_ALIGN 1 = 4" by (simp add: RT_ALIGN_def)
  then have "rt_malloc sz s = rt_malloc 1 s" using z nz assms(1) by (simp add: rt_malloc_def MIN_SIZE_ALIGNED_def heap_ok_def)
  moreover have "block_size 1 = 12" by (simp add: block_size_def)
  moreover have "12 \<le> mem_size_aligned s" using assms(1) by (simp add: heap_ok_def)
  ultimately show ?thesis using malloc_spec [OF assms(1), of 1 a bs'] assms(3) by auto
qed

lemma malloc_free_list:
  assumes "a_malloc 0 z n bs = Some (a, bs')" "chain m 0 0 e bs'" "no_holes bs"
  shows "a_free a bs' = bs"
proof -
  obtain xs k ys where b: "bs = xs @ (k, False) # ys" "a = extent xs" "n + 12 \<le> k"
    "bs' = xs @ (if n + 36 \<le> k then (n + 12, True) # (k - (n + 12), False) # ys else (k, True) # ys)"
    using a_malloc_Some [OF assms(1)] by auto
  have nh: "xs = [] \<or> snd (last xs)" "no_holes xs" "no_holes ys" "ys = [] \<or> snd (hd ys)"
    using assms(3) by (auto simp: b(1) no_holes_append no_holes_Cons)
  show ?thesis
  proof (cases "n + 36 \<le> k")
    case True
    then have "a_free a bs' = coalesce (xs @ (n + 12, False) # (k - (n + 12), False) # ys)"
      using release_at [of m 0 0 e xs "n + 12" True "(k - (n + 12), False) # ys"] assms(2) by (simp add: a_free_def b(2,4))
    also have "\<dots> = xs @ coalesce ((k, False) # ys)" using coalesce_after_used [OF nh(1,2)] True by simp
    finally show ?thesis using coalesce_single [OF nh(4,3)] by (simp add: b(1))
  next
    case False
    then have "a_free a bs' = coalesce bs"
      using release_at [of m 0 0 e xs k True ys] assms(2) by (simp add: a_free_def b(1,2,4))
    then show ?thesis using coalesce_id [OF assms(3)] by simp
  qed
qed

section \<open>Properties\<close>

text \<open>
  C35: an allocation gives fresh memory. On a sound heap \<open>rt_malloc\<close> always returns. What it returns is
  either \<open>RT_NULL\<close>, and then the heap is as it was and no free block has room, except for an exact fit
  at the very end of the heap, or an aligned address inside the heap with room for the requested size that
  overlaps none of the blocks in use. The heap stays sound, no byte of a block in use changes, and the
  blocks in use are the former ones and the new one.
\<close>

theorem malloc_gives_fresh_block:
  assumes "heap_ok s bs" "0 < sz" "unat sz + 3 < 2 ^ 32"
  shows "\<exists>p s' bs'. rt_malloc sz s = Some (p, s') \<and> heap_ok s' bs' \<and> kept (allocated 0 bs) (mem s) (mem s')
    \<and> (if p = RT_NULL then s' = s \<and> (\<forall>xs k ys. bs = xs @ (k, False) # ys \<longrightarrow> k < block_size sz + 12 \<or> extent xs + k = heap_end s \<and> k = block_size sz + 12)
       else \<exists>a k. p = heap_ptr s + a + 12 \<and> unat sz + 12 \<le> k \<and> a + k \<le> heap_end s \<and> 4 dvd p
         \<and> set (allocated 0 bs') = insert (a, k) (set (allocated 0 bs))
         \<and> (\<forall>(a', k') \<in> set (allocated 0 bs). a + k \<le> a' \<or> a' + k' \<le> a))"
proof -
  from malloc_total [OF assms(1,3)] obtain p s' bs' where r: "rt_malloc sz s = Some (p, s')" "heap_ok s' bs'" "kept (allocated 0 bs) (mem s) (mem s')"
    "if p = RT_NULL then s' = s \<and> bs' = bs
     else \<exists>a k. p = heap_ptr s + a + 12 \<and> unat sz + 12 \<le> k \<and> set (allocated 0 bs') = insert (a, k) (set (allocated 0 bs))
         \<and> (\<forall>j. (a, j) \<notin> set (allocated 0 bs)) \<and> 4 dvd p \<and> a + k \<le> heap_end s" by blast
  show ?thesis
  proof (cases "p = RT_NULL")
    case True
    have "k < block_size sz + 12 \<or> extent xs + k = heap_end s \<and> k = block_size sz + 12" if "bs = xs @ (k, False) # ys" for xs k ys
      using refused_fit [OF assms] that r(1) True by blast
    then show ?thesis using r True by (intro exI [of _ p] exI [of _ s'] exI [of _ bs']) simp
  next
    case False
    then obtain a k where a: "p = heap_ptr s + a + 12" "unat sz + 12 \<le> k" "set (allocated 0 bs') = insert (a, k) (set (allocated 0 bs))"
      "\<forall>j. (a, j) \<notin> set (allocated 0 bs)" "4 dvd p" "a + k \<le> heap_end s" using r(4) by auto
    have "a + k \<le> a' \<or> a' + k' \<le> a" if "(a', k') \<in> set (allocated 0 bs)" for a' k'
      using allocated_apart [of a k 0 bs' a' k'] that a(3,4) by auto
    then show ?thesis using r(1-3) a False
      by (intro exI [of _ p] exI [of _ s'] exI [of _ bs']) auto
  qed
qed

theorem malloc_gives_fresh_block_witness:
  "\<exists>p s'. rt_malloc 20 demo_heap = Some (p, s') \<and> p \<noteq> RT_NULL \<and> 4 dvd p"
proof -
  have "block_size 20 = 20" by (simp add: block_size_def)
  then show ?thesis using malloc_gives_fresh_block [OF demo_heap_ok, of 20] by (fastforce split: if_splits)
qed

text \<open>
  C36: giving back what was just allocated restores the heap. After a successful \<open>rt_malloc\<close>, \<open>rt_free\<close> of
  its result returns, and the heap has the same blocks as before, also when the allocation had split a block.
\<close>

theorem malloc_free_restores:
  assumes "heap_ok s bs" "0 < sz" "unat sz + 3 < 2 ^ 32" "rt_malloc sz s = Some (p, s')" "p \<noteq> RT_NULL"
  shows "\<exists>s''. rt_free p s' = Some s'' \<and> heap_ok s'' bs \<and> rt_memory_info s'' = (mem_size_aligned s, used_mem s, max_mem s'')"
proof -
  have nz: "sz \<noteq> 0" using assms(2) by auto
  have fits: "block_size sz \<le> mem_size_aligned s" "a_malloc 0 (mem_size_aligned s) (block_size sz) bs \<noteq> None"
    using malloc_none [OF assms(1,3)] assms(4,5) by force+
  then obtain a bs' where a: "a_malloc 0 (mem_size_aligned s) (block_size sz) bs = Some (a, bs')" by auto
  have ok: "p = heap_ptr s' + a + 12" "heap_ok s' bs'" "mem_size_aligned s' = mem_size_aligned s"
    using malloc_spec [OF assms(1) nz assms(3) fits(1) a] assms(4) by auto
  have ch: "chain (mem s) 0 0 (heap_end s) bs" "chain (mem s') 0 0 (heap_end s') bs'" "no_holes bs" using assms(1) ok(2) by (auto simp: heap_ok_def)
  obtain k where "(a, k) \<in> set (allocated 0 bs')" using a_malloc_allocated [OF a ch(1)] by blast
  from free_spec [OF ok(2) this] malloc_free_list [OF a ch(2,3)] ok(1)
  obtain s'' where "rt_free p s' = Some s''" "heap_ok s'' bs" "mem_size_aligned s'' = mem_size_aligned s'" by auto
  with assms(1) ok(3) show ?thesis by (auto simp: rt_memory_info_def heap_ok_def)
qed

theorem malloc_free_restores_witness:
  "\<exists>p s' s''. rt_malloc 20 demo_heap = Some (p, s') \<and> rt_free p s' = Some s'' \<and> heap_ok s'' [(244, False)]"
proof -
  have "block_size 20 = 20" by (simp add: block_size_def)
  then obtain p s' where p: "rt_malloc 20 demo_heap = Some (p, s')" "p \<noteq> RT_NULL"
    using malloc_spec [OF demo_heap_ok, of 20 0 "[(32, True), (212, False)]"] demo_heap_ok by (auto simp: heap_ok_def RT_NULL_def)
  with malloc_free_restores [OF demo_heap_ok _ _ p] show ?thesis by auto
qed

end
