(* ===== verification/HeapClients.thy ===== *)
theory HeapClients
  imports KHeapOps
begin

text \<open>
  The clients of the heap of src/mem.c. What they rely on is the locale \<open>allocator\<close>: memory that is handed
  out is fresh, memory that is given back is gone, and neither touches the blocks of others.
\<close>

section \<open>Definitions\<close>

text \<open>
  Clients of the heap: they ask for memory, give back what they hold, and write only into it. The set
  holds the addresses and requested sizes of the blocks they have. They do not shrink blocks with
  \<open>rt_realloc\<close>, which hides memory from \<open>rt_malloc\<close>; the relay does not call it.
\<close>

inductive heap_run :: "heap \<Rightarrow> heap \<Rightarrow> (nat \<times> nat) set \<Rightarrow> bool" for s0 :: heap where
  Init: "heap_run s0 s0 {}"
| Malloc: "heap_run s0 s H \<Longrightarrow> unat sz + 3 < 2 ^ 32 \<Longrightarrow> rt_malloc sz s = Some (p, s')
    \<Longrightarrow> heap_run s0 s' (if p = RT_NULL then H else insert (p, unat sz) H)"
| Calloc: "heap_run s0 s H \<Longrightarrow> unat count * unat sz + 3 < 2 ^ 32 \<Longrightarrow> rt_calloc count sz s = Some (p, s')
    \<Longrightarrow> heap_run s0 s' (if p = RT_NULL then H else insert (p, unat count * unat sz) H)"
| Free: "heap_run s0 s H \<Longrightarrow> (p, n) \<in> H \<Longrightarrow> rt_free p s = Some s' \<Longrightarrow> heap_run s0 s' (H - {(p, n)})"
| Write: "heap_run s0 s H \<Longrightarrow> (p, n) \<in> H \<Longrightarrow> i < n \<Longrightarrow> heap_run s0 (s\<lparr>mem := (mem s)(p - heap_ptr s + i := v)\<rparr>) H"

text \<open>The blocks that clients hold are used blocks of the heap, each its own.\<close>

definition holds :: "nat \<Rightarrow> (nat \<times> nat) list \<Rightarrow> (nat \<times> nat) set \<Rightarrow> bool" where
  "holds b as H \<longleftrightarrow> inj_on fst H \<and> (\<forall>(p, n) \<in> H. \<exists>a k. (a, k) \<in> set as \<and> p = b + a + 12 \<and> n + 12 \<le> k)"

text \<open>The bytes of a block in a memory from the address \<open>b\<close> on.\<close>

definition bytes_of :: "nat \<Rightarrow> memory \<Rightarrow> nat \<times> nat \<Rightarrow> u8 list" where
  "bytes_of b m x = map (\<lambda>i. m (fst x - b + i)) [0..<snd x]"

definition contents :: "heap \<Rightarrow> nat \<times> nat \<Rightarrow> u8 list" where
  "contents s = bytes_of (heap_ptr s) (mem s)"

section \<open>The contract of an allocator\<close>

lemma held_block:
  assumes "holds b as H" "(p, n) \<in> H"
  obtains a k where "(a, k) \<in> set as" "p = b + a + 12" "n + 12 \<le> k"
  using assms by (auto simp: holds_def)

lemma holds_insert:
  assumes "holds b as H" "set as' = insert (a, k) (set as)" "\<forall>j. (a, j) \<notin> set as" "n + 12 \<le> k"
  shows "holds b as' (insert (b + a + 12, n) H)"
  using assms by (fastforce simp: holds_def inj_on_def)

lemma holds_remove:
  assumes "holds b as H" "(p, n) \<in> H" "(a, k) \<in> set as" "p = b + a + 12" "set as' = set as - {(a, k)}"
  shows "holds b as' (H - {(p, n)})" "\<And>q j. (q, j) \<in> H - {(p, n)} \<Longrightarrow> q \<noteq> p"
proof -
  have inj: "inj_on fst H" using assms(1) by (simp add: holds_def)
  show other: "q \<noteq> p" if "(q, j) \<in> H - {(p, n)}" for q j using that inj_onD [OF inj _ _ assms(2), of "(q, j)"] by auto
  have "\<exists>a' k'. (a', k') \<in> set as' \<and> q = b + a' + 12 \<and> j + 12 \<le> k'" if q: "(q, j) \<in> H - {(p, n)}" for q j
  proof -
    obtain a' k' where "(a', k') \<in> set as" "q = b + a' + 12" "j + 12 \<le> k'" using held_block [OF assms(1)] q by blast
    then show ?thesis using other [OF q] assms(4,5) by auto
  qed
  then show "holds b as' (H - {(p, n)})" using inj by (auto simp: holds_def intro: inj_on_diff)
qed

lemma bytes_kept:
  assumes "holds b as H" "(p, n) \<in> H" "kept as' m m'" "\<And>a k. (a, k) \<in> set as \<Longrightarrow> p = b + a + 12 \<Longrightarrow> (a, k) \<in> set as'"
  shows "bytes_of b m' (p, n) = bytes_of b m (p, n)"
proof -
  obtain a k where a: "(a, k) \<in> set as" "p = b + a + 12" "n + 12 \<le> k" using assms(1,2) by (rule held_block)
  have "m' i = m i" if "a + 12 \<le> i" "i < a + k" for i using assms(3) assms(4) [OF a(1,2)] that by (auto simp: kept_def)
  then show ?thesis using a(2,3) by (auto simp: bytes_of_def)
qed

locale allocator =
  fixes sound :: "'s \<Rightarrow> 'l \<Rightarrow> bool" and blocks :: "'l \<Rightarrow> (nat \<times> nat) list" and base :: "'s \<Rightarrow> nat" and memory :: "'s \<Rightarrow> memory"
    and alloc :: "u32 \<Rightarrow> 's \<Rightarrow> (nat \<times> 's) option" and dealloc :: "nat \<Rightarrow> 's \<Rightarrow> 's option"
  assumes alloc_law: "sound s l \<Longrightarrow> unat sz + 3 < 2 ^ 32 \<Longrightarrow>
      \<exists>p s' l'. alloc sz s = Some (p, s') \<and> sound s' l' \<and> kept (blocks l) (memory s) (memory s') \<and> base s' = base s
        \<and> (if p = RT_NULL then l' = l
           else \<exists>a k. p = base s + a + 12 \<and> unat sz + 12 \<le> k \<and> set (blocks l') = insert (a, k) (set (blocks l))
             \<and> (\<forall>j. (a, j) \<notin> set (blocks l)))"
    and dealloc_law: "sound s l \<Longrightarrow> (a, k) \<in> set (blocks l) \<Longrightarrow>
      \<exists>s' l'. dealloc (base s + a + 12) s = Some s' \<and> sound s' l' \<and> set (blocks l') = set (blocks l) - {(a, k)}
        \<and> kept (blocks l') (memory s) (memory s') \<and> base s' = base s"
    and apart_law: "sound s l \<Longrightarrow> (a, k) \<in> set (blocks l) \<Longrightarrow> (a', k') \<in> set (blocks l) \<Longrightarrow>
      (a, k) = (a', k') \<or> a + k \<le> a' \<or> a' + k' \<le> a"
begin

definition serves :: "'s \<Rightarrow> (nat \<times> nat) set \<Rightarrow> bool" where
  "serves s H \<longleftrightarrow> (\<exists>l. sound s l \<and> holds (base s) (blocks l) H)"

lemma alloc_serves:
  assumes "serves s H" "unat sz + 3 < 2 ^ 32"
  shows "\<exists>p s'. alloc sz s = Some (p, s') \<and> base s' = base s \<and> serves s' (if p = RT_NULL then H else insert (p, unat sz) H)
    \<and> (\<forall>x \<in> H. bytes_of (base s) (memory s') x = bytes_of (base s) (memory s) x)"
proof -
  obtain l where l: "sound s l" "holds (base s) (blocks l) H" using assms(1) by (auto simp: serves_def)
  from alloc_law [OF l(1) assms(2)] obtain p s' l' where r: "alloc sz s = Some (p, s')" "sound s' l'" "kept (blocks l) (memory s) (memory s')"
    "base s' = base s" "if p = RT_NULL then l' = l
           else \<exists>a k. p = base s + a + 12 \<and> unat sz + 12 \<le> k \<and> set (blocks l') = insert (a, k) (set (blocks l)) \<and> (\<forall>j. (a, j) \<notin> set (blocks l))"
    by blast
  have "holds (base s') (blocks l') (if p = RT_NULL then H else insert (p, unat sz) H)"
  proof (cases "p = RT_NULL")
    case False
    with r(5) obtain a k where "p = base s + a + 12" "unat sz + 12 \<le> k" "set (blocks l') = insert (a, k) (set (blocks l))" "\<forall>j. (a, j) \<notin> set (blocks l)"
      by auto
    then show ?thesis using holds_insert [OF l(2)] False r(4) by simp
  qed (use l(2) r(4,5) in simp)
  moreover have "bytes_of (base s) (memory s') (q, j) = bytes_of (base s) (memory s) (q, j)" if "(q, j) \<in> H" for q j
    by (rule bytes_kept [OF l(2) that r(3)])
  ultimately show ?thesis using r(1,2,4) by (intro exI [of _ p] exI [of _ s']) (auto simp: serves_def)
qed

lemma dealloc_serves:
  assumes "serves s H" "(p, n) \<in> H"
  shows "\<exists>s'. dealloc p s = Some s' \<and> base s' = base s \<and> serves s' (H - {(p, n)})
    \<and> (\<forall>x \<in> H - {(p, n)}. bytes_of (base s) (memory s') x = bytes_of (base s) (memory s) x)"
proof -
  obtain l where l: "sound s l" "holds (base s) (blocks l) H" using assms(1) by (auto simp: serves_def)
  obtain a k where a: "(a, k) \<in> set (blocks l)" "p = base s + a + 12" using l(2) assms(2) by (rule held_block)
  from dealloc_law [OF l(1) a(1)] obtain s' l' where r: "dealloc p s = Some s'" "sound s' l'" "set (blocks l') = set (blocks l) - {(a, k)}"
    "kept (blocks l') (memory s) (memory s')" "base s' = base s" using a(2) by auto
  note h = holds_remove [OF l(2) assms(2) a r(3)]
  have "bytes_of (base s) (memory s') (q, j) = bytes_of (base s) (memory s) (q, j)" if "(q, j) \<in> H - {(p, n)}" for q j
    using that h(2) [OF that] a(2) by (intro bytes_kept [OF l(2) _ r(4)]) (auto simp: r(3))
  then show ?thesis using r(1,2,5) h(1) by (intro exI [of _ s']) (auto simp: serves_def)
qed

lemma serves_apart:
  assumes "serves s H" "(p, n) \<in> H" "(q, j) \<in> H"
  shows "(p, n) = (q, j) \<or> p + n \<le> q \<or> q + j \<le> p"
proof -
  obtain l where l: "sound s l" "holds (base s) (blocks l) H" using assms(1) by (auto simp: serves_def)
  obtain a k where a: "(a, k) \<in> set (blocks l)" "p = base s + a + 12" "n + 12 \<le> k" using l(2) assms(2) by (rule held_block)
  obtain a' k' where a': "(a', k') \<in> set (blocks l)" "q = base s + a' + 12" "j + 12 \<le> k'" using l(2) assms(3) by (rule held_block)
  have "inj_on fst H" using l(2) by (simp add: holds_def)
  from inj_onD [OF this _ assms(2,3)] have "p = q \<Longrightarrow> (p, n) = (q, j)" by simp
  with apart_law [OF l(1) a(1) a'(1)] a(2,3) a'(2,3) show ?thesis by auto
qed

end

interpretation kheap: allocator heap_ok "allocated 0" heap_ptr mem rt_malloc rt_free
proof
  fix s bs and sz :: u32
  assume "heap_ok s bs" "unat sz + 3 < 2 ^ 32"
  from malloc_total [OF this] obtain p s' bs' where "rt_malloc sz s = Some (p, s')" "heap_ok s' bs'" "kept (allocated 0 bs) (mem s) (mem s')"
    "heap_ptr s' = heap_ptr s" "if p = RT_NULL then s' = s \<and> bs' = bs
       else \<exists>a k. p = heap_ptr s + a + 12 \<and> unat sz + 12 \<le> k \<and> set (allocated 0 bs') = insert (a, k) (set (allocated 0 bs))
         \<and> (\<forall>j. (a, j) \<notin> set (allocated 0 bs)) \<and> 4 dvd p \<and> a + k \<le> heap_end s" by blast
  then show "\<exists>p s' bs'. rt_malloc sz s = Some (p, s') \<and> heap_ok s' bs' \<and> kept (allocated 0 bs) (mem s) (mem s') \<and> heap_ptr s' = heap_ptr s
        \<and> (if p = RT_NULL then bs' = bs
           else \<exists>a k. p = heap_ptr s + a + 12 \<and> unat sz + 12 \<le> k \<and> set (allocated 0 bs') = insert (a, k) (set (allocated 0 bs))
             \<and> (\<forall>j. (a, j) \<notin> set (allocated 0 bs)))"
    by (intro exI [of _ p] exI [of _ s'] exI [of _ bs']) (auto split: if_splits)
next
  fix s bs a k
  assume "heap_ok s bs" "(a, k) \<in> set (allocated 0 bs)"
  from free_spec [OF this] show "\<exists>s' bs'. rt_free (heap_ptr s + a + 12) s = Some s' \<and> heap_ok s' bs' \<and> set (allocated 0 bs') = set (allocated 0 bs) - {(a, k)}
        \<and> kept (allocated 0 bs') (mem s) (mem s') \<and> heap_ptr s' = heap_ptr s" by blast
qed (rule allocated_apart)

section \<open>Writing into a block\<close>

lemma header_byte: "i < b \<or> b + 12 \<le> i \<Longrightarrow> header (m(i := v)) b = header m b"
  by (auto simp: header_def fields get32_def get16_def)

lemma write_ok:
  assumes "heap_ok s bs" "(a, k) \<in> set (allocated 0 bs)" "a + 12 \<le> i" "i < a + k"
  shows "heap_ok (s\<lparr>mem := (mem s)(i := v)\<rparr>) bs"
proof -
  from allocated_split [OF assms(2)] obtain xs ys where b: "bs = xs @ (k, True) # ys" "a = extent xs" by auto
  have ch: "chain (mem s) 0 0 (heap_end s) (xs @ (k, True) # ys)" using assms(1) by (auto simp: heap_ok_def b)
  note h = chain_at [OF ch, of a]
  let ?m = "(mem s)(i := v)"
  have p: "chain (mem s) 0 0 a xs" "header (mem s) a = (HEAP_MAGIC, 1, a + k, last_off 0 0 xs)" "16 \<le> k" "4 dvd k"
    "chain (mem s) a (a + k) (heap_end s) ys" using ch b(2) by (auto simp: chain_append)
  have "chain ?m 0 0 a xs" by (rule chain_cong [OF p(1)]) (use assms(3) in \<open>auto intro: header_byte\<close>)
  moreover have "chain ?m a (a + k) (heap_end s) ys" by (rule chain_cong [OF p(5)]) (use assms(4) in \<open>auto intro: header_byte\<close>)
  moreover have "header ?m a = header (mem s) a" using assms(3) by (intro header_byte) simp
  ultimately have "chain ?m 0 0 (heap_end s) bs" using p(2-4) b by (simp add: chain_append)
  moreover have "header ?m (heap_end s) = header (mem s) (heap_end s)" using assms(4) h(7) b(2) by (intro header_byte) simp
  ultimately show ?thesis using assms(1) by (auto simp: heap_ok_def header_eq)
qed

lemma fill_ok:
  assumes "heap_ok s bs" "(a, k) \<in> set (allocated 0 bs)" "n + 12 \<le> k"
  shows "heap_ok (s\<lparr>mem := fill_bytes (a + 12) v n (mem s)\<rparr>) bs"
  using assms(3)
proof (induction n)
  case 0
  have "fill_bytes (a + 12) v 0 (mem s) = mem s" by (auto simp: fill_bytes_def fun_eq_iff)
  then show ?case using assms(1) by simp
next
  case (Suc n)
  have e: "fill_bytes (a + 12) v (Suc n) (mem s) = (fill_bytes (a + 12) v n (mem s))(a + 12 + n := v)" by (auto simp: fill_bytes_def)
  have "heap_ok (s\<lparr>mem := (fill_bytes (a + 12) v n (mem s))(a + 12 + n := v)\<rparr>) bs"
    using write_ok [OF Suc.IH assms(2), of "a + 12 + n" v] Suc.prems by simp
  then show ?case unfolding e .
qed

section \<open>Runs\<close>

lemma calloc_run:
  assumes "kheap.serves s H" "unat count * unat sz + 3 < 2 ^ 32" "rt_calloc count sz s = Some (p, s')"
  shows "heap_ptr s' = heap_ptr s \<and> kheap.serves s' (if p = RT_NULL then H else insert (p, unat count * unat sz) H)"
proof -
  have n: "unat (count * sz) = unat count * unat sz" using assms(2) by (simp add: unat_word_ariths)
  obtain s1 where s1: "rt_malloc (count * sz) s = Some (p, s1)"
    "s' = (if p \<noteq> RT_NULL then s1\<lparr>mem := fill_bytes (p - heap_ptr s1) 0 (unat (count * sz)) (mem s1)\<rparr> else s1)"
    using assms(3) by (auto simp: rt_calloc_def bind_eq_Some_conv memset_fills)
  have r: "heap_ptr s1 = heap_ptr s" "kheap.serves s1 (if p = RT_NULL then H else insert (p, unat count * unat sz) H)"
    using kheap.alloc_serves [OF assms(1), of "count * sz"] s1(1) assms(2) n by (auto split: if_splits)
  show ?thesis
  proof (cases "p = RT_NULL")
    case True
    then show ?thesis using r s1(2) by simp
  next
    case False
    with r(2) obtain bs where b: "heap_ok s1 bs" "holds (heap_ptr s1) (allocated 0 bs) (insert (p, unat count * unat sz) H)"
      by (auto simp: kheap.serves_def)
    obtain a k where a: "(a, k) \<in> set (allocated 0 bs)" "p = heap_ptr s1 + a + 12" "unat count * unat sz + 12 \<le> k"
      using b(2) insertI1 by (rule held_block)
    have "heap_ok (s1\<lparr>mem := fill_bytes (a + 12) 0 (unat count * unat sz) (mem s1)\<rparr>) bs" by (rule fill_ok [OF b(1) a(1,3)])
    then show ?thesis using False b(2) r(1) s1(2) a(2) n by (auto simp: kheap.serves_def)
  qed
qed

lemma heap_run_serves: "heap_run s0 s H \<Longrightarrow> heap_ok s0 bs0 \<Longrightarrow> kheap.serves s H"
proof (induction rule: heap_run.induct)
  case Init
  then show ?case by (auto simp: kheap.serves_def holds_def)
next
  case (Malloc s H sz p s')
  then show ?case using kheap.alloc_serves [of s H sz] by auto
next
  case (Calloc s H count sz p s')
  then show ?case using calloc_run by blast
next
  case (Free s H p n s')
  then show ?case using kheap.dealloc_serves [of s H p n] by auto
next
  case (Write s H p n i v)
  then obtain bs where b: "heap_ok s bs" "holds (heap_ptr s) (allocated 0 bs) H" by (auto simp: kheap.serves_def)
  obtain a k where a: "(a, k) \<in> set (allocated 0 bs)" "p = heap_ptr s + a + 12" "n + 12 \<le> k" using b(2) Write.hyps(2) by (rule held_block)
  have "heap_ok (s\<lparr>mem := (mem s)(a + 12 + i := v)\<rparr>) bs" using a(3) Write.hyps(3) by (intro write_ok [OF b(1) a(1)]) auto
  then show ?case using b(2) a(2) by (auto simp: kheap.serves_def)
qed

lemma held_inside:
  assumes "kheap.serves s H" "(p, n) \<in> H"
  shows "heap_ptr s < p \<and> p + n \<le> heap_ptr s + heap_end s \<and> 4 dvd p"
proof -
  obtain bs where l: "heap_ok s bs" "holds (heap_ptr s) (allocated 0 bs) H" using assms(1) by (auto simp: kheap.serves_def)
  obtain a k where a: "(a, k) \<in> set (allocated 0 bs)" "p = heap_ptr s + a + 12" "n + 12 \<le> k" using l(2) assms(2) by (rule held_block)
  from allocated_split [OF a(1)] obtain xs ys where b: "bs = xs @ (k, True) # ys" "a = extent xs" by auto
  have ch: "chain (mem s) 0 0 (heap_end s) (xs @ (k, True) # ys)" "4 dvd heap_ptr s" using l(1) by (auto simp: heap_ok_def b(1))
  then show ?thesis using chain_at(7,8) [OF ch(1), of a] a b(2) by auto
qed

section \<open>Properties\<close>

text \<open>
  C34: the heap serves its clients. From its initialisation on, after any sequence of allocations, releases
  and writes by clients that give back only what they hold and write only into it, the blocks they hold
  lie aligned inside the heap and do not overlap, every allocation and every release of a held block
  returns, and neither changes a byte of the other blocks.
\<close>

theorem clients_keep_apart:
  assumes "heap_run (rt_system_heap_init begin_addr end_addr s0) s H" "used_mem s0 = 0"
    and "unat (RT_ALIGN begin_addr) + 36 \<le> unat (RT_ALIGN_DOWN end_addr)"
  shows "(\<forall>(p, n) \<in> H. heap_ptr s < p \<and> p + n \<le> heap_ptr s + heap_end s \<and> 4 dvd p)
    \<and> (\<forall>(p, n) \<in> H. \<forall>(q, j) \<in> H. (p, n) = (q, j) \<or> p + n \<le> q \<or> q + j \<le> p)
    \<and> (\<forall>sz. unat sz + 3 < 2 ^ 32 \<longrightarrow> (\<exists>p s'. rt_malloc sz s = Some (p, s') \<and> (\<forall>b \<in> H. contents s' b = contents s b)))
    \<and> (\<forall>(p, n) \<in> H. \<exists>s'. rt_free p s = Some s' \<and> (\<forall>b \<in> H - {(p, n)}. contents s' b = contents s b))"
proof -
  have s: "kheap.serves s H" by (rule heap_run_serves [OF assms(1) init_ok [OF assms(2,3)]])
  have "heap_ptr s < p \<and> p + n \<le> heap_ptr s + heap_end s \<and> 4 dvd p" if "(p, n) \<in> H" for p n
    by (rule held_inside [OF s that])
  moreover have "(p, n) = (q, j) \<or> p + n \<le> q \<or> q + j \<le> p" if "(p, n) \<in> H" "(q, j) \<in> H" for p n q j
    by (rule kheap.serves_apart [OF s that])
  moreover have "\<exists>p s'. rt_malloc sz s = Some (p, s') \<and> (\<forall>b \<in> H. contents s' b = contents s b)" if "unat sz + 3 < 2 ^ 32" for sz
    using kheap.alloc_serves [OF s that] by (auto simp: contents_def)
  moreover have "\<exists>s'. rt_free p s = Some s' \<and> (\<forall>b \<in> H - {(p, n)}. contents s' b = contents s b)" if "(p, n) \<in> H" for p n
    using kheap.dealloc_serves [OF s that] by (auto simp: contents_def)
  ultimately show ?thesis by blast
qed

theorem clients_keep_apart_witness:
  "\<exists>p s'. heap_run demo_heap s' {(p, 20)} \<and> rt_free p s' \<noteq> None"
proof -
  have "block_size 20 = 20" by (simp add: block_size_def)
  then obtain p s' where p: "rt_malloc 20 demo_heap = Some (p, s')" "p \<noteq> RT_NULL"
    using malloc_spec [OF demo_heap_ok, of 20 0 "[(32, True), (212, False)]"] demo_heap_ok by (auto simp: heap_ok_def RT_NULL_def)
  have r: "heap_run demo_heap s' {(p, 20)}"
    using heap_run.Malloc [OF heap_run.Init _ p(1)] p(2) by simp
  have "unat (RT_ALIGN 0x20000000) = 0x20000000" "unat (RT_ALIGN_DOWN 0x20000100) = 0x20000100"
    by (simp_all add: RT_ALIGN_def RT_ALIGN_DOWN_def)
  with clients_keep_apart [OF r [unfolded demo_heap_def]] have "\<exists>s''. rt_free p s' = Some s''" by simp
  with r show ?thesis by blast
qed


end
