(* ===== verification/Spec2Isabelle.thy ===== *)
theory Spec2Isabelle
  imports RelaySystem MbSerial OvertimeClock Sleep KMutex HeapClients
begin

text \<open>
  A verification of the data receive relay in src/Task and of the parts of FreeModbus, RT-Thread, FatFs
  and cJSON under src/ that it runs on.

  The program. Temperature transmitters send 12-byte frames by radio. The relay, an STM32F429 board
  under RT-Thread, receives them with a CC1101 chip, decodes them and keeps the readings in the holding
  registers \<open>usSRegHoldBuf\<close> of a Modbus RTU slave, from which a host reads them over a serial line. The
  host also writes the configuration (baud rate, slave address, overtime, device codes) into registers
  of the same table and sets request flags; a task of the relay stores it in the files ConfigFile.json
  and DeviceId.csv and resets the processor. Five threads share the table: the radio task and the
  overtime task (TaskDataReceive.c), the configuration task and the poll thread (TaskModbus.c), and
  main; a timer function counts the seconds.

  How code becomes definitions. A C function is a function of the same name on the state it uses;
  structs are records, enums are datatypes, integers are words of their width, \<open>int\<close> where the C code
  computes in \<open>int\<close>. What the program does not survive or does not return from (an access outside an
  array, a failing \<open>RT_ASSERT\<close>, an undefined conversion, an endless loop) is \<^term>\<open>None\<close>, and so a
  theorem that a result exists excludes all of these. Hardware is a script of what it will answer or a
  log of what it was told. A pass of a thread's endless loop is one function; the threads of the relay
  interleave by passes.

  The theories, in the order of the layers:

  \<^item> Prelude: C integers, checked array access, error codes, shared lemmas.
  \<^item> RegMap: the layout of the register table (Task/DataFrame.h) and the locale of a register file with
    disjoint blocks. AppTimer: the elapsed time test of Task/Timer.c.
  \<^item> CC1101: the radio driver (Task/drivers/CC1101.c) as bus transactions. Its lemmas say which bytes go
    over the bus and when a packet is accepted or rejected, and that the second long packet overruns the
    receive buffer.
  \<^item> CFloat, Sensor: IEEE arithmetic with rounding, as far as the sensor formulas need it, and the exact
    formulas with their error bounds. DataFrame: the decoder (Task/DataFrame.c). DataReceive: the passes
    of the radio task and the overtime task (Task/TaskDataReceive.c): which registers a frame changes and
    to what, which frames are dropped, what a sweep clears.
  \<^item> MbCrc, MbUtil, MbApp, MbFunc: CRC-16 with its equivalence to the bit-serial definition, bit fields,
    register callbacks (locale of register blocks) and the ten request handlers, which all satisfy the
    contract of the locale of request handlers.
  \<^item> KEvent: event objects (src/ipc.c). Serial: the serial driver (components/drivers/serial/serial.c) with
    its receive FIFO, an instance of the locale of a FIFO that drops its oldest element. MbPort: the
    events, line and timer of the Modbus port. MbRtu: the state machines of mbrtu.c and all interleavings
    of their events. MbSerial: the path of a character from the UART interrupt to the framing. MbPoll:
    mb.c, from the characters of a request on the line to those of the reply.
  \<^item> ConfigParam, Decimal, FatFile, DeviceIdCsv, CJson, JsonConfig, SaveConfig: the configuration table, the
    decimal conversions, the string functions of FatFs, the two files, the JSON library and the
    configuration task: a configuration set by the host survives the reset.
  \<^item> KTimer, OvertimeClock, Sched, Sleep: the timers and the clock tick of the kernel, the seconds counter
    on them, the scheduler and the start of the threads, and the tick with time slices on the threads: a
    sleep ends at the tick it asked for. KIpc, KMutex: semaphores and mutexes (src/ipc.c) on the scheduler,
    for any order of calls, time-outs and preemptions: a semaphore lets in as many threads as its value
    says, the lock of the heap one at a time; a mutex has one owner, who inherits the priority of the most
    urgent thread that waits.
  \<^item> KHeap, KHeapOps, HeapClients: the kernel heap (src/mem.c) on a byte memory with the headers inside it,
    with \<open>rt_memset\<close> and \<open>rt_memcpy\<close> (src/kservice.c). The pointer code refines first fit, splitting and
    joining on a list of blocks; its clients see the locale of an allocator: fresh blocks, disjoint blocks,
    contents that stay.
  \<^item> RelaySystem and this theory: the threads and interrupts on the shared table. A measurement reaches the
    host; whatever the order of steps, the invariant of table, radio task and slave holds; only the host
    changes the configuration; a swept reading is not served.

  Bounds. Loops over arrays are structural. Loops that can run forever are partial functions with
  \<^term>\<open>None\<close> for not returning: the room count of the JSON printer, the line loop of the device code file,
  the walks along the chain of heap blocks and the check of the due timers; that they return is proved where it is claimed. The JSON parser recurses
  with fuel; the length of the text plus one is always enough, and more makes no difference.

  Assumptions, all of them parameters or hypotheses. FatFs files are byte lists with a position, as its
  documentation describes f_open, f_read, f_write and f_close, on a mounted volume with room. The heap
  gives memory for non-zero sizes, and the JSON library's allocations succeed. What a store or a read
  through a null pointer does is a parameter of the target. The functions \<open>pow\<close> and \<open>sprintf\<close> of the C
  library are parameters where cJSON calls them. No UART of the board has DMA.

  Not modelled. The FatFs core down to clusters and sectors, SFUD and the SPI flash, formatting and
  mounting; the rest of the kernel (mailboxes, queues, objects, signals, devices other than
  the UART), which the relay reaches only through the code above; Modbus ASCII, TCP and master,
  which are not compiled in; the board support package and the vendor HAL; console output.
\<close>

section \<open>Properties of the whole relay\<close>





text \<open>
  C8: the configuration belongs to the host. A step of the relay changes the words of the Modbus parameters
  and the overtime or a device code only if it is a poll of the Modbus stack, which executes a request
  of the host.
\<close>

theorem only_host_changes_configuration:
  assumes "system_step overtime t fm s s'" "system_ok s" "a < CONFIG_FLAG_ADDRESS \<or> (\<exists>j<256. a \<in> id_addrs j)"
  shows "table s' ! a = table s ! a \<or> poll_pass s = Some s'"
  using step_keeps_codes [OF assms] .

theorem only_host_changes_configuration_witness:
  "\<exists>s'. sweep_pass 600 demo_system = Some s' \<and> (table s' ! 0x708 = 0x5678 \<or> poll_pass demo_system = Some s')"
proof -
  obtain s' where s': "sweep_pass 600 demo_system = Some s'"
    using sweep_pass_defined [OF demo_system_facts(1)] by blast
  have "0x708 \<in> id_addrs 0" by (simp add: id_addrs_def layout_defs)
  moreover have "system_step 600 \<lparr>null_store = False, null_text = None, heap = (\<lambda>_. None)\<rparr> (\<lambda>_. []) demo_system s'"
    by (rule system_step.Sweep [OF s'])
  ultimately have "table s' ! 0x708 = table demo_system ! 0x708 \<or> poll_pass demo_system = Some s'"
    by (intro only_host_changes_configuration demo_system_facts(1)) (auto intro: exI [of _ 0])
  then show ?thesis using s' by (simp add: demo_system_facts(6) demo_regs_def layout_defs)
qed

text \<open>
  C9: the host does not get old readings. After the overtime task has swept the table, a read of the
  temperature register of a node whose last frame is older than the overtime gives 0.
\<close>

theorem stale_reading_not_served:
  assumes "system_ok s" "quiet (slave s)" "uart_out (port (framing (slave s))) = []"
    and "xFuncHandlers (slave s) = xFuncHandlers_init" "ucMBAddress (slave s) \<noteq> 0"
    and "i < 256" "stale (relay.NodeOvertimeTimerNumber (radio_task s)) overtime (table s) i"
  shows "\<exists>s' s''. sweep_pass overtime s = Some s'
    \<and> host_reads (of_nat (TEMPERATURE_FIRST_ADDRESS + i)) s' =
        Some (line_frame (ucMBAddress (slave s)) [MB_FUNC_READ_HOLDING_REGISTER, 2, 0, 0], s'')"
proof -
  obtain s' where s': "sweep_pass overtime s = Some s'" "slave s' = slave (set_table (table s') s)"
    using sweep_pass_defined [OF assms(1)] by blast
  note k = sweep_pass_ok [OF s'(1) assms(1)]
  note a = temperature_address [OF assms(6)]
  have "swept (relay.NodeOvertimeTimerNumber (radio_task s)) overtime (table s) 256 (TEMPERATURE_FIRST_ADDRESS + i)"
    using assms(6,7) by (auto simp: swept_def node_addrs_def)
  then have "table s' ! (TEMPERATURE_FIRST_ADDRESS + i) = 0"
    using k(2) a(2) system_table_ok [OF assms(1)] by (simp add: regs_ok_def)
  then show ?thesis
    using host_reads_register [of s' "of_nat (TEMPERATURE_FIRST_ADDRESS + i)"] k(1) assms(2-5) a s'
    by (auto simp: system_ok_def set_table_def quiet_def hi8_def lo8_def)
qed

theorem stale_reading_not_served_witness:
  "\<exists>s' s''. sweep_pass 5 (set_table (demo_regs[RECEIVING_MOMENT_FIRAT_ADDRESS := 1, TEMPERATURE_FIRST_ADDRESS := 250]) demo_system) = Some s'
    \<and> host_reads (of_nat TEMPERATURE_FIRST_ADDRESS) s' = Some (line_frame 5 [MB_FUNC_READ_HOLDING_REGISTER, 2, 0, 0], s'')"
proof -
  let ?rs = "demo_regs[RECEIVING_MOMENT_FIRAT_ADDRESS := 1, TEMPERATURE_FIRST_ADDRESS := 250]"
  let ?s = "set_table ?rs demo_system"
  note f = demo_system_facts
  have ok: "system_ok ?s" by (rule system_ok_set_table [OF f(1)]) (use demo_facts(1) in \<open>simp add: regs_ok_def\<close>)
  have sl: "quiet (slave ?s)" "uart_out (port (framing (slave ?s))) = []" "xFuncHandlers (slave ?s) = xFuncHandlers_init"
    "ucMBAddress (slave ?s) = 5" using f(2-5) by (simp_all add: set_table_def quiet_def)
  have "relay.NodeOvertimeTimerNumber (radio_task ?s) = 7" by (simp add: demo_system_def demo_relay_def)
  moreover have "stale 7 5 ?rs 0" by (simp add: stale_def rd32_def demo_regs_def layout_defs mk32_def)
  ultimately show ?thesis
    using stale_reading_not_served [OF ok sl(1-3), of 0 5] sl(4) by simp
qed

end
